(* ===== verification/Go_Base.thy ===== *)
theory Go_Base
  imports Main "HOL-Library.AList" "HOL-Library.Word" "HOL-Library.Multiset"
begin

text \<open>
  The prelude of the development: what the Go language and its \<^verbatim>\<open>time\<close> and
  \<^verbatim>\<open>sync\<close> packages contribute to every component.

  \<^item> A Go map is an association list with distinct keys (\<open>gomap\<close>). The list order is the
    iteration order of \<^verbatim>\<open>range\<close>, which Go leaves unspecified: every theorem quantifies
    over the list, and the iterating operations have lemmas saying that the order does not
    matter.
  \<^item> \<^verbatim>\<open>time.Time\<close> is an integer number of nanoseconds, \<^verbatim>\<open>time.Duration\<close> an integer
    in the signed 64-bit range: \<open>wrap64\<close> is two's complement wrap-around of an arithmetic
    result and \<open>sat64\<close> the saturation of \<^verbatim>\<open>Time.Sub\<close>.
  \<^item> Mutual exclusion (\<^verbatim>\<open>sync.Mutex\<close>, \<^verbatim>\<open>sync.RWMutex\<close>) makes each locked section
    one atomic step; a section of code that releases the lock is modelled as several steps.
\<close>

named_theorems gomap_simps "lookups and key sets after the operations on Go maps"
named_theorems model_defs "definitions of small accessors, unfolded together"

section \<open>Go maps\<close>

type_synonym ('k, 'v) gomap = "('k \<times> 'v) list"

definition mget :: "('k, 'v) gomap \<Rightarrow> 'k \<Rightarrow> 'v option" where
  "mget m k = map_of m k"

definition mput :: "'k \<Rightarrow> 'v \<Rightarrow> ('k, 'v) gomap \<Rightarrow> ('k, 'v) gomap" where
  "mput k v m = AList.update k v m"

definition mdel :: "'k \<Rightarrow> ('k, 'v) gomap \<Rightarrow> ('k, 'v) gomap" where
  "mdel k m = AList.delete k m"

text \<open>The loop \<^verbatim>\<open>for k, v := range m { if p(k, v) { delete(m, k) } }\<close>.\<close>

definition mdel_where :: "('k \<Rightarrow> 'v \<Rightarrow> bool) \<Rightarrow> ('k, 'v) gomap \<Rightarrow> ('k, 'v) gomap" where
  "mdel_where p m = filter (\<lambda>(k, v). \<not> p k v) m"

definition mkeys :: "('k, 'v) gomap \<Rightarrow> 'k list" where
  "mkeys m = map fst m"

definition gomap_ok :: "('k, 'v) gomap \<Rightarrow> bool" where
  "gomap_ok m \<longleftrightarrow> distinct (mkeys m)"

lemma mget_empty [simp, gomap_simps]: "mget [] k = None"
  by (simp add: mget_def)

lemma mget_Cons: "mget ((a, v) # m) k = (if a = k then Some v else mget m k)"
  by (simp add: mget_def)

lemma mget_mput [simp, gomap_simps]: "mget (mput k v m) j = (if j = k then Some v else mget m j)"
  by (simp add: mget_def mput_def update_conv')

lemma mget_mdel [simp, gomap_simps]: "mget (mdel k m) j = (if j = k then None else mget m j)"
  by (simp add: mget_def mdel_def delete_conv')

lemma mkeys_mput: "set (mkeys (mput k v m)) = insert k (set (mkeys m))"
  by (simp add: mkeys_def mput_def dom_update)

lemma mget_None_iff: "mget m k = None \<longleftrightarrow> k \<notin> set (mkeys m)"
  by (simp add: mget_def mkeys_def map_of_eq_None_iff)

lemma mget_SomeD: "mget m k = Some v \<Longrightarrow> (k, v) \<in> set m"
  by (simp add: mget_def map_of_SomeD)

lemma mget_Some_key: "mget m k = Some v \<Longrightarrow> k \<in> set (mkeys m)"
  by (auto simp: mkeys_def dest!: mget_SomeD intro: rev_image_eqI)

lemma mget_Some_iff: "gomap_ok m \<Longrightarrow> mget m k = Some v \<longleftrightarrow> (k, v) \<in> set m"
  by (auto simp: mget_def gomap_ok_def mkeys_def)

lemma gomap_ok_empty [simp]: "gomap_ok []"
  by (simp add: gomap_ok_def mkeys_def)

lemma gomap_ok_mput [simp]: "gomap_ok m \<Longrightarrow> gomap_ok (mput k v m)"
  by (simp add: gomap_ok_def mkeys_def mput_def distinct_update)

lemma gomap_ok_mdel [simp]: "gomap_ok m \<Longrightarrow> gomap_ok (mdel k m)"
  by (simp add: gomap_ok_def mkeys_def mdel_def distinct_delete)

lemma gomap_ok_filter: "gomap_ok m \<Longrightarrow> gomap_ok (filter p m)"
  by (auto simp: gomap_ok_def mkeys_def distinct_map intro: inj_on_subset)

lemma gomap_ok_mdel_where [simp]: "gomap_ok m \<Longrightarrow> gomap_ok (mdel_where p m)"
  by (simp add: mdel_where_def gomap_ok_filter)

lemma map_of_filter_None: "map_of m k = None \<Longrightarrow> map_of (filter q m) k = None"
  by (auto simp: map_of_eq_None_iff)

lemma mget_mdel_where [gomap_simps]:
  assumes "gomap_ok m"
  shows "mget (mdel_where p m) k =
    (case mget m k of None \<Rightarrow> None | Some v \<Rightarrow> if p k v then None else Some v)"
  using assms unfolding mget_def mdel_where_def gomap_ok_def mkeys_def
proof (induction m)
  case Nil
  then show ?case by simp
next
  case (Cons a m)
  then have "map_of m (fst a) = None" and IH: "map_of (filter (\<lambda>(k, v). \<not> p k v) m) k =
      (case map_of m k of None \<Rightarrow> None | Some v \<Rightarrow> if p k v then None else Some v)"
    by (simp_all add: map_of_eq_None_iff)
  then show ?case
    by (cases a) (simp add: map_of_filter_None)
qed

text \<open>The iteration order of a map does not change its lookups.\<close>

lemma mget_perm:
  assumes ok: "gomap_ok m" and eq: "mset m = mset m'"
  shows "mget m' k = mget m k"
proof -
  from eq have s: "set m = set m'" by (rule mset_eq_setD)
  have "mset (mkeys m) = mset (mkeys m')"
    using eq by (simp add: mkeys_def)
  then have "distinct (mkeys m) = distinct (mkeys m')"
    by (rule mset_eq_imp_distinct_iff)
  with ok have ok': "gomap_ok m'" by (simp add: gomap_ok_def)
  have "mget m' k = Some v \<longleftrightarrow> mget m k = Some v" for v
    using s by (simp add: mget_Some_iff [OF ok] mget_Some_iff [OF ok'])
  then show ?thesis
    by (cases "mget m k"; cases "mget m' k") auto
qed

section \<open>Durations and times\<close>

type_synonym time = int
type_synonym duration = int

definition int64_min :: int where "int64_min = - (2 ^ 63)"
definition int64_max :: int where "int64_max = 2 ^ 63 - 1"

definition in_int64 :: "int \<Rightarrow> bool" where
  "in_int64 x \<longleftrightarrow> int64_min \<le> x \<and> x \<le> int64_max"

definition wrap64 :: "int \<Rightarrow> int" where
  "wrap64 x = sint (word_of_int x :: 64 word)"

definition sat64 :: "int \<Rightarrow> int" where
  "sat64 x = max int64_min (min int64_max x)"

text \<open>\<^verbatim>\<open>t.Sub(u)\<close> saturates at the bounds of a \<^verbatim>\<open>Duration\<close>.\<close>

definition time_sub :: "time \<Rightarrow> time \<Rightarrow> duration" where
  "time_sub t u = sat64 (t - u)"

abbreviation second :: duration where "second \<equiv> 1000000000"
abbreviation minute :: duration where "minute \<equiv> 60000000000"
abbreviation hour :: duration where "hour \<equiv> 3600000000000"

lemma wrap64_id: "in_int64 x \<Longrightarrow> wrap64 x = x"
  unfolding wrap64_def in_int64_def int64_min_def int64_max_def
  by (simp add: sint_sbintrunc' signed_take_bit_int_eq_self)

lemma wrap64_range: "in_int64 (wrap64 x)"
  unfolding wrap64_def in_int64_def int64_min_def int64_max_def
  using sint_range_size [of "word_of_int x :: 64 word"] by (simp add: word_size)

lemma in_int64_0 [simp]: "in_int64 0"
  by (simp add: in_int64_def int64_min_def int64_max_def)

lemma sat64_range: "in_int64 (sat64 x)"
  by (auto simp: sat64_def in_int64_def int64_min_def int64_max_def)

lemma sat64_mono: "x \<le> y \<Longrightarrow> sat64 x \<le> sat64 y"
  by (auto simp: sat64_def)

lemma time_sub_gt_iff:
  assumes "in_int64 d" "d < int64_max"
  shows "time_sub t u > d \<longleftrightarrow> t - u > d"
  using assms by (auto simp: time_sub_def sat64_def in_int64_def int64_min_def int64_max_def)

lemma time_sub_self [simp]: "time_sub t t = 0"
  by (simp add: time_sub_def sat64_def int64_min_def int64_max_def)

lemma time_sub_gtD: "in_int64 d \<Longrightarrow> time_sub t u > d \<Longrightarrow> t - u > d"
  by (auto simp: time_sub_def sat64_def in_int64_def int64_min_def int64_max_def)

lemma time_sub_le: "in_int64 d \<Longrightarrow> t - u \<le> d \<Longrightarrow> time_sub t u \<le> d"
  by (auto simp: time_sub_def sat64_def in_int64_def int64_min_def int64_max_def)

section \<open>Lists\<close>

lemma length_filter_split: "length (filter p xs) + length (filter (\<lambda>x. \<not> p x) xs) = length xs"
  by (rule sum_length_filter_compl)

lemma mset_filter_split: "mset (filter p xs) + mset (filter (\<lambda>x. \<not> p x) xs) = mset xs"
  by (induction xs) auto

section \<open>Step relations\<close>

text \<open>
  An invariant of a step relation, and a two-state relation that every step respects. The step
  relations of the development interpret these with their own invariants.
\<close>

locale invariant_of =
  fixes step :: "'s \<Rightarrow> 's \<Rightarrow> bool" and inv :: "'s \<Rightarrow> bool"
  assumes step_inv: "step s s' \<Longrightarrow> inv s \<Longrightarrow> inv s'"
begin

lemma reach_inv: "step\<^sup>*\<^sup>* s s' \<Longrightarrow> inv s \<Longrightarrow> inv s'"
  by (induction rule: rtranclp_induct) (auto intro: step_inv)

end

locale evolution = invariant_of step inv for step :: "'s \<Rightarrow> 's \<Rightarrow> bool" and inv :: "'s \<Rightarrow> bool" +
  fixes rel :: "'s \<Rightarrow> 's \<Rightarrow> bool"
  assumes rel_refl: "rel s s"
    and rel_trans: "rel s t \<Longrightarrow> rel t u \<Longrightarrow> rel s u"
    and step_rel: "step s s' \<Longrightarrow> inv s \<Longrightarrow> rel s s'"
begin

lemma reach_rel:
  assumes "step\<^sup>*\<^sup>* s s'" "inv s"
  shows "rel s s'"
  using assms(1)
proof (induction rule: rtranclp_induct)
  case base
  show ?case by (rule rel_refl)
next
  case (step t u)
  have "inv t" using reach_inv [OF step.hyps(1) assms(2)] .
  with step show ?case by (blast intro: rel_trans step_rel)
qed

end

text \<open>
  A forward simulation: what a step does, seen through \<open>abs\<close>, takes the abstract machine a number of
  steps, none at least. So do runs.
\<close>

locale simulation = invariant_of step inv for step :: "'s \<Rightarrow> 's \<Rightarrow> bool" and inv :: "'s \<Rightarrow> bool" +
  fixes abs :: "'s \<Rightarrow> 'a" and astep :: "'a \<Rightarrow> 'a \<Rightarrow> bool"
  assumes step_sim: "step s s' \<Longrightarrow> inv s \<Longrightarrow> astep\<^sup>*\<^sup>* (abs s) (abs s')"

sublocale simulation \<subseteq> sim: evolution step inv "\<lambda>s s'. astep\<^sup>*\<^sup>* (abs s) (abs s')"
  by unfold_locales (auto intro: step_sim)

end
