(* ===== verification/Go_Strings.thy ===== *)
theory Go_Strings
  imports Go_Base "HOL-Library.Char_ord" "HOL-Library.Sublist"
begin

text \<open>
  The functions of Go's \<^verbatim>\<open>strings\<close> package that the program calls. A Go string is a
  sequence of bytes, here a \<open>char list\<close>: a rune beyond ASCII is its UTF-8 bytes.
  Separators are single bytes everywhere the program splits or cuts.
\<close>

section \<open>Cutting, splitting and joining\<close>

text \<open>\<^verbatim>\<open>strings.Cut(s, sep)\<close> for a one-byte separator.\<close>

definition cut :: "char \<Rightarrow> string \<Rightarrow> string \<times> string \<times> bool" where
  "cut c s = (if c \<in> set s
     then (takeWhile (\<lambda>x. x \<noteq> c) s, tl (dropWhile (\<lambda>x. x \<noteq> c) s), True)
     else (s, [], False))"

text \<open>\<^verbatim>\<open>strings.IndexByte\<close>, with \<open>None\<close> for \<open>-1\<close>.\<close>

fun index_byte :: "char \<Rightarrow> string \<Rightarrow> nat option" where
  "index_byte c [] = None"
| "index_byte c (x # xs) = (if x = c then Some 0 else map_option Suc (index_byte c xs))"

definition last_index_byte :: "char \<Rightarrow> string \<Rightarrow> nat option" where
  "last_index_byte c s = map_option (\<lambda>i. length s - Suc i) (index_byte c (rev s))"

text \<open>\<^verbatim>\<open>strings.Split(s, sep)\<close>: never empty.\<close>

fun split_on :: "char \<Rightarrow> string \<Rightarrow> string list" where
  "split_on c [] = [[]]"
| "split_on c (x # xs) =
     (if x = c then [] # split_on c xs
      else (case split_on c xs of [] \<Rightarrow> [[x]] | p # ps \<Rightarrow> (x # p) # ps))"

fun join :: "string \<Rightarrow> string list \<Rightarrow> string" where
  "join sep [] = []"
| "join sep [s] = s"
| "join sep (s # t # ss) = s @ sep @ join sep (t # ss)"

lemma cut_append [simp]: "c \<notin> set a \<Longrightarrow> cut c (a @ c # b) = (a, b, True)"
  by (auto simp: cut_def takeWhile_append dropWhile_append)

lemma cut_absent [simp]: "c \<notin> set s \<Longrightarrow> cut c s = (s, [], False)"
  by (simp add: cut_def)

lemma cut_True_iff: "cut c s = (a, b, True) \<longleftrightarrow> s = a @ c # b \<and> c \<notin> set a"
proof
  assume h: "cut c s = (a, b, True)"
  then have "c \<in> set s" by (simp add: cut_def split: if_splits)
  then obtain p q where s: "s = p @ c # q" "c \<notin> set p" by (meson split_list_first)
  with h show "s = a @ c # b \<and> c \<notin> set a" by simp
next
  assume "s = a @ c # b \<and> c \<notin> set a"
  then show "cut c s = (a, b, True)" by simp
qed

lemma cut_False_iff: "cut c s = (a, b, False) \<longleftrightarrow> c \<notin> set s \<and> a = s \<and> b = []"
  by (auto simp: cut_def)

lemma cut_fst_subset: "set (fst (cut c s)) \<subseteq> set s"
  by (auto simp: cut_def dest: set_takeWhileD)

lemma index_byte_None: "index_byte c s = None \<longleftrightarrow> c \<notin> set s"
  by (induction s) auto

lemma index_byte_Some:
  "index_byte c s = Some i \<Longrightarrow> i < length s \<and> s ! i = c \<and> take i s = takeWhile (\<lambda>x. x \<noteq> c) s"
  by (induction s arbitrary: i) (auto split: if_splits)

lemma split_on_nonempty [simp]: "split_on c s \<noteq> []"
  by (induction s) (auto split: list.splits)

lemma split_on_no_sep: "p \<in> set (split_on c s) \<Longrightarrow> c \<notin> set p"
proof (induction s arbitrary: p)
  case Nil
  then show ?case by simp
next
  case (Cons x xs)
  then show ?case
    by (cases "split_on c xs") (auto split: if_splits)
qed

lemma join_Cons: "ss \<noteq> [] \<Longrightarrow> join sep (s # ss) = s @ sep @ join sep ss"
  by (cases ss) simp_all

lemma join_split [simp]: "join [c] (split_on c s) = s"
proof (induction s)
  case Nil
  then show ?case by simp
next
  case (Cons x xs)
  show ?case
  proof (cases "split_on c xs")
    case Nil
    then show ?thesis by simp
  next
    case (Cons p ps)
    with Cons.IH show ?thesis by (cases ps) (auto simp: join_Cons)
  qed
qed

lemma split_on_plain: "c \<notin> set s \<Longrightarrow> split_on c s = [s]"
  by (induction s) auto

lemma split_on_append: "c \<notin> set a \<Longrightarrow> split_on c (a @ c # b) = a # split_on c b"
  by (induction a) auto

lemma split_on_join:
  "xs \<noteq> [] \<Longrightarrow> \<forall>x\<in>set xs. c \<notin> set x \<Longrightarrow> split_on c (join [c] xs) = xs"
proof (induction xs)
  case Nil
  then show ?case by simp
next
  case (Cons x xs)
  then show ?case
    by (cases xs) (simp_all add: split_on_plain split_on_append)
qed

section \<open>Prefixes, suffixes, substrings\<close>

definition has_prefix :: "string \<Rightarrow> string \<Rightarrow> bool" where
  "has_prefix s p \<longleftrightarrow> prefix p s"

definition has_suffix :: "string \<Rightarrow> string \<Rightarrow> bool" where
  "has_suffix s t \<longleftrightarrow> prefix (rev t) (rev s)"

definition cut_prefix :: "string \<Rightarrow> string \<Rightarrow> string option" where
  "cut_prefix s p = (if has_prefix s p then Some (drop (length p) s) else None)"

definition trim_prefix :: "string \<Rightarrow> string \<Rightarrow> string" where
  "trim_prefix s p = (if has_prefix s p then drop (length p) s else s)"

definition trim_suffix :: "string \<Rightarrow> string \<Rightarrow> string" where
  "trim_suffix s t = (if has_suffix s t then take (length s - length t) s else s)"

fun str_contains :: "string \<Rightarrow> string \<Rightarrow> bool" where
  "str_contains [] sub = (sub = [])"
| "str_contains (x # xs) sub = (prefix sub (x # xs) \<or> str_contains xs sub)"

lemma has_prefix_iff: "has_prefix s p \<longleftrightarrow> (\<exists>r. s = p @ r)"
  by (auto simp: has_prefix_def prefix_def)

lemma has_prefix_append [simp]: "has_prefix (p @ r) p"
  by (simp add: has_prefix_def)

lemma cut_prefix_append [simp]: "cut_prefix (p @ r) p = Some r"
  by (simp add: cut_prefix_def)

lemma cut_prefix_Some: "cut_prefix s p = Some r \<longleftrightarrow> s = p @ r"
  by (auto simp: cut_prefix_def has_prefix_iff split: if_splits)

lemma trim_suffix_append [simp]: "trim_suffix (s @ t) t = s"
  by (simp add: trim_suffix_def has_suffix_def)

lemma trim_suffix_subset: "set (trim_suffix s t) \<subseteq> set s"
  by (auto simp: trim_suffix_def dest: in_set_takeD)

lemma str_contains_iff: "str_contains s sub \<longleftrightarrow> (\<exists>a b. s = a @ sub @ b)"
proof (induction s)
  case Nil
  then show ?case by auto
next
  case (Cons x xs)
  show ?case
  proof
    assume "str_contains (x # xs) sub"
    then consider "prefix sub (x # xs)" | "str_contains xs sub" by auto
    then show "\<exists>a b. x # xs = a @ sub @ b"
    proof cases
      case 1
      then show ?thesis by (metis append_Nil prefix_def)
    next
      case 2
      with Cons.IH obtain a b where "xs = a @ sub @ b" by blast
      then have "x # xs = (x # a) @ sub @ b" by simp
      then show ?thesis by blast
    qed
  next
    assume "\<exists>a b. x # xs = a @ sub @ b"
    then obtain a b where e: "x # xs = a @ sub @ b" by blast
    show "str_contains (x # xs) sub"
    proof (cases a)
      case Nil
      with e have "prefix sub (x # xs)" by (simp add: prefix_def)
      then show ?thesis by simp
    next
      case (Cons y ys)
      with e have "xs = ys @ sub @ b" by simp
      with Cons.IH show ?thesis by auto
    qed
  qed
qed

section \<open>Trimming white space\<close>

text \<open>
  \<^verbatim>\<open>strings.TrimSpace\<close> removes the runes of \<^verbatim>\<open>unicode.IsSpace\<close> at both ends;
  they are listed by their UTF-8 encodings. UTF-8 is self-synchronising, so a rune ends a
  string exactly when its encoding is a suffix of it.
\<close>

definition space_runes :: "string list" where
  "space_runes =
     [[CHR 0x09], [CHR 0x0A], [CHR 0x0B], [CHR 0x0C], [CHR 0x0D], [CHR 0x20],
      [CHR 0xC2, CHR 0x85], [CHR 0xC2, CHR 0xA0], [CHR 0xE1, CHR 0x9A, CHR 0x80],
      [CHR 0xE2, CHR 0x80, CHR 0x80], [CHR 0xE2, CHR 0x80, CHR 0x81],
      [CHR 0xE2, CHR 0x80, CHR 0x82], [CHR 0xE2, CHR 0x80, CHR 0x83],
      [CHR 0xE2, CHR 0x80, CHR 0x84], [CHR 0xE2, CHR 0x80, CHR 0x85],
      [CHR 0xE2, CHR 0x80, CHR 0x86], [CHR 0xE2, CHR 0x80, CHR 0x87],
      [CHR 0xE2, CHR 0x80, CHR 0x88], [CHR 0xE2, CHR 0x80, CHR 0x89],
      [CHR 0xE2, CHR 0x80, CHR 0x8A], [CHR 0xE2, CHR 0x80, CHR 0xA8],
      [CHR 0xE2, CHR 0x80, CHR 0xA9], [CHR 0xE2, CHR 0x80, CHR 0xAF],
      [CHR 0xE2, CHR 0x81, CHR 0x9F], [CHR 0xE3, CHR 0x80, CHR 0x80]]"

definition strip_one :: "string list \<Rightarrow> string \<Rightarrow> string option" where
  "strip_one pats s = map_option (\<lambda>p. drop (length p) s) (find (\<lambda>p. p \<noteq> [] \<and> prefix p s) pats)"

lemma strip_one_shorter: "strip_one pats s = Some r \<Longrightarrow> length r < length s"
  by (auto simp: strip_one_def find_Some_iff prefix_def)

lemma strip_one_Some:
  assumes "strip_one pats s = Some r"
  shows "\<exists>p. s = p @ r"
proof (cases "find (\<lambda>p. p \<noteq> [] \<and> prefix p s) pats")
  case None
  with assms show ?thesis by (simp add: strip_one_def)
next
  case (Some p)
  with assms have "prefix p s" and "r = drop (length p) s"
    by (auto simp: strip_one_def find_Some_iff)
  then have "s = p @ r" by (auto simp: prefix_def)
  then show ?thesis by blast
qed

lemma strip_one_None: "strip_one pats s = None \<longleftrightarrow> (\<forall>p\<in>set pats. p \<noteq> [] \<longrightarrow> \<not> prefix p s)"
  by (auto simp: strip_one_def find_None_iff)

function trim_left :: "string list \<Rightarrow> string \<Rightarrow> string" where
  "trim_left pats s = (case strip_one pats s of None \<Rightarrow> s | Some r \<Rightarrow> trim_left pats r)"
  by pat_completeness auto
termination
  by (relation "measure (\<lambda>(pats, s). length s)") (auto dest: strip_one_shorter)

declare trim_left.simps [simp del]

definition trim_space :: "string \<Rightarrow> string" where
  "trim_space s = rev (trim_left (map rev space_runes) (rev (trim_left space_runes s)))"

lemma trim_left_fixed: "strip_one pats s = None \<Longrightarrow> trim_left pats s = s"
  by (subst trim_left.simps) simp

lemma trim_left_stripped: "strip_one pats (trim_left pats s) = None"
proof (induction pats s rule: trim_left.induct)
  case (1 pats s)
  then show ?case
    by (cases "strip_one pats s") (simp_all add: trim_left.simps [of pats s])
qed

lemma trim_left_suffix: "\<exists>a. s = a @ trim_left pats s"
proof (induction pats s rule: trim_left.induct)
  case (1 pats s)
  show ?case
  proof (cases "strip_one pats s")
    case None
    then show ?thesis by (simp add: trim_left_fixed)
  next
    case (Some r)
    then obtain p where "s = p @ r" by (blast dest: strip_one_Some)
    moreover obtain a where "r = a @ trim_left pats r" using 1 Some by blast
    ultimately have "s = (p @ a) @ trim_left pats r" by simp
    moreover have "trim_left pats s = trim_left pats r"
      using Some by (subst trim_left.simps) simp
    ultimately show ?thesis by metis
  qed
qed

lemma trim_space_infix: "\<exists>a b. s = a @ trim_space s @ b"
proof -
  let ?t = "trim_left space_runes s"
  obtain a where a: "s = a @ ?t" using trim_left_suffix by blast
  obtain b where "rev ?t = b @ trim_left (map rev space_runes) (rev ?t)"
    using trim_left_suffix by blast
  then have "?t = rev (b @ trim_left (map rev space_runes) (rev ?t))"
    by (metis rev_rev_ident)
  then have "?t = trim_space s @ rev b" by (simp add: trim_space_def)
  with a show ?thesis by metis
qed

lemma trim_space_subset: "set (trim_space s) \<subseteq> set s"
proof -
  obtain a b where "s = a @ trim_space s @ b" using trim_space_infix by blast
  then have "set s = set a \<union> set (trim_space s) \<union> set b" by (metis set_append sup_assoc)
  then show ?thesis by blast
qed

definition trimmed :: "string \<Rightarrow> bool" where
  "trimmed s \<longleftrightarrow> strip_one space_runes s = None \<and> strip_one (map rev space_runes) (rev s) = None"

lemma trimmed_trim_space [simp]: "trimmed (trim_space s)"
proof -
  let ?t = "trim_left space_runes s"
  have r: "strip_one (map rev space_runes) (rev (trim_space s)) = None"
    by (simp add: trim_space_def trim_left_stripped)
  obtain b where "rev ?t = b @ trim_left (map rev space_runes) (rev ?t)"
    using trim_left_suffix by blast
  then have "?t = rev (b @ trim_left (map rev space_runes) (rev ?t))"
    by (metis rev_rev_ident)
  then have "?t = trim_space s @ rev b" by (simp add: trim_space_def)
  then have "prefix p (trim_space s) \<Longrightarrow> prefix p ?t" for p
    by (metis prefix_prefix)
  moreover have "strip_one space_runes ?t = None" by (rule trim_left_stripped)
  ultimately have "strip_one space_runes (trim_space s) = None"
    by (auto simp: strip_one_None)
  with r show ?thesis by (simp add: trimmed_def)
qed

lemma trim_space_trimmed [simp]: "trimmed s \<Longrightarrow> trim_space s = s"
  by (simp add: trimmed_def trim_space_def trim_left_fixed)

lemma trim_space_idem: "trim_space (trim_space s) = trim_space s"
  by simp

text \<open>A string whose ends are not bytes of a space rune is trimmed.\<close>

definition space_heads :: "char set" where
  "space_heads = set (map hd space_runes) \<union> set (map last space_runes)"

lemma trimmed_ends:
  assumes "s \<noteq> []" "hd s \<notin> space_heads" "last s \<notin> space_heads"
  shows "trimmed s"
proof -
  have "\<not> prefix p s" if "p \<in> set space_runes" "p \<noteq> []" for p
  proof
    assume "prefix p s"
    then have "hd p = hd s" using that(2) by (auto simp: prefix_def)
    moreover have "hd p \<in> space_heads" using that(1) by (simp add: space_heads_def)
    ultimately show False using assms(2) by simp
  qed
  moreover have "\<not> prefix (rev p) (rev s)" if "p \<in> set space_runes" "p \<noteq> []" for p
  proof
    assume "prefix (rev p) (rev s)"
    then obtain z where "rev s = rev p @ z" by (auto simp: prefix_def)
    then have "s = rev z @ p" by (metis rev_append rev_rev_ident)
    then have "last p = last s" using that(2) by simp
    moreover have "last p \<in> space_heads" using that(1) by (simp add: space_heads_def)
    ultimately show False using assms(3) by simp
  qed
  ultimately show ?thesis by (auto simp add: trimmed_def strip_one_None)
qed

section \<open>Lower case\<close>

text \<open>
  \<^verbatim>\<open>strings.ToLower\<close>, whose results the program compares with ASCII words. Besides the
  ASCII letters only two runes have an ASCII lower case: the Kelvin sign (U+212A) and the
  dotted capital I (U+0130). Every other rune stays outside ASCII and is kept as it is.
\<close>

definition lower_byte :: "char \<Rightarrow> char" where
  "lower_byte c = (if CHR ''A'' \<le> c \<and> c \<le> CHR ''Z'' then char_of (of_char c + 32 :: nat) else c)"

fun to_lower :: "string \<Rightarrow> string" where
  "to_lower [] = []"
| "to_lower (c # s) =
     (if prefix [CHR 0xE2, CHR 0x84, CHR 0xAA] (c # s) then CHR ''k'' # to_lower (drop 2 s)
      else if prefix [CHR 0xC4, CHR 0xB0] (c # s) then CHR ''i'' # to_lower (drop 1 s)
      else lower_byte c # to_lower s)"

end
