(* ===== verification/Go_Encoding.thy ===== *)
theory Go_Encoding
  imports Go_Strings
begin

text \<open>
  The two byte encodings of Go's standard library that the program uses:
  \<^verbatim>\<open>hex.EncodeToString\<close> for generated tokens and \<^verbatim>\<open>base64.StdEncoding\<close> for HTTP
  basic authentication. The program only decodes base64; the encoder is the client's side
  of the exchange and is used to state round trips.
\<close>

lemma index_byte_nth:
  assumes "distinct xs" and "i < length xs"
  shows "index_byte (xs ! i) xs = Some i"
  using assms
proof (induction xs arbitrary: i)
  case Nil
  then show ?case by simp
next
  case (Cons x xs)
  then show ?case by (cases i) (auto simp: nth_mem)
qed

lemma of_char_less [simp]: "(of_char c :: nat) < 256"
  by simp

section \<open>Hexadecimal\<close>

definition hex_digits :: string where
  "hex_digits = ''0123456789abcdef''"

fun hex_encode :: "string \<Rightarrow> string" where
  "hex_encode [] = []"
| "hex_encode (c # cs) =
     hex_digits ! ((of_char c :: nat) div 16) # hex_digits ! ((of_char c :: nat) mod 16)
       # hex_encode cs"

fun hex_decode :: "string \<Rightarrow> string option" where
  "hex_decode [] = Some []"
| "hex_decode [_] = None"
| "hex_decode (h # l # s) =
     (case (index_byte h hex_digits, index_byte l hex_digits, hex_decode s) of
        (Some x, Some y, Some r) \<Rightarrow> Some (char_of (x * 16 + y) # r)
      | _ \<Rightarrow> None)"

lemma length_hex_digits [simp]: "length hex_digits = 16"
  by (simp add: hex_digits_def)

lemma distinct_hex_digits [simp]: "distinct hex_digits"
  by (simp add: hex_digits_def)

lemma length_hex_encode [simp]: "length (hex_encode s) = 2 * length s"
  by (induction s) auto

lemma hex_encode_digits: "set (hex_encode s) \<subseteq> set hex_digits"
proof (induction s)
  case Nil
  then show ?case by simp
next
  case (Cons c s)
  have "(of_char c :: nat) div 16 < length hex_digits"
    using of_char_less [of c] by (simp add: less_mult_imp_div_less del: of_char_less)
  with Cons.IH show ?case by (auto intro!: nth_mem)
qed

lemma hex_decode_encode [simp]: "hex_decode (hex_encode s) = Some s"
proof (induction s)
  case Nil
  then show ?case by simp
next
  case (Cons c s)
  have "(of_char c :: nat) div 16 < 16"
    using of_char_less [of c] by (simp add: less_mult_imp_div_less del: of_char_less)
  then have "index_byte (hex_digits ! ((of_char c :: nat) div 16)) hex_digits
      = Some ((of_char c :: nat) div 16)"
    and "index_byte (hex_digits ! ((of_char c :: nat) mod 16)) hex_digits
      = Some ((of_char c :: nat) mod 16)"
    by (simp_all add: index_byte_nth)
  with Cons.IH show ?case by simp
qed

lemma hex_encode_inj: "hex_encode s = hex_encode t \<Longrightarrow> s = t"
  by (metis hex_decode_encode option.inject)

section \<open>Base64 (standard alphabet, padded)\<close>

definition b64_alphabet :: string where
  "b64_alphabet = ''ABCDEFGHIJKLMNOPQRSTUVWXYZabcdefghijklmnopqrstuvwxyz0123456789+/''"

abbreviation b64_pad :: char where "b64_pad \<equiv> CHR ''=''"

definition b64_val :: "char \<Rightarrow> nat option" where
  "b64_val c = index_byte c b64_alphabet"

fun b64_quads :: "string \<Rightarrow> string option" where
  "b64_quads [] = Some []"
| "b64_quads (a # b # c # d # s) =
     (case (b64_val a, b64_val b) of
        (Some v1, Some v2) \<Rightarrow>
          (if c = b64_pad then
             (if d = b64_pad \<and> s = [] then Some [char_of (v1 * 4 + v2 div 16)] else None)
           else (case b64_val c of
               None \<Rightarrow> None
             | Some v3 \<Rightarrow>
                 (if d = b64_pad then
                    (if s = [] then
                       Some [char_of (v1 * 4 + v2 div 16), char_of ((v2 mod 16) * 16 + v3 div 4)]
                     else None)
                  else (case (b64_val d, b64_quads s) of
                      (Some v4, Some r) \<Rightarrow>
                        Some (char_of (v1 * 4 + v2 div 16)
                          # char_of ((v2 mod 16) * 16 + v3 div 4)
                          # char_of ((v3 mod 4) * 64 + v4) # r)
                    | _ \<Rightarrow> None))))
      | _ \<Rightarrow> None)"
| "b64_quads _ = None"

text \<open>Line breaks are skipped wherever they stand.\<close>

definition b64_decode :: "string \<Rightarrow> string option" where
  "b64_decode s = b64_quads (filter (\<lambda>c. c \<noteq> CHR 0x0A \<and> c \<noteq> CHR 0x0D) s)"

definition b64_digit :: "nat \<Rightarrow> char" where
  "b64_digit n = b64_alphabet ! n"

fun b64_encode :: "string \<Rightarrow> string" where
  "b64_encode [] = []"
| "b64_encode [a] =
     [b64_digit (of_char a div 4), b64_digit ((of_char a mod 4) * 16), b64_pad, b64_pad]"
| "b64_encode [a, b] =
     [b64_digit (of_char a div 4), b64_digit ((of_char a mod 4) * 16 + of_char b div 16),
      b64_digit ((of_char b mod 16) * 4), b64_pad]"
| "b64_encode (a # b # c # s) =
     b64_digit (of_char a div 4) # b64_digit ((of_char a mod 4) * 16 + of_char b div 16)
       # b64_digit ((of_char b mod 16) * 4 + of_char c div 64) # b64_digit (of_char c mod 64)
       # b64_encode s"

lemma length_b64_alphabet [simp]: "length b64_alphabet = 64"
  by (simp add: b64_alphabet_def)

lemma distinct_b64_alphabet: "distinct b64_alphabet"
  by (simp add: b64_alphabet_def)

lemma b64_val_digit [simp]: "n < 64 \<Longrightarrow> b64_val (b64_digit n) = Some n"
  by (simp add: b64_val_def b64_digit_def index_byte_nth distinct_b64_alphabet)

lemma b64_digit_plain [simp]:
  assumes "n < 64"
  shows "b64_digit n \<noteq> b64_pad \<and> b64_digit n \<noteq> CHR 0x0A \<and> b64_digit n \<noteq> CHR 0x0D
    \<and> b64_digit n \<noteq> CHR 0x20 \<and> b64_digit n \<noteq> CHR 0x09"
proof -
  have "b64_digit n \<in> set b64_alphabet"
    using assms by (simp add: b64_digit_def)
  moreover have "b64_pad \<notin> set b64_alphabet" "CHR 0x0A \<notin> set b64_alphabet"
    "CHR 0x0D \<notin> set b64_alphabet" "CHR 0x20 \<notin> set b64_alphabet" "CHR 0x09 \<notin> set b64_alphabet"
    by (simp_all add: b64_alphabet_def)
  ultimately show ?thesis by metis
qed

lemma b64_sextets:
  fixes a b c :: char
  shows "(of_char a :: nat) div 4 < 64"
  "((of_char a :: nat) mod 4) * 16 < 64"
  "((of_char a :: nat) mod 4) * 16 + (of_char b :: nat) div 16 < 64"
  "((of_char b :: nat) mod 16) * 4 < 64"
  "((of_char b :: nat) mod 16) * 4 + (of_char c :: nat) div 64 < 64"
  "(of_char c :: nat) mod 64 < 64"
  using of_char_less [of a] of_char_less [of b] of_char_less [of c] by (simp_all add: less_mult_imp_div_less del: of_char_less)

lemma b64_encode_chars:
  "set (b64_encode s) \<subseteq> set b64_alphabet \<union> {b64_pad}"
proof (induction s rule: b64_encode.induct)
  case (2 a)
  then show ?case using b64_sextets by (auto simp: b64_digit_def intro!: nth_mem)
next
  case (3 a b)
  then show ?case using b64_sextets by (auto simp: b64_digit_def intro!: nth_mem)
next
  case (4 a b c s)
  then show ?case using b64_sextets by (auto simp: b64_digit_def intro!: nth_mem)
qed simp

lemma b64_arith:
  fixes a b c :: nat
  assumes "a < 256" "b < 256" "c < 256"
  shows "a div 4 * 4 + (a mod 4 * 16) div 16 = a"
    and "a div 4 * 4 + (a mod 4 * 16 + b div 16) div 16 = a"
    and "((a mod 4 * 16 + b div 16) mod 16) * 16 + (b mod 16 * 4) div 4 = b"
    and "((a mod 4 * 16 + b div 16) mod 16) * 16 + (b mod 16 * 4 + c div 64) div 4 = b"
    and "((b mod 16 * 4 + c div 64) mod 4) * 64 + c mod 64 = c"
proof -
  have d: "b div 16 < 16" "c div 64 < 4" using assms by (simp_all add: less_mult_imp_div_less)
  show "a div 4 * 4 + (a mod 4 * 16) div 16 = a" by simp
  have x: "(a mod 4 * 16 + b div 16) div 16 = a mod 4"
    using d(1) by (simp add: div_plus_div_distrib_dvd_left)
  then show "a div 4 * 4 + (a mod 4 * 16 + b div 16) div 16 = a" by simp
  have y: "(a mod 4 * 16 + b div 16) mod 16 = b div 16"
    using d(1) by (simp add: mod_mult_self3)
  then show "((a mod 4 * 16 + b div 16) mod 16) * 16 + (b mod 16 * 4) div 4 = b" by simp
  have z: "(b mod 16 * 4 + c div 64) div 4 = b mod 16" "(b mod 16 * 4 + c div 64) mod 4 = c div 64"
    using d(2) by simp_all
  show "((a mod 4 * 16 + b div 16) mod 16) * 16 + (b mod 16 * 4 + c div 64) div 4 = b"
    by (simp only: y z div_mult_mod_eq)
  show "((b mod 16 * 4 + c div 64) mod 4) * 64 + c mod 64 = c"
    by (simp only: z div_mult_mod_eq)
qed

lemma b64_quads_encode: "b64_quads (b64_encode s) = Some s"
proof (induction s rule: b64_encode.induct)
  case 1
  then show ?case by simp
next
  case (2 a)
  then show ?case using b64_sextets b64_arith(1) [of "of_char a" 0 0]
    by simp
next
  case (3 a b)
  then show ?case
    using b64_sextets b64_arith(2,3) [of "of_char a" "of_char b" 0] by simp
next
  case (4 a b c s)
  then show ?case
    using b64_sextets b64_arith(2,4,5) [of "of_char a" "of_char b" "of_char c"]
    by simp
qed

lemma b64_decode_encode [simp]: "b64_decode (b64_encode s) = Some s"
proof -
  have "\<forall>c\<in>set (b64_encode s). c \<noteq> CHR 0x0A \<and> c \<noteq> CHR 0x0D"
  proof
    fix c
    assume "c \<in> set (b64_encode s)"
    then have "c \<in> set b64_alphabet \<or> c = b64_pad" using b64_encode_chars by blast
    then show "c \<noteq> CHR 0x0A \<and> c \<noteq> CHR 0x0D"
      by (auto simp: b64_alphabet_def)
  qed
  then have "filter (\<lambda>c. c \<noteq> CHR 0x0A \<and> c \<noteq> CHR 0x0D) (b64_encode s) = b64_encode s"
    by (simp add: filter_id_conv)
  then show ?thesis by (simp add: b64_decode_def b64_quads_encode)
qed

end
