(* ===== verification/Token_Gen.thy ===== *)
theory Token_Gen
  imports Go_Encoding
begin

text \<open>
  Random tokens (\<^verbatim>\<open>internal/token/token.go\<close>). The entropy source \<^verbatim>\<open>crypto/rand\<close> is
  an argument: \<open>None\<close> when the read fails, \<open>Some f\<close> when it fills the buffer, byte \<open>i\<close>
  being \<open>f i\<close>.
\<close>

type_synonym entropy = "(nat \<Rightarrow> char) option"

datatype token_err = BadLength int | RandFailed

definition GenerateBytes :: "entropy \<Rightarrow> int \<Rightarrow> token_err + string" where
  "GenerateBytes rnd n =
     (if n \<le> 0 then Inl (BadLength n)
      else (case rnd of
          None \<Rightarrow> Inl RandFailed
        | Some f \<Rightarrow> Inr (map f [0..<nat n])))"

definition Generate :: "entropy \<Rightarrow> token_err + string" where
  "Generate rnd =
     (case GenerateBytes rnd 32 of
        Inl e \<Rightarrow> Inl e
      | Inr raw \<Rightarrow> Inr (hex_encode raw))"

lemma GenerateBytes_length: "GenerateBytes rnd n = Inr b \<Longrightarrow> 0 < n \<and> length b = nat n"
  by (auto simp: GenerateBytes_def split: if_splits option.splits)

lemma Generate_Inr:
  "Generate rnd = Inr t \<longleftrightarrow> (\<exists>f. rnd = Some f \<and> t = hex_encode (map f [0..<32]))"
  by (auto simp: Generate_def GenerateBytes_def split: option.splits sum.splits)

lemma Generate_nonempty: "Generate rnd = Inr t \<Longrightarrow> t \<noteq> []"
proof -
  assume "Generate rnd = Inr t"
  then obtain f where t: "t = hex_encode (map f [0..<32])" by (auto simp: Generate_Inr)
  have "length t = 64" by (simp add: t)
  then show "t \<noteq> []" by auto
qed

section \<open>Properties\<close>

text \<open>A registration token is 64 lower-case hexadecimal characters and loses none of the
  32 random bytes it encodes: decoding it gives back exactly the bytes drawn, so two draws give
  the same token only when they agree on all 32 bytes (search space \<open>2 ^ 256\<close>).\<close>

theorem Generate_lossless:
  assumes "Generate rnd = Inr t"
  shows "length t = 64 \<and> set t \<subseteq> set ''0123456789abcdef'' \<and>
    (\<exists>f. rnd = Some f \<and> hex_decode t = Some (map f [0..<32]) \<and>
      (\<forall>g. Generate (Some g) = Inr t \<longrightarrow> (\<forall>i<32. g i = f i)))"
proof -
  from assms obtain f where f: "rnd = Some f" and t: "t = hex_encode (map f [0..<32])"
    by (auto simp: Generate_Inr)
  have "g i = f i" if "Generate (Some g) = Inr t" "i < 32" for g i
  proof -
    from that(1) have "hex_encode (map g [0..<32]) = hex_encode (map f [0..<32])"
      by (simp add: Generate_Inr t)
    then have "map g [0..<32] = map f [0..<32]" by (rule hex_encode_inj)
    with that(2) show ?thesis by (simp add: map_eq_conv)
  qed
  moreover have "length t = 64" by (simp add: t)
  moreover have "hex_decode t = Some (map f [0..<32])" unfolding t by (rule hex_decode_encode)
  moreover have "set t \<subseteq> set ''0123456789abcdef''"
    unfolding t using hex_encode_digits unfolding hex_digits_def .
  ultimately show ?thesis using f by blast
qed

theorem Generate_lossless_witness:
  "\<exists>t. Generate (Some (\<lambda>i. char_of i)) = Inr t \<and> length t = 64"
proof -
  have h: "Generate (Some (\<lambda>i. char_of i)) = Inr (hex_encode (map (\<lambda>i. char_of i) [0..<32]))"
    unfolding Generate_Inr by blast
  show ?thesis using h Generate_lossless [OF h] by blast
qed

end
