(* ===== verification/Slot_Pool.thy ===== *)
theory Slot_Pool
  imports Go_Base
begin

text \<open>
  The daemon-wide backpressure pool (\<^verbatim>\<open>internal/slots/pool.go\<close>): a buffered channel of
  fixed capacity used as a counting semaphore. Only the number of buffered elements matters,
  so the channel is its capacity and that number. A \<^verbatim>\<open>select\<close> whose cases are both ready
  picks one at random: the argument \<open>prefer_ctx\<close> of \<open>Acquire\<close> is that choice.
\<close>

record pool =
  pool_cap :: nat
  pool_sem :: nat

text \<open>\<^verbatim>\<open>make(chan struct{}, n)\<close> panics for a negative size.\<close>

definition New_pool :: "int \<Rightarrow> pool option" where
  "New_pool capacity =
     (if capacity < 0 then None else Some \<lparr>pool_cap = nat capacity, pool_sem = 0\<rparr>)"

datatype acquire_result = AcquireOk | AcquireCtxErr | AcquireBlocks

definition Acquire :: "bool \<Rightarrow> bool \<Rightarrow> pool \<Rightarrow> pool \<times> acquire_result" where
  "Acquire ctx_done prefer_ctx p =
     (if pool_sem p < pool_cap p \<and> \<not> (ctx_done \<and> prefer_ctx)
      then (p\<lparr>pool_sem := Suc (pool_sem p)\<rparr>, AcquireOk)
      else if ctx_done then (p, AcquireCtxErr)
      else (p, AcquireBlocks))"

definition Release :: "pool \<Rightarrow> pool" where
  "Release p = (if 0 < pool_sem p then p\<lparr>pool_sem := pool_sem p - 1\<rparr> else p)"

text \<open>The send alone, when no cancellation interferes.\<close>

definition try_acquire :: "pool \<Rightarrow> pool option" where
  "try_acquire p = (case Acquire False False p of (q, AcquireOk) \<Rightarrow> Some q | _ \<Rightarrow> None)"

section \<open>The contract: a counting semaphore\<close>

locale semaphore =
  fixes cap :: "'s \<Rightarrow> nat" and held :: "'s \<Rightarrow> nat"
    and acq :: "'s \<Rightarrow> 's option" and rel :: "'s \<Rightarrow> 's"
  assumes acq_Some: "acq s = Some t \<Longrightarrow> held s < cap s \<and> held t = Suc (held s) \<and> cap t = cap s"
    and acq_None: "acq s = None \<Longrightarrow> cap s \<le> held s"
    and rel_held: "held (rel s) = held s - 1"
    and rel_cap: "cap (rel s) = cap s"
begin

lemma acq_bounded: "held s \<le> cap s \<Longrightarrow> acq s = Some t \<Longrightarrow> held t \<le> cap t"
  using acq_Some by fastforce

lemma rel_bounded: "held s \<le> cap s \<Longrightarrow> held (rel s) \<le> cap (rel s)"
  by (simp add: rel_held rel_cap)

lemma acq_rel: "acq s = Some t \<Longrightarrow> held (rel t) = held s \<and> cap (rel t) = cap s"
  using acq_Some [of s t] by (simp add: rel_held rel_cap)

text \<open>A release on a pool that holds a slot lets one more acquire through.\<close>

lemma rel_unblocks: "0 < held s \<Longrightarrow> held s \<le> cap s \<Longrightarrow> acq (rel s) \<noteq> None"
proof
  assume "0 < held s" "held s \<le> cap s" "acq (rel s) = None"
  then show False using acq_None [of "rel s"] by (simp add: rel_held rel_cap)
qed

end

lemma try_acquire_Some:
  "try_acquire p = Some q \<longleftrightarrow> pool_sem p < pool_cap p \<and> q = p\<lparr>pool_sem := Suc (pool_sem p)\<rparr>"
  by (auto simp: try_acquire_def Acquire_def split: if_splits)

interpretation slot_pool: semaphore pool_cap pool_sem try_acquire Release
proof unfold_locales
  show "pool_cap s \<le> pool_sem s" if "try_acquire s = None" for s
    using that by (auto simp: try_acquire_def Acquire_def split: if_splits)
qed (auto simp: try_acquire_Some Release_def)

section \<open>Runs of the pool\<close>

text \<open>An acquire attempt carries the state of its context and the choice of the select.\<close>

datatype pool_op = OpAcquire bool bool | OpRelease

fun pool_step :: "pool_op \<Rightarrow> pool \<Rightarrow> pool" where
  "pool_step (OpAcquire d c) p = fst (Acquire d c p)"
| "pool_step OpRelease p = Release p"

fun pool_run :: "pool_op list \<Rightarrow> pool \<Rightarrow> pool" where
  "pool_run [] p = p"
| "pool_run (x # xs) p = pool_run xs (pool_step x p)"

text \<open>Slots granted by a run, and slots given back by releases that found one.\<close>

fun granted :: "pool_op list \<Rightarrow> pool \<Rightarrow> nat" where
  "granted [] p = 0"
| "granted (OpAcquire d c # xs) p =
     (if snd (Acquire d c p) = AcquireOk then 1 else 0) + granted xs (fst (Acquire d c p))"
| "granted (OpRelease # xs) p = granted xs (Release p)"

fun returned :: "pool_op list \<Rightarrow> pool \<Rightarrow> nat" where
  "returned [] p = 0"
| "returned (OpAcquire d c # xs) p = returned xs (fst (Acquire d c p))"
| "returned (OpRelease # xs) p = (if 0 < pool_sem p then 1 else 0) + returned xs (Release p)"

lemma Acquire_cap [simp]: "pool_cap (fst (Acquire d c p)) = pool_cap p"
  by (simp add: Acquire_def)

lemma Release_cap [simp]: "pool_cap (Release p) = pool_cap p"
  by (simp add: Release_def)

lemma Acquire_bounded: "pool_sem p \<le> pool_cap p \<Longrightarrow> pool_sem (fst (Acquire d c p)) \<le> pool_cap p"
  by (simp add: Acquire_def)

lemma Release_bounded: "pool_sem p \<le> pool_cap p \<Longrightarrow> pool_sem (Release p) \<le> pool_cap p"
  using slot_pool.rel_bounded [of p] by simp

lemma pool_run_bounded:
  "pool_sem p \<le> pool_cap p \<Longrightarrow>
     pool_sem (pool_run xs p) \<le> pool_cap p \<and> pool_cap (pool_run xs p) = pool_cap p"
proof (induction xs arbitrary: p)
  case Nil
  then show ?case by simp
next
  case (Cons x xs)
  have "pool_sem (pool_step x p) \<le> pool_cap (pool_step x p)"
    using Cons.prems by (cases x) (simp_all add: Acquire_bounded Release_bounded)
  from Cons.IH [OF this] show ?case by (cases x) simp_all
qed

lemma pool_run_balance:
  "pool_sem (pool_run xs p) + returned xs p = pool_sem p + granted xs p"
proof (induction xs arbitrary: p)
  case Nil
  then show ?case by simp
next
  case (Cons x xs)
  show ?case
  proof (cases x)
    case (OpAcquire d c)
    then show ?thesis using Cons.IH [of "fst (Acquire d c p)"] by (simp add: Acquire_def)
  next
    case OpRelease
    then show ?thesis using Cons.IH [of "Release p"]
      by (cases "0 < pool_sem p") (simp_all add: Release_def)
  qed
qed

section \<open>Properties\<close>

text \<open>Whatever sequence of acquires (in any context state and with any choice of the
  select) and releases runs on a fresh pool, at most \<open>capacity\<close> slots are held at any time, the
  slots held are exactly those granted and not yet given back, and an acquire blocks exactly
  when the pool is full and its context is alive.\<close>

theorem pool_budget:
  assumes "New_pool capacity = Some p"
  shows "pool_sem (pool_run xs p) \<le> nat capacity
    \<and> granted xs p = pool_sem (pool_run xs p) + returned xs p
    \<and> (snd (Acquire ctx_done prefer_ctx (pool_run xs p)) = AcquireBlocks
        \<longleftrightarrow> pool_sem (pool_run xs p) = nat capacity \<and> \<not> ctx_done)"
proof -
  have p: "pool_cap p = nat capacity" "pool_sem p = 0"
    using assms by (auto simp: New_pool_def split: if_splits)
  have b: "pool_sem (pool_run xs p) \<le> nat capacity" "pool_cap (pool_run xs p) = nat capacity"
    using pool_run_bounded [of p xs] p by simp_all
  have "granted xs p = pool_sem (pool_run xs p) + returned xs p"
    using pool_run_balance [of xs p] p by simp
  with b show ?thesis by (auto simp: Acquire_def)
qed

theorem pool_budget_witness:
  "New_pool 2 = Some \<lparr>pool_cap = 2, pool_sem = 0\<rparr> \<and>
   pool_sem (pool_run [OpAcquire False False, OpAcquire False False, OpAcquire False False]
     \<lparr>pool_cap = 2, pool_sem = 0\<rparr>) \<le> 2"
proof -
  have h: "New_pool 2 = Some \<lparr>pool_cap = 2, pool_sem = 0\<rparr>" by (simp add: New_pool_def)
  show ?thesis
    using h pool_budget [OF h, of "[OpAcquire False False, OpAcquire False False, OpAcquire False False]"]
    by simp
qed

end
