(* ===== verification/Go_Paths.thy ===== *)
theory Go_Paths
  imports Go_Strings
begin

text \<open>
  \<^verbatim>\<open>path/filepath\<close> on Unix (\<open>Clean\<close>, \<open>Dir\<close>, \<open>Join\<close>), \<^verbatim>\<open>net.SplitHostPort\<close> and
  \<^verbatim>\<open>strconv.Itoa\<close>, as far as the configuration loader uses them.
\<close>

section \<open>File paths\<close>

text \<open>
  \<^verbatim>\<open>filepath.Clean\<close> works on the slash-separated elements: empty elements and \<open>.\<close> are
  dropped, \<open>..\<close> removes the element before it unless there is none to remove. The stack is
  kept in reverse.
\<close>

fun clean_step :: "bool \<Rightarrow> string list \<Rightarrow> string \<Rightarrow> string list" where
  "clean_step rooted st e =
     (if e = [] \<or> e = ''.'' then st
      else if e = ''..'' then
        (case st of
           t # ts \<Rightarrow> if t = ''..'' then ''..'' # st else ts
         | [] \<Rightarrow> if rooted then [] else [''..''])
      else e # st)"

definition filepath_Clean :: "string \<Rightarrow> string" where
  "filepath_Clean p =
     (if p = [] then ''.''
      else let rooted = (hd p = CHR ''/'');
               st = foldl (clean_step rooted) [] (split_on (CHR ''/'') p);
               body = join ''/'' (rev st)
           in if rooted then CHR ''/'' # body
              else if body = [] then ''.'' else body)"

definition filepath_Dir :: "string \<Rightarrow> string" where
  "filepath_Dir p =
     filepath_Clean (case last_index_byte (CHR ''/'') p of None \<Rightarrow> [] | Some i \<Rightarrow> take (Suc i) p)"

definition filepath_Join :: "string \<Rightarrow> string \<Rightarrow> string" where
  "filepath_Join a b =
     (if a \<noteq> [] then filepath_Clean (a @ ''/'' @ b)
      else if b \<noteq> [] then filepath_Clean b
      else [])"

lemma filepath_Clean_nonempty [simp]: "filepath_Clean p \<noteq> []"
  by (simp add: filepath_Clean_def Let_def)

lemma filepath_Join_nonempty [simp]: "b \<noteq> [] \<Longrightarrow> filepath_Join a b \<noteq> []"
  by (simp add: filepath_Join_def)

section \<open>Host and port\<close>

definition SplitHostPort :: "string \<Rightarrow> (string \<times> string) option" where
  "SplitHostPort hp =
     (case last_index_byte (CHR '':'') hp of
        None \<Rightarrow> None
      | Some i \<Rightarrow>
          (if hd hp = CHR ''['' then
             (case index_byte (CHR '']'') hp of
                None \<Rightarrow> None
              | Some e \<Rightarrow>
                  if Suc e = i \<and> CHR ''['' \<notin> set (drop 1 hp) \<and> CHR '']'' \<notin> set (drop (Suc e) hp)
                  then Some (take (e - 1) (drop 1 hp), drop (Suc i) hp)
                  else None)
           else if CHR '':'' \<in> set (take i hp) \<or> CHR ''['' \<in> set hp \<or> CHR '']'' \<in> set hp then None
           else Some (take i hp, drop (Suc i) hp)))"

section \<open>Decimal numbers\<close>

fun itoa :: "nat \<Rightarrow> string" where
  "itoa n = (if n < 10 then [char_of (48 + n)] else itoa (n div 10) @ [char_of (48 + n mod 10)])"

declare itoa.simps [simp del]

end
