(* ===== verification/Config.thy ===== *)
theory Config
  imports Go_Paths
begin

text \<open>
  Configuration (\<^verbatim>\<open>internal/config/config.go\<close>): the structures, the loading chain
  (file, TOML, defaults, validation) and what a loaded configuration guarantees to the rest of
  the daemon. The TOML decoder is third-party code and an argument of \<open>Load\<close>; it calls back
  \<open>Labels.UnmarshalText\<close>. So are the file read, the host name and \<^verbatim>\<open>net/url.Parse\<close>, of
  which only the host is used here.
\<close>

section \<open>Structures\<close>

record Instance =
  i_Name :: string
  i_ForgejoURL :: string
  i_ForgejoRunnerToken :: string
  i_ForgejoRunnerName :: string
  i_ForgejoRunnerLabels :: "string list"
  i_PollInterval :: duration
  i_RegTokenTTL :: duration
  i_GAStartupTimeout :: duration
  i_HeartbeatInterval :: duration
  i_TLSInsecureSkipVerify :: bool

record Global =
  g_LogLevel :: string
  g_LogFormat :: string
  g_HealthAddr :: string
  g_ListenAddr :: string
  g_PublicURL :: string
  g_StateFile :: string
  g_MaxParallelTasks :: int
  g_GitHubToken :: string
  g_GitHubRepo :: string
  g_GitHubWorkflowID :: string
  g_GitHubRef :: string
  g_GitHubAPIURL :: string

record Config =
  c_Global :: Global
  c_Instances :: "Instance list"

definition zero_Instance :: Instance where
  "zero_Instance = \<lparr>i_Name = [], i_ForgejoURL = [], i_ForgejoRunnerToken = [],
     i_ForgejoRunnerName = [], i_ForgejoRunnerLabels = [], i_PollInterval = 0, i_RegTokenTTL = 0,
     i_GAStartupTimeout = 0, i_HeartbeatInterval = 0, i_TLSInsecureSkipVerify = False\<rparr>"

section \<open>Labels\<close>

definition parseLabels :: "string \<Rightarrow> string list" where
  "parseLabels s = filter (\<lambda>p. p \<noteq> []) (map trim_space (split_on (CHR '','') s))"

definition UnmarshalText :: "string \<Rightarrow> string list" where
  "UnmarshalText text = parseLabels text"

section \<open>Defaults\<close>

text \<open>The environment: \<^verbatim>\<open>os.Hostname\<close> and the host part of \<^verbatim>\<open>url.Parse\<close>
  (\<open>None\<close> on a parse error).\<close>

record env =
  hostname :: "string option"
  url_host :: "string \<Rightarrow> string option"

definition defaultPublicURL :: "env \<Rightarrow> string \<Rightarrow> string" where
  "defaultPublicURL e listenAddr =
     (let host = (case hostname e of None \<Rightarrow> ''localhost'' | Some h \<Rightarrow> h);
          port = (case SplitHostPort listenAddr of
                    Some (_, p) \<Rightarrow> if p \<noteq> [] then p else ''8443''
                  | None \<Rightarrow> ''8443'')
      in ''https://'' @ host @ '':'' @ port)"

definition defaultInstanceName :: "env \<Rightarrow> string \<Rightarrow> string" where
  "defaultInstanceName e forgejoURL =
     (case url_host e forgejoURL of None \<Rightarrow> [] | Some h \<Rightarrow> if h = [] then [] else h)"

definition default_str :: "string \<Rightarrow> string \<Rightarrow> string" where
  "default_str d s = (if s = [] then d else s)"

definition default_int :: "int \<Rightarrow> int \<Rightarrow> int" where
  "default_int d n = (if n = 0 then d else n)"

definition defaults_Global :: "env \<Rightarrow> string \<Rightarrow> Global \<Rightarrow> Global" where
  "defaults_Global e path g =
     (let listen = default_str '':8443'' (g_ListenAddr g) in
      g\<lparr>g_LogLevel := default_str ''info'' (g_LogLevel g),
        g_LogFormat := default_str ''json'' (g_LogFormat g),
        g_ListenAddr := listen,
        g_PublicURL := default_str (defaultPublicURL e listen) (g_PublicURL g),
        g_StateFile := default_str (filepath_Join (filepath_Dir path) ''forgery-state.json'')
          (g_StateFile g),
        g_MaxParallelTasks := default_int 5 (g_MaxParallelTasks g),
        g_GitHubRef := default_str ''main'' (g_GitHubRef g),
        g_GitHubAPIURL := default_str ''https://api.github.com'' (g_GitHubAPIURL g)\<rparr>)"

definition defaults_Instance :: "env \<Rightarrow> Instance \<Rightarrow> Instance" where
  "defaults_Instance e i =
     i\<lparr>i_Name := default_str (defaultInstanceName e (i_ForgejoURL i)) (i_Name i),
       i_ForgejoRunnerName := default_str ''forgery'' (i_ForgejoRunnerName i),
       i_PollInterval := default_int (3 * second) (i_PollInterval i),
       i_RegTokenTTL := default_int (15 * minute) (i_RegTokenTTL i),
       i_GAStartupTimeout := default_int (15 * minute) (i_GAStartupTimeout i),
       i_HeartbeatInterval := default_int (30 * second) (i_HeartbeatInterval i)\<rparr>"

definition applyDefaults :: "env \<Rightarrow> string \<Rightarrow> Config \<Rightarrow> Config" where
  "applyDefaults e path cfg =
     cfg\<lparr>c_Global := defaults_Global e path (c_Global cfg),
         c_Instances := map (defaults_Instance e) (c_Instances cfg)\<rparr>"

section \<open>Validation\<close>

text \<open>The entries of \<^verbatim>\<open>errValidation\<close> as values; \<open>err_message\<close> renders them as the
  source does (\<open>quote\<close> is \<^verbatim>\<open>strconv.Quote\<close>).\<close>

datatype inst_key = ForgejoURL | RunnerToken | RunnerLabels

datatype missing_key =
    GitHubToken | GitHubRepo | GitHubWorkflowID | Instances
  | InstKey nat inst_key

datatype dur_key = PollInterval | RegTokenTTL | GAStartupTimeout | HeartbeatInterval

datatype invalid_key =
    MaxParallelTasks
  | DupName nat string nat
  | NegDuration nat dur_key

definition missing_of :: "nat \<Rightarrow> Instance \<Rightarrow> missing_key list" where
  "missing_of n i =
     (if i_ForgejoURL i = [] then [InstKey n ForgejoURL] else [])
     @ (if i_ForgejoRunnerToken i = [] then [InstKey n RunnerToken] else [])
     @ (if i_ForgejoRunnerLabels i = [] then [InstKey n RunnerLabels] else [])"

definition negative_of :: "nat \<Rightarrow> Instance \<Rightarrow> invalid_key list" where
  "negative_of n i =
     (if i_PollInterval i < 0 then [NegDuration n PollInterval] else [])
     @ (if i_RegTokenTTL i < 0 then [NegDuration n RegTokenTTL] else [])
     @ (if i_GAStartupTimeout i < 0 then [NegDuration n GAStartupTimeout] else [])
     @ (if i_HeartbeatInterval i < 0 then [NegDuration n HeartbeatInterval] else [])"

text \<open>The loop over the instances, with \<^verbatim>\<open>seenNames\<close> as it grows.\<close>

fun check_instances ::
    "nat \<Rightarrow> (string, nat) gomap \<Rightarrow> Instance list \<Rightarrow> missing_key list \<times> invalid_key list" where
  "check_instances n seen [] = ([], [])"
| "check_instances n seen (i # is) =
     (let dup = (case mget seen (i_Name i) of
                   Some prev \<Rightarrow> [DupName n (i_Name i) prev] | None \<Rightarrow> []);
          (ms, vs) = check_instances (Suc n) (mput (i_Name i) n seen) is
      in (missing_of n i @ ms, dup @ negative_of n i @ vs))"

definition validate :: "Config \<Rightarrow> (missing_key list \<times> invalid_key list) option" where
  "validate cfg =
     (let g = c_Global cfg;
          m0 = (if g_GitHubToken g = [] then [GitHubToken] else [])
               @ (if g_GitHubRepo g = [] then [GitHubRepo] else [])
               @ (if g_GitHubWorkflowID g = [] then [GitHubWorkflowID] else []);
          v0 = (if g_MaxParallelTasks g < 0 then [MaxParallelTasks] else []);
          m1 = (if c_Instances cfg = [] then [Instances] else []);
          check = (if c_Instances cfg = [] then [zero_Instance] else c_Instances cfg);
          (ms, vs) = check_instances 0 [] check
      in if m0 @ m1 @ ms = [] \<and> v0 @ vs = [] then None
         else Some (m0 @ m1 @ ms, v0 @ vs))"

definition inst_prefix :: "nat \<Rightarrow> string" where
  "inst_prefix n = ''instances['' @ itoa n @ '']''"

fun missing_text :: "missing_key \<Rightarrow> string" where
  "missing_text GitHubToken = ''github_token''"
| "missing_text GitHubRepo = ''github_repo''"
| "missing_text GitHubWorkflowID = ''github_workflow_id''"
| "missing_text Instances = ''instances''"
| "missing_text (InstKey n ForgejoURL) = inst_prefix n @ ''.forgejo_url''"
| "missing_text (InstKey n RunnerToken) = inst_prefix n @ ''.forgejo_runner_token''"
| "missing_text (InstKey n RunnerLabels) = inst_prefix n @ ''.forgejo_runner_labels''"

fun invalid_text :: "(string \<Rightarrow> string) \<Rightarrow> invalid_key \<Rightarrow> string" where
  "invalid_text quote MaxParallelTasks = ''max_parallel_tasks (must be positive)''"
| "invalid_text quote (DupName n name prev) =
     inst_prefix n @ ''.name (duplicate instance name '' @ quote name @ '', already used by ''
       @ inst_prefix prev @ '')''"
| "invalid_text quote (NegDuration n PollInterval) = inst_prefix n @ ''.poll_interval (must be positive)''"
| "invalid_text quote (NegDuration n RegTokenTTL) = inst_prefix n @ ''.reg_token_ttl (must be positive)''"
| "invalid_text quote (NegDuration n GAStartupTimeout) =
     inst_prefix n @ ''.ga_startup_timeout (must be positive)''"
| "invalid_text quote (NegDuration n HeartbeatInterval) =
     inst_prefix n @ ''.heartbeat_interval (must be positive)''"

definition err_message :: "(string \<Rightarrow> string) \<Rightarrow> missing_key list \<times> invalid_key list \<Rightarrow> string" where
  "err_message quote e =
     join ''; ''
       ((if fst e \<noteq> [] then [''missing required configuration: '' @ join '', '' (map missing_text (fst e))]
         else [])
        @ (if snd e \<noteq> [] then
             [''invalid configuration values: '' @ join '', '' (map (invalid_text quote) (snd e))]
           else []))"

section \<open>Loading\<close>

datatype load_err =
    ReadErr string
  | ParseErr string
  | UnknownKeys "string list"
  | Invalid "missing_key list" "invalid_key list"

text \<open>\<open>decode\<close> is \<^verbatim>\<open>toml.Decode\<close>: given the label callback and the text, an error or
  the configuration with the keys it did not decode.\<close>

definition Load :: "(string \<Rightarrow> string + string) \<Rightarrow>
    ((string \<Rightarrow> string list) \<Rightarrow> string \<Rightarrow> string + Config \<times> string list) \<Rightarrow>
    env \<Rightarrow> string \<Rightarrow> load_err + Config" where
  "Load read_file decode e path =
     (case read_file path of
        Inl err \<Rightarrow> Inl (ReadErr err)
      | Inr data \<Rightarrow>
          (case decode UnmarshalText data of
             Inl err \<Rightarrow> Inl (ParseErr err)
           | Inr (cfg, undecoded) \<Rightarrow>
               if undecoded \<noteq> [] then Inl (UnknownKeys undecoded)
               else let cfg' = applyDefaults e path cfg in
                 (case validate cfg' of
                    Some (ms, vs) \<Rightarrow> Inl (Invalid ms vs)
                  | None \<Rightarrow> Inr cfg')))"

section \<open>Lemmas\<close>

lemmas record_defaults = defaults_Global_def defaults_Instance_def default_str_def default_int_def

definition instance_valid :: "Instance \<Rightarrow> bool" where
  "instance_valid i \<longleftrightarrow>
     i_ForgejoURL i \<noteq> [] \<and> i_ForgejoRunnerToken i \<noteq> [] \<and> i_ForgejoRunnerLabels i \<noteq> []
     \<and> 0 \<le> i_PollInterval i \<and> 0 \<le> i_RegTokenTTL i \<and> 0 \<le> i_GAStartupTimeout i
     \<and> 0 \<le> i_HeartbeatInterval i"

text \<open>What validation promises, stated without its loop.\<close>

definition config_valid :: "Config \<Rightarrow> bool" where
  "config_valid cfg \<longleftrightarrow>
     g_GitHubToken (c_Global cfg) \<noteq> [] \<and> g_GitHubRepo (c_Global cfg) \<noteq> []
     \<and> g_GitHubWorkflowID (c_Global cfg) \<noteq> [] \<and> 0 \<le> g_MaxParallelTasks (c_Global cfg)
     \<and> c_Instances cfg \<noteq> [] \<and> (\<forall>i\<in>set (c_Instances cfg). instance_valid i)
     \<and> distinct (map i_Name (c_Instances cfg))"

definition is_missing :: "inst_key \<Rightarrow> Instance \<Rightarrow> bool" where
  "is_missing key i \<longleftrightarrow> (case key of
     ForgejoURL \<Rightarrow> i_ForgejoURL i = []
   | RunnerToken \<Rightarrow> i_ForgejoRunnerToken i = []
   | RunnerLabels \<Rightarrow> i_ForgejoRunnerLabels i = [])"

definition dur_of :: "dur_key \<Rightarrow> Instance \<Rightarrow> duration" where
  "dur_of key i = (case key of
     PollInterval \<Rightarrow> i_PollInterval i
   | RegTokenTTL \<Rightarrow> i_RegTokenTTL i
   | GAStartupTimeout \<Rightarrow> i_GAStartupTimeout i
   | HeartbeatInterval \<Rightarrow> i_HeartbeatInterval i)"

lemma missing_of_set: "x \<in> set (missing_of n i) \<longleftrightarrow> (\<exists>key. x = InstKey n key \<and> is_missing key i)"
  by (auto simp: missing_of_def is_missing_def split: inst_key.splits)
     (metis inst_key.exhaust)+

lemma negative_of_set: "x \<in> set (negative_of n i) \<longleftrightarrow> (\<exists>key. x = NegDuration n key \<and> dur_of key i < 0)"
  by (auto simp: negative_of_def dur_of_def split: dur_key.splits)
     (metis dur_key.exhaust)+

lemma instance_valid_iff: "instance_valid i \<longleftrightarrow> missing_of n i = [] \<and> negative_of n i = []"
  by (auto simp: instance_valid_def missing_of_def negative_of_def)

lemma check_instances_Cons:
  "check_instances n seen (i # is) =
     (missing_of n i @ fst (check_instances (Suc n) (mput (i_Name i) n seen) is),
      (case mget seen (i_Name i) of Some prev \<Rightarrow> [DupName n (i_Name i) prev] | None \<Rightarrow> [])
        @ negative_of n i @ snd (check_instances (Suc n) (mput (i_Name i) n seen) is))"
  by (simp add: Let_def split_beta)

declare check_instances.simps(2) [simp del]

lemma check_instances_empty:
  "fst (check_instances n seen is) = [] \<and> snd (check_instances n seen is) = [] \<longleftrightarrow>
     (\<forall>i\<in>set is. instance_valid i) \<and> distinct (map i_Name is)
     \<and> (\<forall>i\<in>set is. mget seen (i_Name i) = None)"
proof (induction "is" arbitrary: n seen)
  case Nil
  then show ?case by simp
next
  case (Cons i "is")
  show ?case
    using Cons.IH [of "Suc n" "mput (i_Name i) n seen"]
    by (auto simp: check_instances_Cons instance_valid_iff [of i n] image_iff
        split: option.splits if_splits)
qed

lemma check_missing:
  "InstKey k key \<in> set (fst (check_instances n seen is)) \<longleftrightarrow>
     n \<le> k \<and> k < n + length is \<and> is_missing key (is ! (k - n))"
proof (induction "is" arbitrary: n seen)
  case Nil
  then show ?case by simp
next
  case (Cons i "is")
  have "k = n \<or> k < n \<or> Suc n \<le> k" by arith
  then show ?case
    using Cons.IH [of "Suc n" "mput (i_Name i) n seen"]
    by (auto simp: check_instances_Cons missing_of_set nth_Cons' Suc_diff_le)
qed

lemma check_negative:
  "NegDuration k key \<in> set (snd (check_instances n seen is)) \<longleftrightarrow>
     n \<le> k \<and> k < n + length is \<and> dur_of key (is ! (k - n)) < 0"
proof (induction "is" arbitrary: n seen)
  case Nil
  then show ?case by simp
next
  case (Cons i "is")
  have "k = n \<or> k < n \<or> Suc n \<le> k" by arith
  then show ?case
    using Cons.IH [of "Suc n" "mput (i_Name i) n seen"]
    by (auto simp: check_instances_Cons negative_of_set nth_Cons' split: option.splits)
qed

text \<open>\<open>prev_same xs k\<close> is the last index before \<open>k\<close> with the name at \<open>k\<close>.\<close>

definition prev_same :: "Instance list \<Rightarrow> string \<Rightarrow> nat \<Rightarrow> nat \<Rightarrow> bool" where
  "prev_same xs nm k j \<longleftrightarrow>
     j < k \<and> i_Name (xs ! j) = nm \<and> (\<forall>m. j < m \<and> m < k \<longrightarrow> i_Name (xs ! m) \<noteq> nm)"

lemma prev_same_snoc:
  "prev_same (ps @ [i]) nm (Suc (length ps)) j \<longleftrightarrow>
     (if i_Name i = nm then j = length ps else prev_same ps nm (length ps) j)" (is "?l \<longleftrightarrow> ?r")
proof (cases "j < length ps")
  case True
  have "(\<forall>m. j < m \<and> m < Suc (length ps) \<longrightarrow> i_Name ((ps @ [i]) ! m) \<noteq> nm) \<longleftrightarrow>
      i_Name i \<noteq> nm \<and> (\<forall>m. j < m \<and> m < length ps \<longrightarrow> i_Name (ps ! m) \<noteq> nm)" (is "?a \<longleftrightarrow> ?b")
  proof
    assume a: ?a
    from a True have "i_Name ((ps @ [i]) ! length ps) \<noteq> nm" by blast
    moreover have "i_Name (ps ! m) \<noteq> nm" if "j < m" "m < length ps" for m
      using a that by (metis less_SucI nth_append_left)
    ultimately show ?b by simp
  next
    assume ?b
    then show ?a by (simp add: nth_append less_Suc_eq)
  qed
  with True show ?thesis by (simp add: prev_same_def nth_append)
next
  case False
  then have "j = length ps \<or> Suc (length ps) \<le> j" by arith
  then show ?thesis using False by (auto simp: prev_same_def)
qed

lemma prev_same_append:
  assumes "k \<le> length ps"
  shows "prev_same (ps @ xs) nm k j = prev_same ps nm k j"
proof -
  have n: "(ps @ xs) ! m = ps ! m" if "m < k" for m
    using that assms by (simp add: nth_append)
  show ?thesis unfolding prev_same_def by (simp add: n cong: conj_cong imp_cong)
qed

lemma check_dup:
  assumes "\<And>nm j. mget seen nm = Some j \<longleftrightarrow> prev_same ps nm (length ps) j"
  shows "DupName k nm j \<in> set (snd (check_instances (length ps) seen is)) \<longleftrightarrow>
     length ps \<le> k \<and> k < length (ps @ is) \<and> nm = i_Name ((ps @ is) ! k) \<and> prev_same (ps @ is) nm k j"
  using assms
proof (induction "is" arbitrary: ps seen)
  case Nil
  then show ?case by simp
next
  case (Cons i "is")
  let ?seen = "mput (i_Name i) (length ps) seen"
  have "mget ?seen nm = Some j \<longleftrightarrow> prev_same (ps @ [i]) nm (length (ps @ [i])) j" for nm j
    using Cons.prems by (auto simp: prev_same_snoc)
  from Cons.IH [OF this] have IH: "DupName k nm j \<in> set (snd (check_instances (Suc (length ps)) ?seen is)) \<longleftrightarrow>
      Suc (length ps) \<le> k \<and> k < length (ps @ i # is) \<and> nm = i_Name ((ps @ i # is) ! k)
      \<and> prev_same (ps @ i # is) nm k j" by simp
  have hd: "DupName k nm j \<in> set (case mget seen (i_Name i) of Some prev \<Rightarrow> [DupName (length ps) (i_Name i) prev] | None \<Rightarrow> [])
      \<longleftrightarrow> k = length ps \<and> nm = i_Name i \<and> prev_same ps nm (length ps) j"
    using Cons.prems [of "i_Name i" j] by (auto split: option.splits)
  have at: "prev_same (ps @ i # is) nm (length ps) j = prev_same ps nm (length ps) j"
    by (rule prev_same_append) simp
  have "DupName k nm j \<notin> set (negative_of (length ps) i)" by (auto simp: negative_of_set)
  then have "DupName k nm j \<in> set (snd (check_instances (length ps) seen (i # is))) \<longleftrightarrow>
      (k = length ps \<and> nm = i_Name i \<and> prev_same ps nm (length ps) j)
      \<or> DupName k nm j \<in> set (snd (check_instances (Suc (length ps)) ?seen is))"
    using hd by (simp add: check_instances_Cons)
  then show ?case
    using IH at by (cases "k = length ps") (auto simp: Suc_le_eq)
qed

lemma check_dup0:
  "DupName k nm j \<in> set (snd (check_instances 0 [] is)) \<longleftrightarrow>
     k < length is \<and> nm = i_Name (is ! k) \<and> prev_same is nm k j"
  using check_dup [of "[]" "[]" k nm j "is"] by (simp add: prev_same_def)

lemma check_missing_only:
  "x \<in> set (fst (check_instances n seen is)) \<Longrightarrow> \<exists>k key. x = InstKey k key"
  by (induction "is" arbitrary: n seen) (auto simp: check_instances_Cons missing_of_set)

lemma check_invalid_only: "MaxParallelTasks \<notin> set (snd (check_instances n seen is))"
  by (induction "is" arbitrary: n seen)
     (auto simp: check_instances_Cons negative_of_set split: option.splits)

lemma validate_alt:
  "validate cfg =
    (let g = c_Global cfg;
         r = check_instances 0 [] (if c_Instances cfg = [] then [zero_Instance] else c_Instances cfg);
         ms = (if g_GitHubToken g = [] then [GitHubToken] else [])
              @ (if g_GitHubRepo g = [] then [GitHubRepo] else [])
              @ (if g_GitHubWorkflowID g = [] then [GitHubWorkflowID] else [])
              @ (if c_Instances cfg = [] then [Instances] else []) @ fst r;
         vs = (if g_MaxParallelTasks g < 0 then [MaxParallelTasks] else []) @ snd r
     in if ms = [] \<and> vs = [] then None else Some (ms, vs))"
  by (simp add: validate_def Let_def split_beta)

lemma validate_None: "validate cfg = None \<longleftrightarrow> config_valid cfg"
proof (cases "c_Instances cfg = []")
  case True
  then show ?thesis by (auto simp: validate_alt Let_def config_valid_def)
next
  case False
  have "fst (check_instances 0 [] (c_Instances cfg)) = [] \<and> snd (check_instances 0 [] (c_Instances cfg)) = []
      \<longleftrightarrow> (\<forall>i\<in>set (c_Instances cfg). instance_valid i) \<and> distinct (map i_Name (c_Instances cfg))"
    by (simp add: check_instances_empty)
  with False show ?thesis by (auto simp: validate_alt Let_def config_valid_def)
qed

lemma validate_Some:
  assumes "validate cfg = Some (ms, vs)"
  shows "GitHubToken \<in> set ms \<longleftrightarrow> g_GitHubToken (c_Global cfg) = []"
    and "GitHubRepo \<in> set ms \<longleftrightarrow> g_GitHubRepo (c_Global cfg) = []"
    and "GitHubWorkflowID \<in> set ms \<longleftrightarrow> g_GitHubWorkflowID (c_Global cfg) = []"
    and "Instances \<in> set ms \<longleftrightarrow> c_Instances cfg = []"
    and "MaxParallelTasks \<in> set vs \<longleftrightarrow> g_MaxParallelTasks (c_Global cfg) < 0"
    and "c_Instances cfg \<noteq> [] \<Longrightarrow> fst (check_instances 0 [] (c_Instances cfg)) = filter (\<lambda>x. \<exists>k key. x = InstKey k key) ms"
    and "c_Instances cfg \<noteq> [] \<Longrightarrow> snd (check_instances 0 [] (c_Instances cfg)) = filter (\<lambda>x. x \<noteq> MaxParallelTasks) vs"
proof -
  let ?r = "check_instances 0 [] (if c_Instances cfg = [] then [zero_Instance] else c_Instances cfg)"
  let ?g = "c_Global cfg"
  have ms: "ms = (if g_GitHubToken ?g = [] then [GitHubToken] else [])
              @ (if g_GitHubRepo ?g = [] then [GitHubRepo] else [])
              @ (if g_GitHubWorkflowID ?g = [] then [GitHubWorkflowID] else [])
              @ (if c_Instances cfg = [] then [Instances] else []) @ fst ?r"
    and vs: "vs = (if g_MaxParallelTasks ?g < 0 then [MaxParallelTasks] else []) @ snd ?r"
    using assms by (simp_all add: validate_alt Let_def split: if_split_asm)
  have only: "\<exists>k key. x = InstKey k key" if "x \<in> set (fst ?r)" for x
    using that by (rule check_missing_only)
  show "GitHubToken \<in> set ms \<longleftrightarrow> g_GitHubToken ?g = []"
    and "GitHubRepo \<in> set ms \<longleftrightarrow> g_GitHubRepo ?g = []"
    and "GitHubWorkflowID \<in> set ms \<longleftrightarrow> g_GitHubWorkflowID ?g = []"
    and "Instances \<in> set ms \<longleftrightarrow> c_Instances cfg = []"
    using only [of GitHubToken] only [of GitHubRepo] only [of GitHubWorkflowID] only [of Instances]
    unfolding ms by (auto split: if_splits)
  show "MaxParallelTasks \<in> set vs \<longleftrightarrow> g_MaxParallelTasks ?g < 0"
    unfolding vs using check_invalid_only by auto
  have "filter (\<lambda>x. \<exists>k key. x = InstKey k key) (fst ?r) = fst ?r"
    using only by (simp add: filter_id_conv)
  then show "fst (check_instances 0 [] (c_Instances cfg)) = filter (\<lambda>x. \<exists>k key. x = InstKey k key) ms"
    if "c_Instances cfg \<noteq> []" using that unfolding ms by auto
  have "filter (\<lambda>x. x \<noteq> MaxParallelTasks) (snd ?r) = snd ?r"
    using check_invalid_only by (simp add: filter_id_conv) metis
  then show "snd (check_instances 0 [] (c_Instances cfg)) = filter (\<lambda>x. x \<noteq> MaxParallelTasks) vs"
    if "c_Instances cfg \<noteq> []" using that unfolding vs by auto
qed

lemma defaults_Instance_simps [simp]:
  "i_ForgejoURL (defaults_Instance e i) = i_ForgejoURL i"
  "i_ForgejoRunnerToken (defaults_Instance e i) = i_ForgejoRunnerToken i"
  "i_ForgejoRunnerLabels (defaults_Instance e i) = i_ForgejoRunnerLabels i"
  "i_PollInterval (defaults_Instance e i) \<noteq> 0"
  "i_RegTokenTTL (defaults_Instance e i) \<noteq> 0"
  "i_GAStartupTimeout (defaults_Instance e i) \<noteq> 0"
  "i_HeartbeatInterval (defaults_Instance e i) \<noteq> 0"
  by (simp_all add: record_defaults)

lemma Load_Inr:
  "Load rf decode e path = Inr cfg \<longleftrightarrow>
     (\<exists>data raw. rf path = Inr data \<and> decode UnmarshalText data = Inr (raw, [])
        \<and> cfg = applyDefaults e path raw \<and> config_valid cfg)"
proof -
  have "validate x = None \<longleftrightarrow> config_valid x" for x by (rule validate_None)
  then show ?thesis
    by (auto simp: Load_def Let_def split: sum.splits prod.splits option.splits if_splits)
       (metis option.distinct(1))+
qed

lemma Load_budget:
  assumes "Load rf decode e path = Inr cfg"
  shows "0 < g_MaxParallelTasks (c_Global cfg)" "distinct (map i_Name (c_Instances cfg))"
proof -
  obtain raw where raw: "cfg = applyDefaults e path raw" and ok: "config_valid cfg"
    using assms by (auto simp: Load_Inr)
  show "0 < g_MaxParallelTasks (c_Global cfg)"
    using ok unfolding raw applyDefaults_def config_valid_def by (auto simp: record_defaults Let_def)
  show "distinct (map i_Name (c_Instances cfg))" using ok by (simp add: config_valid_def)
qed

lemma parseLabels_clean: "p \<in> set (parseLabels s) \<Longrightarrow> p \<noteq> [] \<and> trimmed p \<and> CHR '','' \<notin> set p"
  using trim_space_subset split_on_no_sep by (fastforce simp: parseLabels_def)

lemma parseLabels_join:
  assumes "\<forall>p\<in>set ls. p \<noteq> [] \<and> trimmed p \<and> CHR '','' \<notin> set p"
  shows "parseLabels (join '','' ls) = ls"
proof (cases "ls = []")
  case True
  then show ?thesis by (simp add: parseLabels_def) (simp add: trim_space_def trim_left_fixed strip_one_None)
next
  case False
  have "split_on (CHR '','') (join '','' ls) = ls"
    using False assms by (intro split_on_join) auto
  moreover have "map trim_space ls = ls" using assms by (simp add: map_idI)
  ultimately show ?thesis using assms by (simp add: parseLabels_def filter_id_conv)
qed

section \<open>Properties\<close>

text \<open>\<open>y\<close> is the value \<open>x\<close> of the file, or the default \<open>d\<close> when the file leaves the field at its
  zero value.\<close>

definition set_or :: "'a \<Rightarrow> 'a \<Rightarrow> 'a \<Rightarrow> 'a \<Rightarrow> bool" where
  "set_or zero d x y \<longleftrightarrow> x \<noteq> zero \<and> y = x \<or> x = zero \<and> y = d"

definition global_from :: "env \<Rightarrow> string \<Rightarrow> Global \<Rightarrow> Global \<Rightarrow> bool" where
  "global_from e path r g \<longleftrightarrow>
     set_or [] ''info'' (g_LogLevel r) (g_LogLevel g) \<and> set_or [] ''json'' (g_LogFormat r) (g_LogFormat g)
     \<and> g_HealthAddr g = g_HealthAddr r \<and> set_or [] '':8443'' (g_ListenAddr r) (g_ListenAddr g)
     \<and> set_or [] (defaultPublicURL e (g_ListenAddr g)) (g_PublicURL r) (g_PublicURL g)
     \<and> set_or [] (filepath_Join (filepath_Dir path) ''forgery-state.json'') (g_StateFile r) (g_StateFile g)
     \<and> set_or 0 5 (g_MaxParallelTasks r) (g_MaxParallelTasks g)
     \<and> g_GitHubToken g = g_GitHubToken r \<and> g_GitHubRepo g = g_GitHubRepo r
     \<and> g_GitHubWorkflowID g = g_GitHubWorkflowID r
     \<and> set_or [] ''main'' (g_GitHubRef r) (g_GitHubRef g)
     \<and> set_or [] ''https://api.github.com'' (g_GitHubAPIURL r) (g_GitHubAPIURL g)"

definition instance_from :: "env \<Rightarrow> Instance \<Rightarrow> Instance \<Rightarrow> bool" where
  "instance_from e r i \<longleftrightarrow>
     set_or [] (defaultInstanceName e (i_ForgejoURL r)) (i_Name r) (i_Name i)
     \<and> i_ForgejoURL i = i_ForgejoURL r \<and> i_ForgejoRunnerToken i = i_ForgejoRunnerToken r
     \<and> set_or [] ''forgery'' (i_ForgejoRunnerName r) (i_ForgejoRunnerName i)
     \<and> i_ForgejoRunnerLabels i = i_ForgejoRunnerLabels r
     \<and> set_or 0 (3 * second) (i_PollInterval r) (i_PollInterval i)
     \<and> set_or 0 (15 * minute) (i_RegTokenTTL r) (i_RegTokenTTL i)
     \<and> set_or 0 (15 * minute) (i_GAStartupTimeout r) (i_GAStartupTimeout i)
     \<and> set_or 0 (30 * second) (i_HeartbeatInterval r) (i_HeartbeatInterval i)
     \<and> i_TLSInsecureSkipVerify i = i_TLSInsecureSkipVerify r"

lemma set_or_default: "set_or zero d x (if x = zero then d else x)"
  by (simp add: set_or_def)

lemma defaults_from: "global_from e path g (defaults_Global e path g)" "instance_from e i (defaults_Instance e i)"
  by (simp_all add: global_from_def instance_from_def set_or_default record_defaults Let_def)

text \<open>C38: What a configuration that loads guarantees. Every field holds the value of the file, or its
  default exactly when the file leaves it empty or zero: the log level and format, the addresses,
  the public URL (derived from the listen address in effect), the state file beside the
  configuration file, the parallelism budget, the git ref and the API URL that the dispatch uses,
  and for every instance, in the order of the file, its name and durations. Nothing is left
  unknown in the file. And the result is valid: the budget and every poll, heartbeat, startup and
  token duration is positive (no ticker gets a non-positive period), at least one instance is
  configured, the names are pairwise different, and no required field is empty; the name of an
  instance may be empty when its URL has no host, and the budget has no upper bound.\<close>

theorem Load_guarantees:
  assumes "Load rf decode e path = Inr cfg"
  shows "(\<exists>data raw. rf path = Inr data \<and> decode UnmarshalText data = Inr (raw, [])
        \<and> global_from e path (c_Global raw) (c_Global cfg)
        \<and> list_all2 (instance_from e) (c_Instances raw) (c_Instances cfg))
    \<and> 0 < g_MaxParallelTasks (c_Global cfg) \<and> c_Instances cfg \<noteq> []
    \<and> distinct (map i_Name (c_Instances cfg))
    \<and> g_GitHubToken (c_Global cfg) \<noteq> [] \<and> g_GitHubRepo (c_Global cfg) \<noteq> []
    \<and> g_GitHubWorkflowID (c_Global cfg) \<noteq> [] \<and> g_GitHubRef (c_Global cfg) \<noteq> []
    \<and> g_GitHubAPIURL (c_Global cfg) \<noteq> [] \<and> g_ListenAddr (c_Global cfg) \<noteq> []
    \<and> g_PublicURL (c_Global cfg) \<noteq> [] \<and> g_StateFile (c_Global cfg) \<noteq> []
    \<and> g_LogLevel (c_Global cfg) \<noteq> [] \<and> g_LogFormat (c_Global cfg) \<noteq> []
    \<and> (\<forall>i\<in>set (c_Instances cfg).
          0 < i_PollInterval i \<and> 0 < i_RegTokenTTL i \<and> 0 < i_GAStartupTimeout i
          \<and> 0 < i_HeartbeatInterval i \<and> i_ForgejoURL i \<noteq> [] \<and> i_ForgejoRunnerToken i \<noteq> []
          \<and> i_ForgejoRunnerName i \<noteq> [] \<and> i_ForgejoRunnerLabels i \<noteq> [])"
proof -
  from assms obtain data raw where d: "rf path = Inr data" "decode UnmarshalText data = Inr (raw, [])"
    and raw: "cfg = applyDefaults e path raw" and ok: "config_valid cfg"
    by (auto simp: Load_Inr)
  have "global_from e path (c_Global raw) (c_Global cfg)"
    "list_all2 (instance_from e) (c_Instances raw) (c_Instances cfg)"
    by (simp_all add: raw applyDefaults_def defaults_from list_all2_conv_all_nth)
  with d have "\<exists>data raw. rf path = Inr data \<and> decode UnmarshalText data = Inr (raw, [])
      \<and> global_from e path (c_Global raw) (c_Global cfg)
      \<and> list_all2 (instance_from e) (c_Instances raw) (c_Instances cfg)"
    by blast
  moreover have "0 < g_MaxParallelTasks (c_Global cfg) \<and> g_ListenAddr (c_Global cfg) \<noteq> []
      \<and> g_PublicURL (c_Global cfg) \<noteq> [] \<and> g_StateFile (c_Global cfg) \<noteq> []
      \<and> g_GitHubRef (c_Global cfg) \<noteq> [] \<and> g_GitHubAPIURL (c_Global cfg) \<noteq> []
      \<and> g_LogLevel (c_Global cfg) \<noteq> [] \<and> g_LogFormat (c_Global cfg) \<noteq> []"
    using ok unfolding raw applyDefaults_def config_valid_def
    by (auto simp: record_defaults defaultPublicURL_def Let_def)
  moreover have "0 < i_PollInterval i \<and> 0 < i_RegTokenTTL i \<and> 0 < i_GAStartupTimeout i
      \<and> 0 < i_HeartbeatInterval i \<and> i_ForgejoURL i \<noteq> [] \<and> i_ForgejoRunnerToken i \<noteq> []
      \<and> i_ForgejoRunnerName i \<noteq> [] \<and> i_ForgejoRunnerLabels i \<noteq> []"
    if "i \<in> set (c_Instances cfg)" for i
  proof -
    from that raw obtain j where j: "i = defaults_Instance e j" by (auto simp: applyDefaults_def)
    have "instance_valid i" using ok that by (simp add: config_valid_def)
    then show ?thesis
      unfolding j by (auto simp: instance_valid_def record_defaults)
  qed
  ultimately show ?thesis using ok by (auto simp: config_valid_def)
qed

definition example_env :: env where
  "example_env = \<lparr>hostname = Some ''proxy'', url_host = (\<lambda>u. Some ''forgejo.example.com'')\<rparr>"

definition example_instance :: Instance where
  "example_instance = zero_Instance\<lparr>i_ForgejoURL := ''https://forgejo.example.com'',
     i_ForgejoRunnerToken := ''tok'', i_ForgejoRunnerLabels := [''docker'']\<rparr>"

definition example_config :: Config where
  "example_config = \<lparr>c_Global = \<lparr>g_LogLevel = [], g_LogFormat = [], g_HealthAddr = [],
     g_ListenAddr = [], g_PublicURL = [], g_StateFile = [], g_MaxParallelTasks = 0,
     g_GitHubToken = ''pat'', g_GitHubRepo = ''o/r'', g_GitHubWorkflowID = ''w.yml'',
     g_GitHubRef = [], g_GitHubAPIURL = []\<rparr>, c_Instances = [example_instance]\<rparr>"

lemma example_config_valid: "config_valid (applyDefaults example_env ''forgery.toml'' example_config)"
  by (simp add: config_valid_def applyDefaults_def record_defaults example_config_def
      example_instance_def instance_valid_def zero_Instance_def Let_def)

theorem Load_guarantees_witness:
  "\<exists>cfg. Load (\<lambda>_. Inr []) (\<lambda>_ _. Inr (example_config, [])) example_env ''forgery.toml'' = Inr cfg
     \<and> g_MaxParallelTasks (c_Global cfg) = 5 \<and> g_GitHubRef (c_Global cfg) = ''main''
     \<and> map i_Name (c_Instances cfg) = [''forgejo.example.com'']"
proof -
  have h: "Load (\<lambda>_. Inr []) (\<lambda>_ _. Inr (example_config, [])) example_env ''forgery.toml''
      = Inr (applyDefaults example_env ''forgery.toml'' example_config)"
    using example_config_valid by (simp add: Load_Inr)
  define cfg where "cfg = applyDefaults example_env ''forgery.toml'' example_config"
  from Load_guarantees [OF h, folded cfg_def, THEN conjunct1]
  have g: "global_from example_env ''forgery.toml'' (c_Global example_config) (c_Global cfg)"
    and i: "list_all2 (instance_from example_env) (c_Instances example_config) (c_Instances cfg)"
    by auto
  from g have "g_MaxParallelTasks (c_Global cfg) = 5 \<and> g_GitHubRef (c_Global cfg) = ''main''"
    by (simp add: global_from_def set_or_def example_config_def)
  moreover from i have "map i_Name (c_Instances cfg) = [''forgejo.example.com'']"
    by (auto simp: example_config_def list_all2_Cons1 instance_from_def set_or_def example_instance_def
        zero_Instance_def defaultInstanceName_def example_env_def)
  ultimately show ?thesis using h [folded cfg_def] by (intro exI [of _ cfg] conjI) simp_all
qed

text \<open>One validation run reports every problem and nothing else: it succeeds exactly on valid
  configurations, and otherwise lists precisely the empty required fields, the negative
  durations and, for every instance whose name was used before, the last index that used it.\<close>

theorem validate_reports_all:
  "case validate cfg of
     None \<Rightarrow> config_valid cfg
   | Some (ms, vs) \<Rightarrow>
       \<not> config_valid cfg
       \<and> (GitHubToken \<in> set ms \<longleftrightarrow> g_GitHubToken (c_Global cfg) = [])
       \<and> (GitHubRepo \<in> set ms \<longleftrightarrow> g_GitHubRepo (c_Global cfg) = [])
       \<and> (GitHubWorkflowID \<in> set ms \<longleftrightarrow> g_GitHubWorkflowID (c_Global cfg) = [])
       \<and> (Instances \<in> set ms \<longleftrightarrow> c_Instances cfg = [])
       \<and> (MaxParallelTasks \<in> set vs \<longleftrightarrow> g_MaxParallelTasks (c_Global cfg) < 0)
       \<and> (c_Instances cfg \<noteq> [] \<longrightarrow> (\<forall>k key nm j.
            (InstKey k key \<in> set ms \<longleftrightarrow>
               k < length (c_Instances cfg) \<and> is_missing key (c_Instances cfg ! k))
          \<and> (\<forall>d. NegDuration k d \<in> set vs \<longleftrightarrow>
               k < length (c_Instances cfg) \<and> dur_of d (c_Instances cfg ! k) < 0)
          \<and> (DupName k nm j \<in> set vs \<longleftrightarrow>
               k < length (c_Instances cfg) \<and> nm = i_Name (c_Instances cfg ! k)
               \<and> prev_same (c_Instances cfg) nm k j)))"
proof (cases "validate cfg")
  case None
  then have "config_valid cfg" by (rule validate_None [THEN iffD1])
  with None show ?thesis by simp
next
  case (Some r)
  obtain ms vs where r: "r = (ms, vs)" by fastforce
  let ?is = "c_Instances cfg"
  have v: "validate cfg = Some (ms, vs)" using Some r by simp
  have "\<not> config_valid cfg" using v validate_None [of cfg] by simp
  moreover have "(InstKey k key \<in> set ms \<longleftrightarrow> k < length ?is \<and> is_missing key (?is ! k))
      \<and> (\<forall>d. NegDuration k d \<in> set vs \<longleftrightarrow> k < length ?is \<and> dur_of d (?is ! k) < 0)
      \<and> (DupName k nm j \<in> set vs \<longleftrightarrow> k < length ?is \<and> nm = i_Name (?is ! k) \<and> prev_same ?is nm k j)"
    if ne: "?is \<noteq> []" for k key nm j
  proof -
    have m: "InstKey k key \<in> set ms \<longleftrightarrow> InstKey k key \<in> set (fst (check_instances 0 [] ?is))"
      by (simp add: validate_Some(6) [OF v ne])
    have n: "NegDuration k d \<in> set vs \<longleftrightarrow> NegDuration k d \<in> set (snd (check_instances 0 [] ?is))" for d
      by (simp add: validate_Some(7) [OF v ne])
    have d: "DupName k nm j \<in> set vs \<longleftrightarrow> DupName k nm j \<in> set (snd (check_instances 0 [] ?is))"
      by (simp add: validate_Some(7) [OF v ne])
    show ?thesis by (simp add: m n d check_missing check_negative check_dup0)
  qed
  ultimately show ?thesis
    using validate_Some(1-5) [OF v] by (simp add: v)
qed

theorem validate_reports_all_witness:
  "\<exists>ms vs. validate (example_config\<lparr>c_Instances := [example_instance, example_instance]\<rparr>) = Some (ms, vs)
     \<and> DupName 1 [] 0 \<in> set vs"
proof -
  let ?cfg = "example_config\<lparr>c_Instances := [example_instance, example_instance]\<rparr>"
  have n: "\<not> config_valid ?cfg" by (simp add: config_valid_def)
  then obtain ms vs where v: "validate ?cfg = Some (ms, vs)"
    using validate_None [of ?cfg] by fastforce
  have "prev_same [example_instance, example_instance] [] 1 0"
    by (auto simp: prev_same_def example_instance_def zero_Instance_def)
  then have "DupName 1 [] 0 \<in> set vs"
    using validate_reports_all [of ?cfg] v
    by (simp add: example_instance_def zero_Instance_def)
  with v show ?thesis by blast
qed

text \<open>Filling in defaults is idempotent: a configuration that already went through it is not
  changed by a second pass.\<close>

theorem applyDefaults_idem:
  "applyDefaults e path (applyDefaults e path cfg) = applyDefaults e path cfg"
proof -
  have "defaults_Instance e (defaults_Instance e i) = defaults_Instance e i" for i
    by (simp add: record_defaults)
  then show ?thesis
    by (simp add: applyDefaults_def defaults_Global_def default_str_def default_int_def
        defaultPublicURL_def Let_def)
qed

text \<open>Labels survive the trip through the dispatch input: joining parsed labels with commas
  and parsing the result gives the same labels, and every parsed label is non-empty, free of
  commas and has no white space at its ends.\<close>

theorem labels_roundtrip:
  "parseLabels (join '','' (parseLabels s)) = parseLabels s
   \<and> (\<forall>p\<in>set (parseLabels s). p \<noteq> [] \<and> trim_space p = p \<and> CHR '','' \<notin> set p)"
proof -
  have clean: "\<forall>p\<in>set (parseLabels s). p \<noteq> [] \<and> trimmed p \<and> CHR '','' \<notin> set p"
    using parseLabels_clean by blast
  then show ?thesis using parseLabels_join by simp
qed

lemma parse_example: "parseLabels ''a:docker://x, ,b'' = [''a:docker://x'', ''b'']"
proof -
  have "join '','' [''a:docker://x'', '' '', ''b''] = ''a:docker://x, ,b''" by simp
  then have "split_on (CHR '','') ''a:docker://x, ,b'' = [''a:docker://x'', '' '', ''b'']"
    using split_on_join [of "[''a:docker://x'', '' '', ''b'']" "CHR '',''"] by simp
  then show ?thesis
    by (simp add: parseLabels_def trim_space_def trim_left.simps strip_one_def space_runes_def)
qed

theorem labels_roundtrip_witness:
  "''b'' \<in> set (parseLabels ''a:docker://x, ,b'') \<and> CHR '','' \<notin> set ''b''"
  using labels_roundtrip [of "''a:docker://x, ,b''"] parse_example by simp

end
