(* ===== verification/Runner_V1.thy ===== *)
theory Runner_V1
  imports Go_Strings
begin

text \<open>
  The messages of Forgejo's runner protocol (\<^verbatim>\<open>actions-proto-go/runner/v1\<close>) and the
  errors of \<^verbatim>\<open>connectrpc.com/connect\<close>, as far as the program reads or writes them. Both
  packages are third-party code: only their data is represented, the fields the program does
  not touch being carried along opaquely (\<open>rest\<close>).
\<close>

section \<open>Tasks\<close>

text \<open>The value of a field of the task context: a string, or any other JSON value, for which
  \<^verbatim>\<open>GetStringValue\<close> yields the empty string.\<close>

datatype ctx_value = StringValue string | OtherValue

record v1_Task =
  vt_Id :: int
  vt_WorkflowPayload :: string
  vt_Context :: "(string, ctx_value) gomap option"
  vt_Secrets :: "(string, string) gomap"
  vt_rest :: string

definition GetStringValue :: "ctx_value option \<Rightarrow> string" where
  "GetStringValue v = (case v of Some (StringValue s) \<Rightarrow> s | _ \<Rightarrow> [])"

definition field_string :: "(string, ctx_value) gomap \<Rightarrow> string \<Rightarrow> string" where
  "field_string fs k = GetStringValue (mget fs k)"

definition map_string :: "(string, string) gomap \<Rightarrow> string \<Rightarrow> string" where
  "map_string m k = (case mget m k of Some s \<Rightarrow> s | None \<Rightarrow> [])"

section \<open>Reports\<close>

datatype v1_Result =
    RESULT_UNSPECIFIED | RESULT_SUCCESS | RESULT_FAILURE | RESULT_CANCELLED | RESULT_SKIPPED
  | RESULT_UNKNOWN int

record TaskState =
  ts_Id :: int
  ts_Result :: v1_Result
  ts_rest :: string

record UpdateTaskRequest =
  utr_State :: "TaskState option"
  utr_rest :: string

text \<open>Protobuf getters on an absent message give the zero value.\<close>

definition GetState_Id :: "UpdateTaskRequest \<Rightarrow> int" where
  "GetState_Id req = (case utr_State req of None \<Rightarrow> 0 | Some s \<Rightarrow> ts_Id s)"

definition GetState_Result :: "UpdateTaskRequest \<Rightarrow> v1_Result" where
  "GetState_Result req = (case utr_State req of None \<Rightarrow> RESULT_UNSPECIFIED | Some s \<Rightarrow> ts_Result s)"

record UpdateLogRequest =
  ulr_TaskId :: int
  ulr_rest :: string

text \<open>Responses are relayed, never inspected.\<close>

datatype UpdateTaskResponse = UpdateTaskResponse string
datatype UpdateLogResponse = UpdateLogResponse string

record v1_Runner =
  vr_Id :: int
  vr_Uuid :: string
  vr_Token :: string
  vr_Name :: string
  vr_Ephemeral :: bool
  vr_Labels :: "string list"

section \<open>Errors\<close>

datatype connect_code =
    CodeCanceled | CodeUnknown | CodeInvalidArgument | CodeDeadlineExceeded | CodeNotFound
  | CodeAlreadyExists | CodePermissionDenied | CodeResourceExhausted | CodeFailedPrecondition
  | CodeAborted | CodeOutOfRange | CodeUnimplemented | CodeInternal | CodeUnavailable
  | CodeDataLoss | CodeUnauthenticated

text \<open>An error is one that carries a connect code, or any other Go error.\<close>

datatype go_err = ConnectError connect_code string | PlainError string

fun CodeOf :: "go_err \<Rightarrow> connect_code" where
  "CodeOf (ConnectError c _) = c"
| "CodeOf (PlainError _) = CodeUnknown"

fun code_string :: "connect_code \<Rightarrow> string" where
  "code_string CodeCanceled = ''canceled''"
| "code_string CodeUnknown = ''unknown''"
| "code_string CodeInvalidArgument = ''invalid_argument''"
| "code_string CodeDeadlineExceeded = ''deadline_exceeded''"
| "code_string CodeNotFound = ''not_found''"
| "code_string CodeAlreadyExists = ''already_exists''"
| "code_string CodePermissionDenied = ''permission_denied''"
| "code_string CodeResourceExhausted = ''resource_exhausted''"
| "code_string CodeFailedPrecondition = ''failed_precondition''"
| "code_string CodeAborted = ''aborted''"
| "code_string CodeOutOfRange = ''out_of_range''"
| "code_string CodeUnimplemented = ''unimplemented''"
| "code_string CodeInternal = ''internal''"
| "code_string CodeUnavailable = ''unavailable''"
| "code_string CodeDataLoss = ''data_loss''"
| "code_string CodeUnauthenticated = ''unauthenticated''"

fun err_Error :: "go_err \<Rightarrow> string" where
  "err_Error (ConnectError c m) = (if m = [] then code_string c else code_string c @ '': '' @ m)"
| "err_Error (PlainError m) = m"

end
