(* ===== verification/Task_Store.thy ===== *)
theory Task_Store
  imports Runner_V1
begin

text \<open>
  Task contexts and their in-memory store (\<^verbatim>\<open>internal/store/store.go\<close>,
  \<^verbatim>\<open>internal/store/memstore.go\<close>).

  A \<open>TaskCtx\<close> is shared by pointer between the store, the sessions, the proxy registry and the
  goroutine that handles the task, so the contexts live in a heap (\<open>theap\<close>) addressed by
  \<open>tref\<close>, and the store holds addresses. The two signal channels are created on first use:
  \<open>None\<close> is the nil channel. Each method of \<open>TaskCtx\<close> runs under its mutex, each method of
  \<open>MemStore\<close> under the store's; only \<open>GC\<close> and \<open>CountActive\<close> drop the store lock in
  between: \<open>GC\<close> is \<open>gc_candidates\<close> followed by \<open>gc_remove\<close>, and the runs below let other
  operations come between the two.
\<close>

section \<open>Task contexts\<close>

datatype TaskStatus = StatusPending | StatusDispatched | StatusRunning | StatusTerminal

text \<open>The order of the \<^verbatim>\<open>iota\<close> constants.\<close>

fun status_code :: "TaskStatus \<Rightarrow> nat" where
  "status_code StatusPending = 0"
| "status_code StatusDispatched = 1"
| "status_code StatusRunning = 2"
| "status_code StatusTerminal = 3"

instantiation TaskStatus :: linorder
begin

definition less_eq_TaskStatus :: "TaskStatus \<Rightarrow> TaskStatus \<Rightarrow> bool" where
  "less_eq_TaskStatus a b \<longleftrightarrow> status_code a \<le> status_code b"

definition less_TaskStatus :: "TaskStatus \<Rightarrow> TaskStatus \<Rightarrow> bool" where
  "less_TaskStatus a b \<longleftrightarrow> status_code a < status_code b"

instance
proof
  fix x y :: TaskStatus
  show "x \<le> y \<Longrightarrow> y \<le> x \<Longrightarrow> x = y"
    by (cases x; cases y) (simp_all add: less_eq_TaskStatus_def)
qed (auto simp: less_eq_TaskStatus_def less_TaskStatus_def)

end

datatype chan = Open | Closed

record TaskCtx =
  t_ID :: int
  t_Instance :: string
  t_Task :: v1_Task
  t_RegToken :: string
  t_RegTokenTTL :: duration
  t_CreatedAt :: time
  t_status :: TaskStatus
  t_sessionToken :: string
  t_done :: "chan option"
  t_registered :: "chan option"

definition Status :: "TaskCtx \<Rightarrow> TaskStatus" where
  "Status t = t_status t"

definition SetStatus :: "TaskStatus \<Rightarrow> TaskCtx \<Rightarrow> TaskCtx" where
  "SetStatus s t = t\<lparr>t_status := s\<rparr>"

definition SetSessionToken :: "string \<Rightarrow> TaskCtx \<Rightarrow> TaskCtx" where
  "SetSessionToken tok t = t\<lparr>t_sessionToken := tok\<rparr>"

definition SessionToken :: "TaskCtx \<Rightarrow> string" where
  "SessionToken t = t_sessionToken t"

definition MarkDispatched :: "TaskCtx \<Rightarrow> TaskCtx" where
  "MarkDispatched t = t\<lparr>t_status := StatusDispatched\<rparr>"

text \<open>\<open>closeSignal\<close>: close unless already closed.\<close>

fun closeSignal :: "chan \<Rightarrow> chan" where
  "closeSignal Closed = Closed"
| "closeSignal Open = Closed"

definition ensure :: "chan option \<Rightarrow> chan" where
  "ensure c = (case c of None \<Rightarrow> Open | Some c' \<Rightarrow> c')"

definition ensureDone :: "TaskCtx \<Rightarrow> TaskCtx \<times> chan" where
  "ensureDone t = (let c = ensure (t_done t) in (t\<lparr>t_done := Some c\<rparr>, c))"

definition ensureRegistered :: "TaskCtx \<Rightarrow> TaskCtx \<times> chan" where
  "ensureRegistered t = (let c = ensure (t_registered t) in (t\<lparr>t_registered := Some c\<rparr>, c))"

definition MarkRunnerRegistered :: "TaskCtx \<Rightarrow> TaskCtx" where
  "MarkRunnerRegistered t =
     (let t1 = t\<lparr>t_status := StatusRunning\<rparr>; (t2, c) = ensureRegistered t1
      in t2\<lparr>t_registered := Some (closeSignal c)\<rparr>)"

definition MarkDone :: "TaskCtx \<Rightarrow> TaskCtx" where
  "MarkDone t = (let (t1, c) = ensureDone t in t1\<lparr>t_done := Some (closeSignal c)\<rparr>)"

definition Done :: "TaskCtx \<Rightarrow> TaskCtx \<times> chan" where
  "Done t = ensureDone t"

definition Registered :: "TaskCtx \<Rightarrow> TaskCtx \<times> chan" where
  "Registered t = ensureRegistered t"

text \<open>A receive from the channel proceeds exactly when it is closed (nothing is ever sent).\<close>

definition done_fired :: "TaskCtx \<Rightarrow> bool" where
  "done_fired t \<longleftrightarrow> snd (Done t) = Closed"

definition registered_fired :: "TaskCtx \<Rightarrow> bool" where
  "registered_fired t \<longleftrightarrow> snd (Registered t) = Closed"

lemmas taskctx_defs = Status_def SetStatus_def SetSessionToken_def SessionToken_def
  MarkDispatched_def ensure_def ensureDone_def ensureRegistered_def MarkRunnerRegistered_def
  MarkDone_def Done_def Registered_def done_fired_def registered_fired_def Let_def split_beta

lemma closeSignal_Closed [simp]: "closeSignal c = Closed"
  by (cases c) simp_all

text \<open>The immutable fields.\<close>

definition same_task :: "TaskCtx \<Rightarrow> TaskCtx \<Rightarrow> bool" where
  "same_task t u \<longleftrightarrow> t_ID t = t_ID u \<and> t_Instance t = t_Instance u \<and> t_Task t = t_Task u
     \<and> t_RegToken t = t_RegToken u \<and> t_RegTokenTTL t = t_RegTokenTTL u \<and> t_CreatedAt t = t_CreatedAt u"

datatype ctx_op =
    OpSetStatus TaskStatus | OpSetSessionToken string | OpMarkDispatched
  | OpMarkRunnerRegistered | OpMarkDone | OpDone | OpRegistered

fun ctx_step :: "ctx_op \<Rightarrow> TaskCtx \<Rightarrow> TaskCtx" where
  "ctx_step (OpSetStatus s) t = SetStatus s t"
| "ctx_step (OpSetSessionToken tok) t = SetSessionToken tok t"
| "ctx_step OpMarkDispatched t = MarkDispatched t"
| "ctx_step OpMarkRunnerRegistered t = MarkRunnerRegistered t"
| "ctx_step OpMarkDone t = MarkDone t"
| "ctx_step OpDone t = fst (Done t)"
| "ctx_step OpRegistered t = fst (Registered t)"

definition ctx_run :: "ctx_op list \<Rightarrow> TaskCtx \<Rightarrow> TaskCtx" where
  "ctx_run ops t = fold ctx_step ops t"

lemma ctx_step_same: "same_task (ctx_step x t) t"
  by (cases x) (simp_all add: same_task_def taskctx_defs)

lemma ctx_step_done: "done_fired (ctx_step x t) \<longleftrightarrow> done_fired t \<or> x = OpMarkDone"
  by (cases x) (auto simp: taskctx_defs)

lemma ctx_step_registered:
  "registered_fired (ctx_step x t) \<longleftrightarrow> registered_fired t \<or> x = OpMarkRunnerRegistered"
  by (cases x) (auto simp: taskctx_defs)

lemma ctx_run_signals:
  "(done_fired (ctx_run ops t) \<longleftrightarrow> done_fired t \<or> OpMarkDone \<in> set ops)
   \<and> (registered_fired (ctx_run ops t) \<longleftrightarrow> registered_fired t \<or> OpMarkRunnerRegistered \<in> set ops)
   \<and> same_task (ctx_run ops t) t"
proof (induction ops arbitrary: t)
  case Nil
  then show ?case by (simp add: ctx_run_def same_task_def)
next
  case (Cons x xs)
  have "same_task (ctx_run xs (ctx_step x t)) (ctx_step x t)"
    using Cons.IH by blast
  then have "same_task (ctx_run xs (ctx_step x t)) t"
    using ctx_step_same [of x t] by (simp add: same_task_def)
  then show ?case
    using Cons.IH [of "ctx_step x t"]
    by (auto simp: ctx_run_def ctx_step_done ctx_step_registered)
qed

section \<open>The heap of task contexts\<close>

type_synonym tref = nat
type_synonym theap = "tref \<Rightarrow> TaskCtx"

definition modify :: "tref \<Rightarrow> (TaskCtx \<Rightarrow> TaskCtx) \<Rightarrow> theap \<Rightarrow> theap" where
  "modify r f h = h(r := f (h r))"

lemma modify_apply [simp]: "modify r f h s = (if s = r then f (h r) else h s)"
  by (simp add: modify_def)

section \<open>The store\<close>

record MemStore =
  ms_tasks :: "(int, tref) gomap"
  ms_byReg :: "(string, int) gomap"

definition NewMemStore :: MemStore where
  "NewMemStore = \<lparr>ms_tasks = [], ms_byReg = []\<rparr>"

definition PutPending :: "theap \<Rightarrow> tref \<Rightarrow> MemStore \<Rightarrow> MemStore" where
  "PutPending h r m =
     m\<lparr>ms_tasks := mput (t_ID (h r)) r (ms_tasks m),
       ms_byReg := mput (t_RegToken (h r)) (t_ID (h r)) (ms_byReg m)\<rparr>"

definition GetByRegToken :: "string \<Rightarrow> MemStore \<Rightarrow> tref option" where
  "GetByRegToken tok m =
     (case mget (ms_byReg m) tok of
        None \<Rightarrow> None
      | Some tid \<Rightarrow> (case mget (ms_tasks m) tid of None \<Rightarrow> None | Some r \<Rightarrow> Some r))"

definition MarkRegTokenConsumed :: "string \<Rightarrow> MemStore \<Rightarrow> MemStore \<times> bool" where
  "MarkRegTokenConsumed tok m =
     (case mget (ms_byReg m) tok of
        None \<Rightarrow> (m, False)
      | Some _ \<Rightarrow> (m\<lparr>ms_byReg := mdel tok (ms_byReg m)\<rparr>, True))"

definition removeLocked :: "int \<Rightarrow> MemStore \<Rightarrow> MemStore" where
  "removeLocked taskID m =
     m\<lparr>ms_tasks := mdel taskID (ms_tasks m),
       ms_byReg := mdel_where (\<lambda>tok tid. tid = taskID) (ms_byReg m)\<rparr>"

definition Remove :: "int \<Rightarrow> MemStore \<Rightarrow> MemStore" where
  "Remove taskID m = removeLocked taskID m"

definition gc_due :: "time \<Rightarrow> TaskCtx \<Rightarrow> bool" where
  "gc_due now t \<longleftrightarrow> Status t = StatusPending \<and> time_sub now (t_CreatedAt t) > t_RegTokenTTL t"

definition gc_candidates :: "theap \<Rightarrow> time \<Rightarrow> MemStore \<Rightarrow> int list" where
  "gc_candidates h now m = map fst (filter (\<lambda>(tid, r). gc_due now (h r)) (ms_tasks m))"

definition gc_remove :: "int list \<Rightarrow> MemStore \<Rightarrow> MemStore" where
  "gc_remove toRemove m = fold removeLocked toRemove m"

definition GC :: "theap \<Rightarrow> time \<Rightarrow> MemStore \<Rightarrow> MemStore" where
  "GC h now m = gc_remove (gc_candidates h now m) m"

definition CountActive :: "theap \<Rightarrow> MemStore \<Rightarrow> nat" where
  "CountActive h m = length (filter (\<lambda>(tid, r). Status (h r) \<noteq> StatusTerminal) (ms_tasks m))"

section \<open>The store invariant\<close>

definition ms_ok :: "MemStore \<Rightarrow> bool" where
  "ms_ok m \<longleftrightarrow> gomap_ok (ms_tasks m) \<and> gomap_ok (ms_byReg m)
     \<and> (\<forall>tok tid. mget (ms_byReg m) tok = Some tid \<longrightarrow> mget (ms_tasks m) tid \<noteq> None)"

lemma ms_okI [intro?]:
  assumes "gomap_ok (ms_tasks m)" "gomap_ok (ms_byReg m)"
    and "\<And>tok tid. mget (ms_byReg m) tok = Some tid \<Longrightarrow> mget (ms_tasks m) tid \<noteq> None"
  shows "ms_ok m"
  using assms unfolding ms_ok_def by blast

lemma ms_okD:
  assumes "ms_ok m"
  shows "gomap_ok (ms_tasks m)" "gomap_ok (ms_byReg m)"
    "mget (ms_byReg m) tok = Some tid \<Longrightarrow> mget (ms_tasks m) tid \<noteq> None"
  using assms unfolding ms_ok_def by blast+

lemma NewMemStore_ok [simp]: "ms_ok NewMemStore"
  by (simp add: ms_ok_def NewMemStore_def)

lemma PutPending_ok [simp]: "ms_ok m \<Longrightarrow> ms_ok (PutPending h r m)"
  by (auto simp: ms_ok_def PutPending_def)

lemma consume_ok [simp]: "ms_ok m \<Longrightarrow> ms_ok (fst (MarkRegTokenConsumed tok m))"
  by (auto simp: ms_ok_def MarkRegTokenConsumed_def split: option.splits)

lemma removeLocked_lookup:
  assumes "ms_ok m"
  shows "mget (ms_tasks (removeLocked i m)) tid = (if tid = i then None else mget (ms_tasks m) tid)"
    and "mget (ms_byReg (removeLocked i m)) tok =
      (if mget (ms_byReg m) tok = Some i then None else mget (ms_byReg m) tok)"
  using ms_okD(1,2) [OF assms]
  by (simp_all add: removeLocked_def mget_mdel_where split: option.splits)

lemma removeLocked_ok [simp]: "ms_ok m \<Longrightarrow> ms_ok (removeLocked i m)"
proof -
  assume ok: "ms_ok m"
  then have "gomap_ok (ms_tasks (removeLocked i m))" "gomap_ok (ms_byReg (removeLocked i m))"
    by (simp_all add: ms_ok_def removeLocked_def)
  then show ?thesis
    using ms_okD(3) [OF ok] by (auto simp: ms_ok_def removeLocked_lookup [OF ok] split: if_splits)
qed

lemma Remove_ok [simp]: "ms_ok m \<Longrightarrow> ms_ok (Remove i m)"
  by (simp add: Remove_def)

lemma fold_removeLocked_ok: "ms_ok m \<Longrightarrow> ms_ok (fold removeLocked ids m)"
  by (induction ids arbitrary: m) simp_all

lemma GC_ok [simp]: "ms_ok m \<Longrightarrow> ms_ok (GC h now m)"
  by (simp add: GC_def gc_remove_def fold_removeLocked_ok)

lemma gc_remove_ok [simp]: "ms_ok m \<Longrightarrow> ms_ok (gc_remove ids m)"
  by (simp add: gc_remove_def fold_removeLocked_ok)

lemma fold_removeLocked_lookup:
  assumes "ms_ok m"
  shows "mget (ms_tasks (fold removeLocked ids m)) tid =
      (if tid \<in> set ids then None else mget (ms_tasks m) tid)"
    and "mget (ms_byReg (fold removeLocked ids m)) tok =
      (case mget (ms_byReg m) tok of None \<Rightarrow> None | Some i \<Rightarrow> if i \<in> set ids then None else Some i)"
  using assms
proof (induction ids arbitrary: m)
  case Nil
  { case 1 then show ?case by simp }
  { case 2 then show ?case by (simp split: option.splits) }
next
  case (Cons i ids)
  { case 1 with Cons.IH(1) [of "removeLocked i m"] show ?case
      by (auto simp: removeLocked_lookup [OF 1]) }
  { case 2 with Cons.IH(2) [of "removeLocked i m"] show ?case
      by (auto simp: removeLocked_lookup [OF 2] split: option.splits) }
qed

lemma gc_candidates_iff:
  assumes "ms_ok m"
  shows "tid \<in> set (gc_candidates h now m) \<longleftrightarrow> (\<exists>r. mget (ms_tasks m) tid = Some r \<and> gc_due now (h r))"
  using mget_Some_iff [OF ms_okD(1) [OF assms]] by (force simp: gc_candidates_def)

lemma GetByRegToken_index: "ms_ok m \<Longrightarrow> GetByRegToken tok m = None \<longleftrightarrow> mget (ms_byReg m) tok = None"
  using ms_okD(3) [of m tok] by (auto simp: GetByRegToken_def split: option.splits)

section \<open>The contract of the token index\<close>

text \<open>
  What the clients of \<^verbatim>\<open>TaskStore\<close> rely on: a one-time token names a task id until it is
  consumed or its task is removed. \<open>credit\<close> is 1 for a live token and 0 otherwise; a
  successful consume spends it and only a put restores it.
\<close>

locale task_store =
  fixes invar :: "'s \<Rightarrow> bool" and index :: "'s \<Rightarrow> string \<Rightarrow> int option"
    and put :: "int \<Rightarrow> string \<Rightarrow> 'c \<Rightarrow> 's \<Rightarrow> 's"
    and consume :: "string \<Rightarrow> 's \<Rightarrow> 's \<times> bool"
    and remove :: "int \<Rightarrow> 's \<Rightarrow> 's"
  assumes put_index: "invar s \<Longrightarrow> index (put i tok c s) = (index s)(tok := Some i)"
    and consume_result: "invar s \<Longrightarrow> snd (consume tok s) \<longleftrightarrow> index s tok \<noteq> None"
    and consume_index: "invar s \<Longrightarrow> index (fst (consume tok s)) = (index s)(tok := None)"
    and remove_index: "invar s \<Longrightarrow>
      index (remove i s) tok = (if index s tok = Some i then None else index s tok)"
    and put_invar: "invar s \<Longrightarrow> invar (put i tok c s)"
    and consume_invar: "invar s \<Longrightarrow> invar (fst (consume tok s))"
    and remove_invar: "invar s \<Longrightarrow> invar (remove i s)"
begin

definition credit :: "string \<Rightarrow> 's \<Rightarrow> nat" where
  "credit tok s = (if index s tok = None then 0 else 1)"

lemma credit_put: "invar s \<Longrightarrow> credit tok (put i t c s) \<le> credit tok s + (if t = tok then 1 else 0)"
  by (simp add: credit_def put_index)

lemma credit_consume:
  "invar s \<Longrightarrow> credit tok (fst (consume t s)) + (if t = tok \<and> snd (consume t s) then 1 else 0) = credit tok s"
  by (auto simp: credit_def consume_index consume_result)

lemma credit_remove: "invar s \<Longrightarrow> credit tok (remove i s) \<le> credit tok s"
  by (simp add: credit_def remove_index)

lemma consume_twice: "invar s \<Longrightarrow> \<not> snd (consume tok (fst (consume tok s)))"
  by (simp add: consume_invar consume_index consume_result)

lemma consume_after_remove:
  "invar s \<Longrightarrow> index s tok = Some i \<Longrightarrow> \<not> snd (consume tok (remove i s))"
  by (simp add: remove_invar remove_index consume_result)

end

definition put_entry :: "int \<Rightarrow> string \<Rightarrow> tref \<Rightarrow> MemStore \<Rightarrow> MemStore" where
  "put_entry i tok r m =
     m\<lparr>ms_tasks := mput i r (ms_tasks m), ms_byReg := mput tok i (ms_byReg m)\<rparr>"

lemma PutPending_entry: "PutPending h r m = put_entry (t_ID (h r)) (t_RegToken (h r)) r m"
  by (simp add: PutPending_def put_entry_def)

interpretation mem_store: task_store ms_ok "\<lambda>m. mget (ms_byReg m)" put_entry
  MarkRegTokenConsumed Remove
proof unfold_locales
  fix s :: MemStore and i tok r
  assume ok: "ms_ok s"
  show "mget (ms_byReg (Remove i s)) tok =
      (if mget (ms_byReg s) tok = Some i then None else mget (ms_byReg s) tok)"
    using ok by (simp add: Remove_def removeLocked_lookup)
  show "ms_ok (put_entry i tok r s)"
    using ok by (auto simp: ms_ok_def put_entry_def)
  show "ms_ok (fst (MarkRegTokenConsumed tok s))" using ok by simp
qed (auto simp: put_entry_def MarkRegTokenConsumed_def fun_eq_iff split: option.splits)

section \<open>Runs of the store\<close>

text \<open>
  An event is one atomic store operation. \<open>PutPending\<close> reads immutable fields only, so the
  run fixes a heap \<open>h\<close> for them. \<open>EvReap\<close> is the second half of a GC pass, with the candidates
  that its first half collected at any earlier moment.
\<close>

datatype store_ev = EvPut tref | EvConsume string | EvRemove int | EvReap "int list"

fun store_step :: "theap \<Rightarrow> store_ev \<Rightarrow> MemStore \<Rightarrow> MemStore" where
  "store_step h (EvPut r) m = PutPending h r m"
| "store_step h (EvConsume tok) m = fst (MarkRegTokenConsumed tok m)"
| "store_step h (EvRemove i) m = Remove i m"
| "store_step h (EvReap ids) m = gc_remove ids m"

fun store_run :: "theap \<Rightarrow> store_ev list \<Rightarrow> MemStore \<Rightarrow> MemStore" where
  "store_run h [] m = m"
| "store_run h (x # xs) m = store_run h xs (store_step h x m)"

text \<open>How often a run consumed \<open>tok\<close> successfully, and how often it stored a task with it.\<close>

fun wins :: "string \<Rightarrow> theap \<Rightarrow> store_ev list \<Rightarrow> MemStore \<Rightarrow> nat" where
  "wins tok h [] m = 0"
| "wins tok h (x # xs) m =
     (if x = EvConsume tok \<and> snd (MarkRegTokenConsumed tok m) then 1 else 0)
       + wins tok h xs (store_step h x m)"

fun puts :: "string \<Rightarrow> theap \<Rightarrow> store_ev list \<Rightarrow> nat" where
  "puts tok h [] = 0"
| "puts tok h (x # xs) =
     (case x of EvPut r \<Rightarrow> if t_RegToken (h r) = tok then 1 else 0 | _ \<Rightarrow> 0) + puts tok h xs"

lemma store_step_ok [simp]: "ms_ok m \<Longrightarrow> ms_ok (store_step h x m)"
  by (cases x) simp_all

lemma store_run_ok: "ms_ok m \<Longrightarrow> ms_ok (store_run h xs m)"
  by (induction xs arbitrary: m) simp_all

lemma credit_reap: "ms_ok m \<Longrightarrow> mem_store.credit tok (gc_remove ids m) \<le> mem_store.credit tok m"
  by (auto simp: gc_remove_def mem_store.credit_def fold_removeLocked_lookup split: option.splits)

lemma wins_bound:
  "ms_ok m \<Longrightarrow> wins tok h xs m \<le> puts tok h xs + mem_store.credit tok m"
proof (induction xs arbitrary: m)
  case Nil
  then show ?case by simp
next
  case (Cons x xs)
  have IH: "wins tok h xs (store_step h x m) \<le> puts tok h xs + mem_store.credit tok (store_step h x m)"
    using Cons by simp
  show ?case
  proof (cases x)
    case (EvPut r)
    then show ?thesis
      using IH mem_store.credit_put [OF Cons.prems, of tok "t_ID (h r)" "t_RegToken (h r)" r]
      by (auto simp: PutPending_entry split: if_splits)
  next
    case (EvConsume t)
    then show ?thesis
      using IH mem_store.credit_consume [OF Cons.prems, of tok t] by (auto split: if_splits)
  next
    case (EvRemove i)
    then show ?thesis
      using IH mem_store.credit_remove [OF Cons.prems, of tok i] by auto
  next
    case (EvReap ids)
    then show ?thesis
      using IH credit_reap [OF Cons.prems, of tok ids] by auto
  qed
qed

section \<open>Routing: which task a token reaches\<close>

definition store_wf :: "theap \<Rightarrow> MemStore \<Rightarrow> bool" where
  "store_wf h m \<longleftrightarrow> ms_ok m
     \<and> (\<forall>i r. mget (ms_tasks m) i = Some r \<longrightarrow> t_ID (h r) = i)
     \<and> (\<forall>tok i r. mget (ms_byReg m) tok = Some i \<longrightarrow> mget (ms_tasks m) i = Some r
            \<longrightarrow> t_RegToken (h r) = tok)"

lemma store_wfD:
  assumes "store_wf h m"
  shows "ms_ok m" "mget (ms_tasks m) i = Some r \<Longrightarrow> t_ID (h r) = i"
    "mget (ms_byReg m) tok = Some i \<Longrightarrow> mget (ms_tasks m) i = Some r \<Longrightarrow> t_RegToken (h r) = tok"
  using assms unfolding store_wf_def by blast+

lemma GetByRegToken_Some:
  "GetByRegToken tok m = Some r \<longleftrightarrow> (\<exists>i. mget (ms_byReg m) tok = Some i \<and> mget (ms_tasks m) i = Some r)"
  by (auto simp: GetByRegToken_def split: option.splits)

lemma fresh_index:
  assumes "ms_ok m" "mget (ms_tasks m) i = None"
  shows "mget (ms_byReg m) tok \<noteq> Some i"
  using ms_okD(3) [OF assms(1)] assms(2) by blast

lemma store_wf_put:
  assumes wf: "store_wf h m" and fresh: "mget (ms_tasks m) (t_ID (h r)) = None"
  shows "store_wf h (PutPending h r m)"
  using store_wfD [OF wf] fresh_index [OF store_wfD(1) [OF wf] fresh]
  by (auto simp: store_wf_def PutPending_def PutPending_ok [unfolded PutPending_def])

lemma store_wf_consume: "store_wf h m \<Longrightarrow> store_wf h (fst (MarkRegTokenConsumed tok m))"
  by (auto simp: store_wf_def MarkRegTokenConsumed_def ms_ok_def split: option.splits if_splits)

lemma store_wf_fold_remove:
  assumes "store_wf h m"
  shows "store_wf h (fold removeLocked ids m)"
  using assms fold_removeLocked_ok [OF store_wfD(1) [OF assms]]
  by (auto simp: store_wf_def fold_removeLocked_lookup split: option.splits if_splits)

lemma store_wf_remove: "store_wf h m \<Longrightarrow> store_wf h (Remove i m)"
  using store_wf_fold_remove [of h m "[i]"] by (simp add: Remove_def)

lemma store_wf_reap: "store_wf h m \<Longrightarrow> store_wf h (gc_remove ids m)"
  by (simp add: gc_remove_def store_wf_fold_remove)

lemma GetByRegToken_put:
  assumes "ms_ok m" "mget (ms_tasks m) (t_ID (h r)) = None"
  shows "GetByRegToken tok (PutPending h r m) =
    (if tok = t_RegToken (h r) then Some r else GetByRegToken tok m)"
  using fresh_index [OF assms] by (auto simp: GetByRegToken_def PutPending_def split: option.splits)

lemma GetByRegToken_consume:
  "GetByRegToken tok (fst (MarkRegTokenConsumed t m)) = (if tok = t then None else GetByRegToken tok m)"
  by (auto simp: GetByRegToken_def MarkRegTokenConsumed_def split: option.splits)

lemma GetByRegToken_fold_remove:
  assumes "store_wf h m"
  shows "GetByRegToken tok (fold removeLocked ids m) =
    (case GetByRegToken tok m of None \<Rightarrow> None | Some r \<Rightarrow> if t_ID (h r) \<in> set ids then None else Some r)"
  using store_wfD [OF assms]
  by (auto simp: GetByRegToken_def fold_removeLocked_lookup split: option.splits)

lemma GetByRegToken_remove:
  assumes "store_wf h m"
  shows "GetByRegToken tok (Remove i m) =
    (case GetByRegToken tok m of None \<Rightarrow> None | Some r \<Rightarrow> if t_ID (h r) = i then None else Some r)"
  using GetByRegToken_fold_remove [OF assms, of tok "[i]"]
  by (auto simp: Remove_def split: option.splits)

lemma GetByRegToken_GC:
  assumes "store_wf h m"
  shows "GetByRegToken tok (GC h now m) =
    (case GetByRegToken tok m of None \<Rightarrow> None | Some r \<Rightarrow> if gc_due now (h r) then None else Some r)"
proof (cases "GetByRegToken tok m")
  case None
  then show ?thesis by (simp add: GC_def gc_remove_def GetByRegToken_fold_remove [OF assms])
next
  case (Some r)
  then obtain i where i: "mget (ms_tasks m) i = Some r" by (auto simp: GetByRegToken_Some)
  then have "t_ID (h r) = i" using store_wfD(2) [OF assms] by blast
  then have "t_ID (h r) \<in> set (gc_candidates h now m) \<longleftrightarrow> gc_due now (h r)"
    using i by (auto simp: gc_candidates_iff [OF store_wfD(1) [OF assms]])
  with Some show ?thesis by (simp add: GC_def gc_remove_def GetByRegToken_fold_remove [OF assms])
qed

text \<open>A run in which every stored task has an id that no other stored task has at that moment.\<close>

fun fresh_puts :: "theap \<Rightarrow> store_ev list \<Rightarrow> MemStore \<Rightarrow> bool" where
  "fresh_puts h [] m = True"
| "fresh_puts h (x # xs) m =
     ((case x of EvPut r \<Rightarrow> mget (ms_tasks m) (t_ID (h r)) = None | _ \<Rightarrow> True)
      \<and> fresh_puts h xs (store_step h x m))"

lemma store_run_wf: "store_wf h m \<Longrightarrow> fresh_puts h xs m \<Longrightarrow> store_wf h (store_run h xs m)"
proof (induction xs arbitrary: m)
  case Nil
  then show ?case by simp
next
  case (Cons x xs)
  have "store_wf h (store_step h x m)"
    using Cons.prems
    by (cases x) (auto intro: store_wf_put store_wf_consume store_wf_remove store_wf_reap)
  with Cons show ?case by simp
qed

lemma NewMemStore_wf [simp]: "store_wf h NewMemStore"
  using NewMemStore_ok by (simp add: store_wf_def) (simp add: NewMemStore_def)

lemma CountActive_card:
  assumes "ms_ok m"
  shows "CountActive h m = card {i. \<exists>r. mget (ms_tasks m) i = Some r \<and> Status (h r) \<noteq> StatusTerminal}"
proof -
  let ?xs = "filter (\<lambda>(i, r). Status (h r) \<noteq> StatusTerminal) (ms_tasks m)"
  have ok: "gomap_ok (ms_tasks m)" using assms by (rule ms_okD)
  then have "distinct (map fst ?xs)"
    using gomap_ok_filter unfolding gomap_ok_def mkeys_def by blast
  then have "card (set (map fst ?xs)) = length (map fst ?xs)" by (rule distinct_card)
  moreover have "set (map fst ?xs) = {i. \<exists>r. mget (ms_tasks m) i = Some r \<and> Status (h r) \<noteq> StatusTerminal}"
    by (force simp: mget_Some_iff [OF ok])
  ultimately show ?thesis by (simp add: CountActive_def)
qed

lemma CountActive_0:
  assumes "ms_ok m"
  shows "CountActive h m = 0 \<longleftrightarrow> (\<forall>i r. mget (ms_tasks m) i = Some r \<longrightarrow> Status (h r) = StatusTerminal)"
  using mget_Some_iff [OF ms_okD(1) [OF assms]]
  by (fastforce simp: CountActive_def filter_empty_conv)

section \<open>Properties\<close>

text \<open>The lifecycle signals are sticky and idempotent under any interleaving of the context's
  methods: \<open>Done\<close> has fired exactly when \<open>MarkDone\<close> ran at some point, \<open>Registered\<close> exactly
  when \<open>MarkRunnerRegistered\<close> did, however often and in whatever order, nothing re-opens
  them, and the immutable fields never change.\<close>

theorem signals_sticky:
  "(done_fired (ctx_run ops t) \<longleftrightarrow> done_fired t \<or> OpMarkDone \<in> set ops)
   \<and> (registered_fired (ctx_run ops t) \<longleftrightarrow> registered_fired t \<or> OpMarkRunnerRegistered \<in> set ops)
   \<and> ctx_step OpMarkDone (ctx_step OpMarkDone t) = ctx_step OpMarkDone t
   \<and> ctx_step OpMarkRunnerRegistered (ctx_step OpMarkRunnerRegistered t) = ctx_step OpMarkRunnerRegistered t
   \<and> same_task (ctx_run ops t) t"
  using ctx_run_signals [of ops t] by (simp add: taskctx_defs)

text \<open>C14: A registration token is single-use. In any interleaving of store operations on a fresh
  store, a token is consumed successfully at most as often as a task was stored with it; with
  freshly generated tokens, at most once.\<close>

theorem token_single_use:
  "wins tok h xs NewMemStore \<le> puts tok h xs"
proof -
  have "mem_store.credit tok NewMemStore = 0"
    by (simp add: mem_store.credit_def NewMemStore_def)
  then show ?thesis using wins_bound [of NewMemStore tok h xs] by simp
qed

text \<open>The secondary index never dangles: after any run of store operations from an empty
  store both maps have distinct keys and every indexed token names a stored task, so a lookup
  fails only for tokens that are not indexed (the second not-found branch of
  \<open>GetByRegToken\<close> is never taken).\<close>

theorem index_never_dangles:
  "ms_ok (store_run h xs NewMemStore)
   \<and> (GetByRegToken tok (store_run h xs NewMemStore) = None
      \<longleftrightarrow> mget (ms_byReg (store_run h xs NewMemStore)) tok = None)"
  using store_run_ok [OF NewMemStore_ok] GetByRegToken_index by blast

section \<open>The abstract store\<close>

text \<open>
  What \<^verbatim>\<open>TaskStore\<close> promises, without the secondary index: the tasks by id, and the tasks that a
  token still leads to. Consuming a token or removing its task ends the token for good; nothing
  but a put of a task with exactly this token makes it live again.
\<close>

record token_map =
  tm_stored :: "int \<Rightarrow> tref option"
  tm_live :: "string \<Rightarrow> tref option"

definition tm_empty :: token_map where
  "tm_empty = \<lparr>tm_stored = (\<lambda>_. None), tm_live = (\<lambda>_. None)\<rparr>"

definition tm_drop :: "theap \<Rightarrow> int set \<Rightarrow> token_map \<Rightarrow> token_map" where
  "tm_drop h ids a =
     \<lparr>tm_stored = (\<lambda>i. if i \<in> ids then None else tm_stored a i),
      tm_live = (\<lambda>tok. Option.bind (tm_live a tok) (\<lambda>r. if t_ID (h r) \<in> ids then None else Some r))\<rparr>"

fun tm_step :: "theap \<Rightarrow> store_ev \<Rightarrow> token_map \<Rightarrow> token_map" where
  "tm_step h (EvPut r) a =
     \<lparr>tm_stored = (tm_stored a)(t_ID (h r) := Some r), tm_live = (tm_live a)(t_RegToken (h r) := Some r)\<rparr>"
| "tm_step h (EvConsume tok) a = a\<lparr>tm_live := (tm_live a)(tok := None)\<rparr>"
| "tm_step h (EvRemove i) a = tm_drop h {i} a"
| "tm_step h (EvReap ids) a = tm_drop h (set ids) a"

fun tm_run :: "theap \<Rightarrow> store_ev list \<Rightarrow> token_map \<Rightarrow> token_map" where
  "tm_run h [] a = a"
| "tm_run h (x # xs) a = tm_run h xs (tm_step h x a)"

text \<open>Every task is stored under an id that no task stored at that moment has.\<close>

fun tm_fresh :: "theap \<Rightarrow> store_ev list \<Rightarrow> token_map \<Rightarrow> bool" where
  "tm_fresh h [] a = True"
| "tm_fresh h (x # xs) a =
     ((case x of EvPut r \<Rightarrow> tm_stored a (t_ID (h r)) = None | _ \<Rightarrow> True) \<and> tm_fresh h xs (tm_step h x a))"

definition tm_abs :: "MemStore \<Rightarrow> token_map" where
  "tm_abs m = \<lparr>tm_stored = mget (ms_tasks m), tm_live = (\<lambda>tok. GetByRegToken tok m)\<rparr>"

lemma tm_abs_New: "tm_abs NewMemStore = tm_empty"
  by (simp add: tm_abs_def tm_empty_def NewMemStore_def GetByRegToken_def fun_eq_iff)

lemma tm_abs_fold_remove:
  "store_wf h m \<Longrightarrow> tm_abs (fold removeLocked ids m) = tm_drop h (set ids) (tm_abs m)"
  by (auto simp: tm_abs_def tm_drop_def fun_eq_iff fold_removeLocked_lookup [OF store_wfD(1)]
      GetByRegToken_fold_remove split: option.splits)

lemma tm_abs_step:
  assumes "store_wf h m" "\<And>r. x = EvPut r \<Longrightarrow> mget (ms_tasks m) (t_ID (h r)) = None"
  shows "tm_abs (store_step h x m) = tm_step h x (tm_abs m)"
proof (cases x)
  case (EvPut r)
  then show ?thesis
    using GetByRegToken_put [where r = r and h = h, OF store_wfD(1) [OF assms(1)] assms(2) [OF EvPut]]
    by (auto simp: tm_abs_def PutPending_def fun_eq_iff)
next
  case (EvConsume tok)
  moreover have "ms_tasks (fst (MarkRegTokenConsumed tok m)) = ms_tasks m"
    by (simp add: MarkRegTokenConsumed_def split: option.splits)
  ultimately show ?thesis by (auto simp: tm_abs_def GetByRegToken_consume fun_eq_iff)
next
  case (EvRemove i)
  then show ?thesis using tm_abs_fold_remove [OF assms(1), of "[i]"] by (simp add: Remove_def)
next
  case (EvReap ids)
  then show ?thesis using tm_abs_fold_remove [OF assms(1)] by (simp add: gc_remove_def)
qed

lemma tm_abs_run:
  assumes "store_wf h m" "tm_fresh h xs (tm_abs m)"
  shows "store_wf h (store_run h xs m) \<and> tm_abs (store_run h xs m) = tm_run h xs (tm_abs m)"
  using assms
proof (induction xs arbitrary: m)
  case Nil
  then show ?case by simp
next
  case (Cons x xs)
  have f: "mget (ms_tasks m) (t_ID (h r)) = None" if "x = EvPut r" for r
    using Cons.prems(2) that by (simp add: tm_abs_def)
  have e: "tm_abs (store_step h x m) = tm_step h x (tm_abs m)"
    using Cons.prems(1) f by (rule tm_abs_step)
  have "store_wf h (store_step h x m)"
    using Cons.prems(1) f
    by (cases x) (auto intro: store_wf_put store_wf_consume store_wf_remove store_wf_reap)
  with Cons.IH [of "store_step h x m"] Cons.prems(2) show ?case by (simp add: e)
qed

text \<open>Statuses change while tasks are stored: only the immutable fields of the heap matter.\<close>

lemma store_wf_same_task:
  "store_wf h m \<Longrightarrow> (\<And>r. same_task (h' r) (h r)) \<Longrightarrow> store_wf h' m"
  by (simp add: store_wf_def same_task_def)

lemma tm_abs_GC:
  assumes "store_wf h m"
  shows "tm_abs (GC h now m)
    = \<lparr>tm_stored = (\<lambda>i. Option.bind (tm_stored (tm_abs m) i) (\<lambda>r. if gc_due now (h r) then None else Some r)),
       tm_live = (\<lambda>tok. Option.bind (tm_live (tm_abs m) tok) (\<lambda>r. if gc_due now (h r) then None else Some r))\<rparr>"
proof -
  note ok = store_wfD(1) [OF assms]
  have "mget (ms_tasks (GC h now m)) i =
      Option.bind (mget (ms_tasks m) i) (\<lambda>r. if gc_due now (h r) then None else Some r)" for i
    by (cases "mget (ms_tasks m) i")
      (simp_all add: GC_def gc_remove_def fold_removeLocked_lookup [OF ok] gc_candidates_iff [OF ok])
  then show ?thesis
    by (auto simp: tm_abs_def fun_eq_iff GetByRegToken_GC [OF assms] split: option.splits)
qed

text \<open>C15: The store refines a map from live tokens to tasks. Run any sequence of operations on a new
  store and on the abstract store, every task stored under an id that no stored task has at that
  moment (no put may reuse the id of a task that is still there; reusing it after a removal is
  fine). Then the two agree: on which task every token leads to and on which task every id has, on
  the answer of a consume, on what a GC pass removes, whatever the statuses of the tasks are by
  then, and on the number of active tasks.\<close>

theorem store_refines_token_map:
  assumes "tm_fresh h xs tm_empty" and "\<And>r. same_task (h' r) (h r)"
  shows "let m = store_run h xs NewMemStore; a = tm_run h xs tm_empty in
      GetByRegToken tok m = tm_live a tok
    \<and> mget (ms_tasks m) i = tm_stored a i
    \<and> (snd (MarkRegTokenConsumed tok m) \<longleftrightarrow> tm_live a tok \<noteq> None)
    \<and> mget (ms_tasks (GC h' now m)) i =
        Option.bind (tm_stored a i) (\<lambda>r. if gc_due now (h' r) then None else Some r)
    \<and> GetByRegToken tok (GC h' now m) =
        Option.bind (tm_live a tok) (\<lambda>r. if gc_due now (h' r) then None else Some r)
    \<and> CountActive h' m = card {i. \<exists>r. tm_stored a i = Some r \<and> Status (h' r) \<noteq> StatusTerminal}"
proof -
  define m a where "m = store_run h xs NewMemStore" and "a = tm_run h xs tm_empty"
  have wf: "store_wf h m" and abs: "tm_abs m = a"
    using tm_abs_run [OF NewMemStore_wf, of h xs] assms(1) by (simp_all add: m_def a_def tm_abs_New)
  have live: "GetByRegToken t m = tm_live a t" and stored: "mget (ms_tasks m) j = tm_stored a j" for t j
    using abs by (auto simp: tm_abs_def)
  note ok = store_wfD(1) [OF wf]
  have "snd (MarkRegTokenConsumed tok m) \<longleftrightarrow> tm_live a tok \<noteq> None"
    using mem_store.consume_result [OF ok] GetByRegToken_index [OF ok] live by simp
  moreover have "tm_abs (GC h' now m)
    = \<lparr>tm_stored = (\<lambda>i. Option.bind (tm_stored a i) (\<lambda>r. if gc_due now (h' r) then None else Some r)),
       tm_live = (\<lambda>tok. Option.bind (tm_live a tok) (\<lambda>r. if gc_due now (h' r) then None else Some r))\<rparr>"
    using tm_abs_GC [OF store_wf_same_task [OF wf assms(2)]] abs by simp
  then have "mget (ms_tasks (GC h' now m)) i =
      Option.bind (tm_stored a i) (\<lambda>r. if gc_due now (h' r) then None else Some r)"
    "GetByRegToken tok (GC h' now m) =
      Option.bind (tm_live a tok) (\<lambda>r. if gc_due now (h' r) then None else Some r)"
    by (auto simp: tm_abs_def dest: fun_cong)
  moreover have "CountActive h' m = card {i. \<exists>r. tm_stored a i = Some r \<and> Status (h' r) \<noteq> StatusTerminal}"
    using CountActive_card [OF ok] by (simp add: stored)
  ultimately show ?thesis
    unfolding Let_def m_def [symmetric] a_def [symmetric] by (simp add: live stored)
qed

definition example_task :: v1_Task where
  "example_task = \<lparr>vt_Id = 42, vt_WorkflowPayload = [], vt_Context = None, vt_Secrets = [], vt_rest = []\<rparr>"

definition example_ctx :: "string \<Rightarrow> string \<Rightarrow> TaskCtx" where
  "example_ctx inst tok = \<lparr>t_ID = 42, t_Instance = inst, t_Task = example_task, t_RegToken = tok,
     t_RegTokenTTL = 10, t_CreatedAt = 0, t_status = StatusPending, t_sessionToken = [],
     t_done = None, t_registered = None\<rparr>"

definition example_heap :: theap where
  "example_heap r = (if r = 0 then example_ctx ''forgejo-a'' ''tok-a'' else example_ctx ''forgejo-b'' ''tok-b'')"

text \<open>The id of a removed task is used again: the token of the removed task stays dead, the token
  of the new task works, and a GC pass in time removes the task while it is Pending.\<close>

theorem store_refines_token_map_witness:
  "let m = store_run example_heap [EvPut 0, EvRemove 42, EvPut 1] NewMemStore
   in GetByRegToken ''tok-a'' m = None \<and> GetByRegToken ''tok-b'' m = Some 1
      \<and> snd (MarkRegTokenConsumed ''tok-b'' m) \<and> \<not> snd (MarkRegTokenConsumed ''tok-a'' m)
      \<and> GetByRegToken ''tok-b'' (GC example_heap 11 m) = None
      \<and> GetByRegToken ''tok-b'' (GC (\<lambda>r. MarkDispatched (example_heap r)) 11 m) = Some 1"
proof -
  let ?xs = "[EvPut 0, EvRemove 42, EvPut 1]"
  have f: "tm_fresh example_heap ?xs tm_empty"
    by (simp add: tm_empty_def tm_drop_def example_heap_def example_ctx_def)
  define m a where "m = store_run example_heap ?xs NewMemStore" and "a = tm_run example_heap ?xs tm_empty"
  have live: "tm_live a = [''tok-b'' \<mapsto> 1]"
    by (simp add: a_def tm_empty_def tm_drop_def example_heap_def example_ctx_def fun_eq_iff)
  have h: "same_task (example_heap r) (example_heap r)"
    "same_task (MarkDispatched (example_heap r)) (example_heap r)" for r
    by (simp_all add: same_task_def MarkDispatched_def)
  have due: "gc_due 11 (example_heap 1)" "\<not> gc_due 11 (MarkDispatched (example_heap 1))"
    by (simp_all add: gc_due_def Status_def example_heap_def example_ctx_def time_sub_def sat64_def
        int64_min_def int64_max_def MarkDispatched_def)
  show ?thesis
    using store_refines_token_map [OF f h(1), of "''tok-a''" 0 11, unfolded Let_def, folded m_def a_def]
      store_refines_token_map [OF f h(1), of "''tok-b''" 0 11, unfolded Let_def, folded m_def a_def]
      store_refines_token_map [OF f h(2), of "''tok-b''" 0 11, unfolded Let_def, folded m_def a_def]
      live due
    unfolding Let_def m_def [symmetric] by simp
qed

text \<open>Token routing is right when ids do not collide: in any run in which every task is
  stored under an id no stored task has, a token leads to the task that carries exactly this
  registration token.\<close>

theorem token_routes_to_own_task:
  assumes "fresh_puts h xs NewMemStore"
    and "GetByRegToken tok (store_run h xs NewMemStore) = Some r"
  shows "t_RegToken (h r) = tok \<and> mget (ms_tasks (store_run h xs NewMemStore)) (t_ID (h r)) = Some r"
proof -
  have wf: "store_wf h (store_run h xs NewMemStore)"
    using assms(1) by (intro store_run_wf NewMemStore_wf)
  from assms(2) obtain i where
    "mget (ms_byReg (store_run h xs NewMemStore)) tok = Some i"
    "mget (ms_tasks (store_run h xs NewMemStore)) i = Some r"
    by (auto simp: GetByRegToken_Some)
  then show ?thesis using store_wfD(2,3) [OF wf] by blast
qed

theorem token_routes_to_own_task_witness:
  "t_RegToken (example_heap 0) = ''tok-a''"
proof -
  have f: "fresh_puts example_heap [EvPut 0] NewMemStore"
    by (simp add: NewMemStore_def)
  have g: "GetByRegToken ''tok-a'' (store_run example_heap [EvPut 0] NewMemStore) = Some 0"
    by (simp add: GetByRegToken_def PutPending_def NewMemStore_def example_heap_def example_ctx_def)
  show ?thesis using token_routes_to_own_task [OF f g] by blast
qed

text \<open>C40: Task ids of different Forgejo instances are kept in one map. When two instances hand out
  the same task id while the first task is still stored, the first task's registration token
  leads to the other instance's task, and removing the first task by its id drops the second
  one as well: its token is dead although it was never used.\<close>

theorem cross_instance_collision:
  assumes "ms_ok m" and "t_ID (h a) = t_ID (h b)" and "t_Instance (h a) \<noteq> t_Instance (h b)"
  shows "GetByRegToken (t_RegToken (h a)) (PutPending h b (PutPending h a m)) = Some b
    \<and> (\<exists>r. GetByRegToken (t_RegToken (h a)) (PutPending h b (PutPending h a m)) = Some r
          \<and> t_Instance (h r) \<noteq> t_Instance (h a))
    \<and> GetByRegToken (t_RegToken (h b)) (Remove (t_ID (h a)) (PutPending h b (PutPending h a m))) = None"
proof -
  let ?m = "PutPending h b (PutPending h a m)"
  have ok: "ms_ok ?m" using assms(1) by simp
  have a: "GetByRegToken (t_RegToken (h a)) ?m = Some b"
    using assms(2) by (simp add: GetByRegToken_def PutPending_def)
  have "mget (ms_byReg ?m) (t_RegToken (h b)) = Some (t_ID (h a))"
    using assms(2) by (simp add: PutPending_def)
  then have "GetByRegToken (t_RegToken (h b)) (Remove (t_ID (h a)) ?m) = None"
    by (simp add: GetByRegToken_def Remove_def removeLocked_lookup [OF ok])
  with a assms(3) show ?thesis by auto
qed

theorem cross_instance_collision_witness:
  "GetByRegToken ''tok-a'' (PutPending example_heap 1 (PutPending example_heap 0 NewMemStore)) = Some 1
   \<and> t_Instance (example_heap 1) = ''forgejo-b''"
proof -
  have e: "t_ID (example_heap 0) = t_ID (example_heap 1)"
    "t_Instance (example_heap 0) \<noteq> t_Instance (example_heap 1)"
    "t_RegToken (example_heap 0) = ''tok-a''" "t_Instance (example_heap 1) = ''forgejo-b''"
    by (simp_all add: example_heap_def example_ctx_def)
  show ?thesis
    using cross_instance_collision [OF NewMemStore_ok e(1,2)] e(3,4) by simp
qed

text \<open>A GC pass removes exactly the Pending tasks whose token has outlived its own TTL, together
  with their index entries, and nothing else, whatever the iteration order of the maps.\<close>

theorem GC_exact:
  assumes "ms_ok m"
    and "mset (ms_tasks m') = mset (ms_tasks m)" and "ms_byReg m' = ms_byReg m"
  shows "mget (ms_tasks (GC h now m')) i =
      Option.bind (mget (ms_tasks m) i) (\<lambda>r. if gc_due now (h r) then None else Some r)
    \<and> mget (ms_byReg (GC h now m')) tok =
      Option.bind (mget (ms_byReg m) tok)
        (\<lambda>i. if \<exists>r. mget (ms_tasks m) i = Some r \<and> gc_due now (h r) then None else Some i)
    \<and> ms_ok (GC h now m')"
proof -
  have g: "mget (ms_tasks m') i = mget (ms_tasks m) i" for i
    using mget_perm [OF ms_okD(1) [OF assms(1)]] assms(2) by metis
  have "mset (mkeys (ms_tasks m')) = mset (mkeys (ms_tasks m))"
    using assms(2) by (simp add: mkeys_def)
  then have "gomap_ok (ms_tasks m')"
    using ms_okD(1) [OF assms(1)] mset_eq_imp_distinct_iff unfolding gomap_ok_def by blast
  then have ok: "ms_ok m'" using assms(1,3) g by (simp add: ms_ok_def)
  have "mget (ms_tasks (GC h now m')) i =
      Option.bind (mget (ms_tasks m) i) (\<lambda>r. if gc_due now (h r) then None else Some r)"
    by (cases "mget (ms_tasks m) i") (simp_all add: GC_def gc_remove_def fold_removeLocked_lookup [OF ok] gc_candidates_iff [OF ok] g)
  moreover have "mget (ms_byReg (GC h now m')) tok =
      Option.bind (mget (ms_byReg m) tok)
        (\<lambda>i. if \<exists>r. mget (ms_tasks m) i = Some r \<and> gc_due now (h r) then None else Some i)"
    by (cases "mget (ms_byReg m) tok")
      (simp_all add: GC_def gc_remove_def fold_removeLocked_lookup [OF ok] gc_candidates_iff [OF ok] g assms(3))
  ultimately show ?thesis using GC_ok [OF ok] by blast
qed

theorem GC_exact_witness:
  "mget (ms_tasks (GC example_heap 11 (PutPending example_heap 0 NewMemStore))) 42 = None
   \<and> mget (ms_tasks (GC example_heap 10 (PutPending example_heap 0 NewMemStore))) 42 = Some 0"
proof -
  let ?m = "PutPending example_heap 0 NewMemStore"
  have ok: "ms_ok ?m" by simp
  have "mget (ms_tasks ?m) 42 = Some 0"
    by (simp add: PutPending_def example_heap_def example_ctx_def)
  moreover have "gc_due 11 (example_heap 0)" "\<not> gc_due 10 (example_heap 0)"
    by (simp_all add: gc_due_def Status_def example_heap_def example_ctx_def time_sub_def sat64_def
        int64_min_def int64_max_def)
  ultimately show ?thesis
    using GC_exact [OF ok refl refl, of example_heap 11 42] GC_exact [OF ok refl refl, of example_heap 10 42]
    by simp
qed

end
