(* ===== verification/Session_Manager.thy ===== *)
theory Session_Manager
  imports Task_Store Token_Gen
begin

text \<open>
  Sessions of the internal runners (\<^verbatim>\<open>internal/session/manager.go\<close>).

  A session is handed out by pointer, and the handler writes its name and labels through that
  pointer, so session objects live in a heap of their own (\<open>sm_objs\<close>, addresses below
  \<open>sm_next\<close> are allocated); the manager's map holds addresses. An object stays in the heap
  after its session was removed from the map. \<^verbatim>\<open>time.Now()\<close> is an argument.
\<close>

section \<open>Data\<close>

type_synonym sref = nat

record Session =
  s_SessionToken :: string
  s_TaskCtx :: tref
  s_RunnerName :: string
  s_Labels :: "string list"
  s_LastActivity :: time

record Manager =
  sm_sessions :: "(string, sref) gomap"
  sm_objs :: "sref \<Rightarrow> Session"
  sm_next :: sref

definition zero_Session :: Session where
  "zero_Session = \<lparr>s_SessionToken = [], s_TaskCtx = 0, s_RunnerName = [], s_Labels = [],
     s_LastActivity = 0\<rparr>"

definition NewManager :: Manager where
  "NewManager = \<lparr>sm_sessions = [], sm_objs = (\<lambda>_. zero_Session), sm_next = 0\<rparr>"

section \<open>Operations\<close>

text \<open>The new session is published in the map first, then its token is noted in the task.\<close>

definition PublishSession :: "time \<Rightarrow> tref \<Rightarrow> string \<Rightarrow> string \<Rightarrow> string list \<Rightarrow> Manager \<Rightarrow> Manager \<times> sref" where
  "PublishSession now taskCtx sessionToken runnerName labels m =
     (let r = sm_next m;
          session = \<lparr>s_SessionToken = sessionToken, s_TaskCtx = taskCtx, s_RunnerName = runnerName,
            s_Labels = labels, s_LastActivity = now\<rparr>
      in (m\<lparr>sm_sessions := mput sessionToken r (sm_sessions m),
            sm_objs := (sm_objs m)(r := session), sm_next := Suc r\<rparr>, r))"

definition CreateWithToken :: "time \<Rightarrow> tref \<Rightarrow> string \<Rightarrow> string \<Rightarrow> string list \<Rightarrow>
    Manager \<times> theap \<Rightarrow> (Manager \<times> theap) \<times> sref" where
  "CreateWithToken now taskCtx sessionToken runnerName labels mh =
     (let (m, h) = mh;
          (m', r) = PublishSession now taskCtx sessionToken runnerName labels m
      in ((m', modify taskCtx (SetSessionToken sessionToken) h), r))"

text \<open>\<open>Create\<close> panics when no random bytes can be read (\<open>Inl\<close>).\<close>

definition Create :: "entropy \<Rightarrow> time \<Rightarrow> tref \<Rightarrow> string \<Rightarrow> string list \<Rightarrow>
    Manager \<times> theap \<Rightarrow> token_err + (Manager \<times> theap) \<times> sref" where
  "Create rnd now taskCtx runnerName labels mh =
     (case GenerateBytes rnd 16 of
        Inl e \<Rightarrow> Inl e
      | Inr raw \<Rightarrow> Inr (CreateWithToken now taskCtx (hex_encode raw) runnerName labels mh))"

definition Lookup :: "string \<Rightarrow> Manager \<Rightarrow> sref option" where
  "Lookup sessionToken m = mget (sm_sessions m) sessionToken"

definition Touch :: "time \<Rightarrow> string \<Rightarrow> Manager \<Rightarrow> Manager \<times> bool" where
  "Touch now sessionToken m =
     (case mget (sm_sessions m) sessionToken of
        None \<Rightarrow> (m, False)
      | Some r \<Rightarrow> (m\<lparr>sm_objs := (sm_objs m)(r := (sm_objs m r)\<lparr>s_LastActivity := now\<rparr>)\<rparr>, True))"

definition Remove_session :: "string \<Rightarrow> Manager \<Rightarrow> Manager" where
  "Remove_session sessionToken m = m\<lparr>sm_sessions := mdel sessionToken (sm_sessions m)\<rparr>"

definition expire_due :: "time \<Rightarrow> duration \<Rightarrow> Session \<Rightarrow> bool" where
  "expire_due now maxAge s \<longleftrightarrow> time_sub now (s_LastActivity s) > maxAge"

definition Expire :: "time \<Rightarrow> duration \<Rightarrow> Manager \<Rightarrow> Manager \<times> sref list" where
  "Expire now maxAge m =
     (let due = (\<lambda>token r. expire_due now maxAge (sm_objs m r)) in
      (m\<lparr>sm_sessions := mdel_where due (sm_sessions m)\<rparr>,
       map snd (filter (\<lambda>(token, r). due token r) (sm_sessions m))))"

section \<open>Invariant\<close>

text \<open>Every key of the map is the token of the session it leads to.\<close>

definition sm_ok :: "Manager \<Rightarrow> bool" where
  "sm_ok m \<longleftrightarrow> gomap_ok (sm_sessions m)
     \<and> (\<forall>tok r. mget (sm_sessions m) tok = Some r \<longrightarrow>
          r < sm_next m \<and> s_SessionToken (sm_objs m r) = tok)"

lemma sm_okD:
  assumes "sm_ok m"
  shows "gomap_ok (sm_sessions m)"
    "mget (sm_sessions m) tok = Some r \<Longrightarrow> r < sm_next m"
    "mget (sm_sessions m) tok = Some r \<Longrightarrow> s_SessionToken (sm_objs m r) = tok"
  using assms unfolding sm_ok_def by blast+

lemma NewManager_ok [simp]: "sm_ok NewManager"
  by (simp add: sm_ok_def NewManager_def)

lemma PublishSession_simps:
  "sm_sessions (fst (PublishSession now t tok n ls m)) = mput tok (sm_next m) (sm_sessions m)"
  "sm_objs (fst (PublishSession now t tok n ls m)) = (sm_objs m)(sm_next m :=
     \<lparr>s_SessionToken = tok, s_TaskCtx = t, s_RunnerName = n, s_Labels = ls, s_LastActivity = now\<rparr>)"
  "sm_next (fst (PublishSession now t tok n ls m)) = Suc (sm_next m)"
  "snd (PublishSession now t tok n ls m) = sm_next m"
  by (simp_all add: PublishSession_def Let_def)

lemma CreateWithToken_publish:
  "fst (fst (CreateWithToken now t tok n ls (m, h))) = fst (PublishSession now t tok n ls m)"
  by (simp add: CreateWithToken_def split_beta)

lemma CreateWithToken_simps:
  "sm_sessions (fst (fst (CreateWithToken now t tok n ls (m, h)))) = mput tok (sm_next m) (sm_sessions m)"
  "sm_objs (fst (fst (CreateWithToken now t tok n ls (m, h)))) = (sm_objs m)(sm_next m :=
     \<lparr>s_SessionToken = tok, s_TaskCtx = t, s_RunnerName = n, s_Labels = ls, s_LastActivity = now\<rparr>)"
  "sm_next (fst (fst (CreateWithToken now t tok n ls (m, h)))) = Suc (sm_next m)"
  "snd (fst (CreateWithToken now t tok n ls (m, h))) = modify t (SetSessionToken tok) h"
  "snd (CreateWithToken now t tok n ls (m, h)) = sm_next m"
  by (simp_all add: CreateWithToken_def PublishSession_simps split_beta)

lemma CreateWithToken_ok:
  assumes "sm_ok m"
  shows "sm_ok (fst (fst (CreateWithToken now t tok n ls (m, h))))"
proof -
  have "r < Suc (sm_next m) \<and> r \<noteq> sm_next m" if "mget (sm_sessions m) k = Some r" for k r
    using sm_okD(2) [OF assms that] by simp
  then show ?thesis
    using sm_okD(1) [OF assms] sm_okD(3) [OF assms]
    by (auto simp: sm_ok_def CreateWithToken_simps)
qed

lemma session_token_nonempty:
  assumes "GenerateBytes rnd 16 = Inr raw"
  shows "hex_encode raw \<noteq> []"
proof -
  have "length (hex_encode raw) = 32" using GenerateBytes_length [OF assms] by simp
  then show ?thesis by (metis length_0_conv zero_neq_numeral)
qed

lemma Touch_ok [simp]: "sm_ok m \<Longrightarrow> sm_ok (fst (Touch now tok m))"
  by (auto simp: sm_ok_def Touch_def split: option.splits)

lemma Remove_session_ok [simp]: "sm_ok m \<Longrightarrow> sm_ok (Remove_session tok m)"
  by (auto simp: sm_ok_def Remove_session_def)

lemma Expire_lookup:
  assumes "sm_ok m"
  shows "Lookup tok (fst (Expire now maxAge m)) = Option.bind (Lookup tok m)
    (\<lambda>r. if expire_due now maxAge (sm_objs m r) then None else Some r)"
  using sm_okD(1) [OF assms]
  by (simp add: Lookup_def Expire_def Let_def mget_mdel_where split: option.split Option.bind_split)

lemma Expire_objs [simp]: "sm_objs (fst (Expire now maxAge m)) = sm_objs m"
  "sm_next (fst (Expire now maxAge m)) = sm_next m"
  by (simp_all add: Expire_def Let_def)

lemma Expire_ok [simp]:
  assumes "sm_ok m"
  shows "sm_ok (fst (Expire now maxAge m))"
proof -
  have "mget (sm_sessions m) tok = Some r"
    if "mget (sm_sessions (fst (Expire now maxAge m))) tok = Some r" for tok r
    using that Expire_lookup [OF assms, of tok now maxAge]
    by (cases "mget (sm_sessions m) tok") (auto simp: Lookup_def split: if_splits)
  moreover have "gomap_ok (sm_sessions (fst (Expire now maxAge m)))"
    using sm_okD(1) [OF assms] by (simp add: Expire_def Let_def)
  ultimately show ?thesis using sm_okD(2,3) [OF assms] unfolding sm_ok_def Expire_objs by metis
qed

lemma Expire_returned:
  assumes "sm_ok m"
  shows "r \<in> set (snd (Expire now maxAge m)) \<longleftrightarrow>
    (\<exists>tok. Lookup tok m = Some r) \<and> expire_due now maxAge (sm_objs m r)"
  using mget_Some_iff [OF sm_okD(1) [OF assms]]
  by (force simp: Expire_def Let_def Lookup_def)

lemma sessions_inj:
  assumes "sm_ok m" "Lookup a m = Some r" "Lookup b m = Some r"
  shows "a = b"
  using sm_okD(3) [OF assms(1)] assms(2,3) by (metis Lookup_def)

lemma sm_refs_distinct:
  assumes "sm_ok m"
  shows "distinct (map snd (sm_sessions m))"
proof -
  have "inj_on snd (set (sm_sessions m))"
  proof (rule inj_onI)
    fix x y assume "x \<in> set (sm_sessions m)" "y \<in> set (sm_sessions m)" "snd x = snd y"
    then show "x = y"
      using sessions_inj [OF assms] mget_Some_iff [OF sm_okD(1) [OF assms]]
      by (metis Lookup_def prod.collapse)
  qed
  moreover have "distinct (sm_sessions m)"
    using sm_okD(1) [OF assms] by (simp add: gomap_ok_def mkeys_def distinct_map)
  ultimately show ?thesis by (simp add: distinct_map)
qed

section \<open>The contract of the session registry\<close>

text \<open>
  What the south server relies on. \<open>seen\<close> is the last activity of the session under a token;
  \<open>expire\<close> removes exactly the sessions that have been silent for longer than its bound.
\<close>

datatype sess_ev = SeTouch time string | SeRemove string | SeExpire time | SeCreate time string tref

locale session_registry =
  fixes invar :: "'s \<Rightarrow> bool" and lookup :: "string \<Rightarrow> 's \<Rightarrow> sref option"
    and seen :: "string \<Rightarrow> 's \<Rightarrow> time option"
    and create :: "time \<Rightarrow> tref \<Rightarrow> string \<Rightarrow> 's \<Rightarrow> 's"
    and touch :: "time \<Rightarrow> string \<Rightarrow> 's \<Rightarrow> 's" and remove :: "string \<Rightarrow> 's \<Rightarrow> 's"
    and expire :: "time \<Rightarrow> duration \<Rightarrow> 's \<Rightarrow> 's"
  assumes create_other: "invar s \<Longrightarrow> tok \<noteq> t \<Longrightarrow> lookup tok (create now c t s) = lookup tok s
      \<and> seen tok (create now c t s) = seen tok s"
    and create_own: "invar s \<Longrightarrow> lookup tok (create now c tok s) \<noteq> None
      \<and> seen tok (create now c tok s) = Some now"
    and touch_lookup: "invar s \<Longrightarrow> lookup tok (touch now t s) = lookup tok s"
    and touch_seen: "invar s \<Longrightarrow>
      seen tok (touch now t s) = (if tok = t \<and> lookup t s \<noteq> None then Some now else seen tok s)"
    and remove_lookup: "invar s \<Longrightarrow> lookup tok (remove t s) = (if tok = t then None else lookup tok s)"
    and remove_seen: "invar s \<Longrightarrow> tok \<noteq> t \<Longrightarrow> seen tok (remove t s) = seen tok s"
    and expire_keeps: "invar s \<Longrightarrow> seen tok s = Some l \<Longrightarrow> time_sub now l \<le> age \<Longrightarrow>
      lookup tok (expire now age s) = lookup tok s \<and> seen tok (expire now age s) = Some l"
    and expire_drops: "invar s \<Longrightarrow> seen tok s = Some l \<Longrightarrow> time_sub now l > age \<Longrightarrow>
      lookup tok (expire now age s) = None"
    and invar_create: "invar s \<Longrightarrow> invar (create now c t s)"
    and invar_touch: "invar s \<Longrightarrow> invar (touch now t s)"
    and invar_remove: "invar s \<Longrightarrow> invar (remove t s)"
    and invar_expire: "invar s \<Longrightarrow> invar (expire now age s)"
begin

primrec step :: "duration \<Rightarrow> sess_ev \<Rightarrow> 's \<Rightarrow> 's" where
  "step age (SeTouch now t) s = touch now t s"
| "step age (SeRemove t) s = remove t s"
| "step age (SeExpire now) s = expire now age s"
| "step age (SeCreate now t c) s = create now c t s"

lemma invar_step: "invar s \<Longrightarrow> invar (step age e s)"
  by (cases e) (simp_all add: invar_create invar_touch invar_remove invar_expire)

lemma invar_run: "invar s \<Longrightarrow> invar (fold (step age) es s)"
  by (induction es arbitrary: s) (simp_all add: invar_step)

end

text \<open>
  The session under \<open>tok\<close>, last active at \<open>l\<close>, is kept alive by a schedule of events: it is
  neither removed nor replaced, and whenever an expiry pass runs, the last touch is at most
  \<open>age\<close> ago.
\<close>

fun kept_alive :: "duration \<Rightarrow> string \<Rightarrow> time \<Rightarrow> sess_ev list \<Rightarrow> bool" where
  "kept_alive age tok l [] = True"
| "kept_alive age tok l (SeTouch now t # es) = kept_alive age tok (if t = tok then now else l) es"
| "kept_alive age tok l (SeRemove t # es) = (t \<noteq> tok \<and> kept_alive age tok l es)"
| "kept_alive age tok l (SeExpire now # es) = (now - l \<le> age \<and> kept_alive age tok l es)"
| "kept_alive age tok l (SeCreate now t c # es) = (t \<noteq> tok \<and> kept_alive age tok l es)"

context session_registry
begin

lemma kept_alive_survives:
  assumes "in_int64 age"
  shows "invar s \<Longrightarrow> lookup tok s = Some r \<Longrightarrow> seen tok s = Some l \<Longrightarrow> kept_alive age tok l es \<Longrightarrow>
    lookup tok (fold (step age) es s) = Some r"
proof (induction es arbitrary: s l)
  case Nil
  then show ?case by simp
next
  case (Cons e es)
  note I = Cons.IH [OF invar_step [OF Cons.prems(1), of age e]]
  show ?case
  proof (cases e)
    case (SeTouch now t)
    then show ?thesis
      using I [of "if t = tok then now else l"] Cons.prems
      by (auto simp: touch_lookup touch_seen)
  next
    case (SeRemove t)
    then show ?thesis using I [of l] Cons.prems by (auto simp: remove_lookup remove_seen)
  next
    case (SeExpire now)
    have "time_sub now l \<le> age"
      using Cons.prems(4) SeExpire by (simp add: time_sub_le [OF assms])
    then show ?thesis
      using I [of l] expire_keeps [OF Cons.prems(1,3)] Cons.prems SeExpire by simp
  next
    case (SeCreate now t c)
    then show ?thesis using I [of l] create_other [OF Cons.prems(1)] Cons.prems by auto
  qed
qed

end

definition seen_at :: "string \<Rightarrow> Manager \<Rightarrow> time option" where
  "seen_at tok m = map_option (\<lambda>r. s_LastActivity (sm_objs m r)) (Lookup tok m)"

definition create_session :: "time \<Rightarrow> tref \<Rightarrow> string \<Rightarrow> Manager \<Rightarrow> Manager" where
  "create_session now c tok m = fst (fst (CreateWithToken now c tok [] [] (m, \<lambda>_. undefined)))"

lemma Lookup_create: "Lookup tok (create_session now c t m) = (if tok = t then Some (sm_next m) else Lookup tok m)"
  by (simp add: Lookup_def create_session_def CreateWithToken_simps)

lemma Lookup_touch [simp]: "Lookup tok (fst (Touch now t m)) = Lookup tok m"
  by (simp add: Lookup_def Touch_def split: option.split)

lemma Lookup_remove [simp]: "Lookup tok (Remove_session t m) = (if tok = t then None else Lookup tok m)"
  by (simp add: Lookup_def Remove_session_def)

lemma seen_touch:
  assumes "sm_ok m"
  shows "seen_at tok (fst (Touch now t m)) =
    (if tok = t \<and> Lookup t m \<noteq> None then Some now else seen_at tok m)"
proof (cases "Lookup t m")
  case None
  then show ?thesis by (simp add: Touch_def Lookup_def)
next
  case (Some r)
  then have "Lookup tok m = Some r \<longleftrightarrow> tok = t" using sessions_inj [OF assms] by auto
  then show ?thesis
    using Some by (cases "Lookup tok m") (auto simp: Touch_def Lookup_def seen_at_def)
qed

interpretation sessions: session_registry sm_ok Lookup seen_at create_session
  "\<lambda>now t m. fst (Touch now t m)" Remove_session "\<lambda>now age m. fst (Expire now age m)"
proof unfold_locales
  fix s :: Manager and tok t :: string and now l :: time and age :: duration and c :: tref
  assume ok: "sm_ok s"
  show "sm_ok (create_session now c t s)"
    unfolding create_session_def by (rule CreateWithToken_ok [OF ok])
  show "Lookup tok (create_session now c tok s) \<noteq> None
      \<and> seen_at tok (create_session now c tok s) = Some now"
    by (simp add: Lookup_create seen_at_def) (simp add: create_session_def CreateWithToken_simps)
  show "Lookup tok (create_session now c t s) = Lookup tok s
      \<and> seen_at tok (create_session now c t s) = seen_at tok s" if "tok \<noteq> t"
  proof -
    have "sm_objs (create_session now c t s) r = sm_objs s r" if "Lookup tok s = Some r" for r
      using that sm_okD(2) [OF ok, of tok r]
      by (simp add: create_session_def CreateWithToken_simps Lookup_def)
    then show ?thesis using that by (cases "Lookup tok s") (simp_all add: Lookup_create seen_at_def)
  qed
  show "Lookup tok (fst (Expire now age s)) = Lookup tok s
      \<and> seen_at tok (fst (Expire now age s)) = Some l"
    if "seen_at tok s = Some l" "time_sub now l \<le> age"
    using that by (auto simp: seen_at_def Expire_lookup [OF ok] expire_due_def)
  show "Lookup tok (fst (Expire now age s)) = None"
    if "seen_at tok s = Some l" "time_sub now l > age"
    using that by (auto simp: seen_at_def Expire_lookup [OF ok] expire_due_def)
qed (simp_all add: seen_touch, simp add: seen_at_def Remove_session_def Lookup_def)

section \<open>Properties\<close>

definition session_run :: "duration \<Rightarrow> sess_ev list \<Rightarrow> Manager \<Rightarrow> Manager" where
  "session_run maxAge es m = fold (sessions.step maxAge) es m"

text \<open>An expiry pass is an exact partition with a strict boundary: whatever the iteration order
  of the map, a session is returned exactly when it was registered and has been silent for
  strictly more than \<open>maxAge\<close>, no session is returned twice, the returned sessions are exactly
  the ones that can no longer be looked up, and a second pass at the same time returns nothing.\<close>

theorem Expire_partition:
  assumes "sm_ok m"
    and "mset (sm_sessions m') = mset (sm_sessions m)" and "sm_objs m' = sm_objs m" and "sm_next m' = sm_next m"
  shows "distinct (snd (Expire now maxAge m'))
    \<and> (r \<in> set (snd (Expire now maxAge m')) \<longleftrightarrow>
         (\<exists>tok. Lookup tok m = Some r) \<and> time_sub now (s_LastActivity (sm_objs m r)) > maxAge)
    \<and> Lookup tok (fst (Expire now maxAge m')) =
         Option.bind (Lookup tok m)
           (\<lambda>r. if r \<in> set (snd (Expire now maxAge m')) then None else Some r)
    \<and> snd (Expire now maxAge (fst (Expire now maxAge m'))) = []"
proof -
  have g: "mget (sm_sessions m') tok = mget (sm_sessions m) tok" for tok
    using mget_perm [OF sm_okD(1) [OF assms(1)]] assms(2) by metis
  have "mset (mkeys (sm_sessions m')) = mset (mkeys (sm_sessions m))"
    using assms(2) by (simp add: mkeys_def)
  then have "gomap_ok (sm_sessions m')"
    using sm_okD(1) [OF assms(1)] mset_eq_imp_distinct_iff unfolding gomap_ok_def by blast
  then have ok: "sm_ok m'" using assms(1,3,4) g by (simp add: sm_ok_def)
  have l: "Lookup tok m' = Lookup tok m" for tok by (simp add: Lookup_def g)
  have d: "distinct (snd (Expire now maxAge m'))"
    using sm_refs_distinct [OF ok] by (simp add: Expire_def Let_def distinct_map_filter)
  have r: "r \<in> set (snd (Expire now maxAge m')) \<longleftrightarrow>
      (\<exists>tok. Lookup tok m = Some r) \<and> time_sub now (s_LastActivity (sm_objs m r)) > maxAge" for r
    by (simp add: Expire_returned [OF ok] l assms(3) expire_due_def)
  have "Lookup tok (fst (Expire now maxAge m')) = Option.bind (Lookup tok m)
      (\<lambda>r. if r \<in> set (snd (Expire now maxAge m')) then None else Some r)" for tok
    by (cases "Lookup tok m") (auto simp: Expire_lookup [OF ok] l r assms(3) expire_due_def)
  moreover have "q \<notin> set (snd (Expire now maxAge (fst (Expire now maxAge m'))))" for q
    by (auto simp: Expire_returned [OF Expire_ok [OF ok]] Expire_lookup [OF ok] Option.bind_eq_Some_conv
        split: if_splits)
  then have "snd (Expire now maxAge (fst (Expire now maxAge m'))) = []"
    by (metis last_in_set)
  ultimately show ?thesis using d r by simp
qed

definition example_manager :: Manager where
  "example_manager = create_session 0 7 ''tok'' NewManager"

lemma example_manager_ok: "sm_ok example_manager"
  unfolding example_manager_def by (rule sessions.invar_create) simp

lemma example_manager_simps:
  "Lookup ''tok'' example_manager = Some 0" "s_LastActivity (sm_objs example_manager 0) = 0"
  by (simp_all add: Lookup_def example_manager_def NewManager_def create_session_def
      CreateWithToken_simps)

theorem Expire_partition_witness:
  "Lookup ''tok'' (fst (Expire 10 10 example_manager)) = Some 0
   \<and> Lookup ''tok'' (fst (Expire 11 10 example_manager)) = None"
proof -
  have "time_sub 10 0 = 10" "time_sub 11 0 = 11"
    by (simp_all add: time_sub_def sat64_def int64_min_def int64_max_def)
  then show ?thesis
    using Expire_partition [OF example_manager_ok refl refl refl, of 10 10 0 "''tok''"]
      Expire_partition [OF example_manager_ok refl refl refl, of 11 10 0 "''tok''"] example_manager_simps by auto
qed

text \<open>C25: An active runner is never reaped: as long as every expiry pass finds the session touched at
  most \<open>maxAge\<close> ago, the session stays registered through any interleaving of touches,
  removals and creations of other sessions and expiry passes, however long the task runs. A
  session silent for longer than \<open>maxAge\<close> is gone after the next pass.\<close>

theorem active_session_survives:
  assumes "sm_ok m" and "Lookup tok m = Some r" and "in_int64 maxAge"
  shows "(kept_alive maxAge tok (s_LastActivity (sm_objs m r)) es \<longrightarrow>
       Lookup tok (session_run maxAge es m) = Some r)
    \<and> (time_sub now (s_LastActivity (sm_objs m r)) > maxAge \<longrightarrow>
       Lookup tok (fst (Expire now maxAge m)) = None)"
proof -
  have "seen_at tok m = Some (s_LastActivity (sm_objs m r))"
    using assms(2) by (simp add: seen_at_def)
  then show ?thesis
    using sessions.kept_alive_survives [OF assms(3,1,2)] sessions.expire_drops [OF assms(1)]
    unfolding session_run_def by blast
qed

theorem active_session_survives_witness:
  "Lookup ''tok'' (session_run 10 [SeExpire 9, SeTouch 9 ''tok'', SeExpire 19] example_manager) = Some 0"
proof -
  have "in_int64 10" by (simp add: in_int64_def int64_min_def int64_max_def)
  from active_session_survives [OF example_manager_ok example_manager_simps(1) this, of "[SeExpire 9, SeTouch 9 ''tok'', SeExpire 19]"]
  show ?thesis by (simp add: example_manager_simps(2))
qed

end
