(* ===== verification/Identity_State.thy ===== *)
theory Identity_State
  imports Go_Strings
begin

text \<open>
  The file that keeps the runner identities (\<^verbatim>\<open>internal/state/state.go\<close>).

  The content of a file is represented by what \<^verbatim>\<open>json.Unmarshal\<close> makes of it: a document,
  or bytes it rejects (an empty or torn file among them). A document without an
  \<^verbatim>\<open>identities\<close> object has a nil map (\<open>None\<close>). Reading can fail for other reasons than
  absence (\<open>Unreadable\<close>). The system calls of \<open>write\<close> are taken one by one and each may
  fail; the list of states between them is what a crash can leave behind.
\<close>

section \<open>Data\<close>

record Identity =
  id_UUID :: string
  id_Token :: string

record fileFormat =
  ff_Version :: int
  ff_Identities :: "(string, Identity) gomap option"

definition formatVersion :: int where
  "formatVersion = 1"

datatype content = Doc fileFormat | NotJSON | Unreadable string

text \<open>The state file and the temporary file of the write under way; \<open>None\<close>: does not exist.\<close>

record fs =
  fs_target :: "content option"
  fs_tmp :: "content option"

datatype fs_call = CreateTemp | WriteTmp | SyncTmp | CloseTmp | RenameTmp

datatype state_err = ReadFailed string | ParseFailed | UnsupportedVersion int | WriteFailed fs_call string

section \<open>Reading\<close>

definition state_read :: "fs \<Rightarrow> state_err + fileFormat option" where
  "state_read s =
     (case fs_target s of
        None \<Rightarrow> Inr None
      | Some (Unreadable e) \<Rightarrow> Inl (ReadFailed e)
      | Some NotJSON \<Rightarrow> Inl ParseFailed
      | Some (Doc file) \<Rightarrow>
          if ff_Version file \<noteq> formatVersion then Inl (UnsupportedVersion (ff_Version file))
          else Inr (Some file))"

definition Load_identity :: "string \<Rightarrow> fs \<Rightarrow> state_err + Identity option" where
  "Load_identity forgejoURL s =
     (case state_read s of
        Inl e \<Rightarrow> Inl e
      | Inr None \<Rightarrow> Inr None
      | Inr (Some file) \<Rightarrow>
          (case ff_Identities file of None \<Rightarrow> Inr None | Some m \<Rightarrow> Inr (mget m forgejoURL)))"

section \<open>Writing\<close>

text \<open>The effect of a call that succeeds, and what one that fails may leave.\<close>

fun fs_ok :: "content \<Rightarrow> fs_call \<Rightarrow> fs \<Rightarrow> fs" where
  "fs_ok data CreateTemp s = s\<lparr>fs_tmp := Some NotJSON\<rparr>"
| "fs_ok data WriteTmp s = s\<lparr>fs_tmp := Some data\<rparr>"
| "fs_ok data SyncTmp s = s"
| "fs_ok data CloseTmp s = s"
| "fs_ok data RenameTmp s = s\<lparr>fs_target := fs_tmp s, fs_tmp := None\<rparr>"

definition write_calls :: "fs_call list" where
  "write_calls = [CreateTemp, WriteTmp, SyncTmp, CloseTmp, RenameTmp]"

text \<open>\<open>fails c\<close> is the error of call \<open>c\<close>, if it has one. The states passed through are
  collected.\<close>

fun run_calls :: "(fs_call \<Rightarrow> string option) \<Rightarrow> content \<Rightarrow> fs_call list \<Rightarrow> fs \<Rightarrow>
    fs list \<times> state_err option" where
  "run_calls fails data [] s = ([s], None)"
| "run_calls fails data (c # cs) s =
     (case fails c of
        Some e \<Rightarrow> ([s], Some (WriteFailed c e))
      | None \<Rightarrow> (let (states, err) = run_calls fails data cs (fs_ok data c s) in (s # states, err)))"

text \<open>\<^verbatim>\<open>defer os.Remove(tmpName)\<close> runs last.\<close>

definition state_write :: "(fs_call \<Rightarrow> string option) \<Rightarrow> content \<Rightarrow> fs \<Rightarrow> fs list \<times> state_err option" where
  "state_write fails data s =
     (let (states, err) = run_calls fails data write_calls s
      in (states @ [(last states)\<lparr>fs_tmp := None\<rparr>], err))"

definition merge_identity :: "fileFormat option \<Rightarrow> string \<Rightarrow> Identity \<Rightarrow> fileFormat" where
  "merge_identity f forgejoURL ident =
     (let ff = (case f of None \<Rightarrow> \<lparr>ff_Version = formatVersion, ff_Identities = Some []\<rparr> | Some ff \<Rightarrow> ff);
          m = (case ff_Identities ff of None \<Rightarrow> [] | Some m \<Rightarrow> m)
      in ff\<lparr>ff_Identities := Some (mput forgejoURL ident m)\<rparr>)"

text \<open>Marshalling a value of this type never fails. The result lists every state on the way.\<close>

definition save_trace :: "(fs_call \<Rightarrow> string option) \<Rightarrow> string \<Rightarrow> Identity \<Rightarrow> fs \<Rightarrow> fs list \<times> state_err option" where
  "save_trace fails forgejoURL ident s =
     (case state_read s of
        Inl e \<Rightarrow> ([s], Some e)
      | Inr f \<Rightarrow> state_write fails (Doc (merge_identity f forgejoURL ident)) s)"

definition Save_identity :: "(fs_call \<Rightarrow> string option) \<Rightarrow> string \<Rightarrow> Identity \<Rightarrow> fs \<Rightarrow> fs \<times> state_err option" where
  "Save_identity fails forgejoURL ident s =
     (let (states, err) = save_trace fails forgejoURL ident s in (last states, err))"

section \<open>Lemmas\<close>

text \<open>The target is the old content until the rename, and the complete new content after it.\<close>

definition torn_free :: "content \<Rightarrow> fs \<Rightarrow> fs list \<times> state_err option \<Rightarrow> bool" where
  "torn_free data s tr \<longleftrightarrow>
     fst tr \<noteq> [] \<and> (\<forall>x\<in>set (fst tr). fs_target x = fs_target s \<or> fs_target x = Some data)
     \<and> fs_target (last (fst tr)) = (if snd tr = None then Some data else fs_target s)
     \<and> fs_tmp (last (fst tr)) = None"

lemma run_write_calls:
  "fst (run_calls fails data write_calls s) \<noteq> []
   \<and> (\<forall>x\<in>set (fst (run_calls fails data write_calls s)).
        fs_target x = fs_target s \<or> fs_target x = Some data)
   \<and> fs_target (last (fst (run_calls fails data write_calls s))) =
        (if snd (run_calls fails data write_calls s) = None then Some data else fs_target s)"
  by (simp add: write_calls_def split: option.split)

lemma state_write_torn_free: "torn_free data s (state_write fails data s)"
  using run_write_calls [of fails data s]
  by (auto simp: torn_free_def state_write_def split_beta Let_def)

lemma state_read_tmp [simp]: "state_read (s\<lparr>fs_tmp := t\<rparr>) = state_read s"
  by (simp add: state_read_def)

lemma state_read_cong: "fs_target s = fs_target t \<Longrightarrow> state_read s = state_read t"
  by (simp add: state_read_def)

lemma Load_cong: "fs_target s = fs_target t \<Longrightarrow> Load_identity u s = Load_identity u t"
  by (simp add: Load_identity_def state_read_def)

lemma Save_read_error: "state_read s = Inl e \<Longrightarrow> Save_identity fails u ident s = (s, Some e)"
  by (simp add: Save_identity_def save_trace_def)

lemma Save_read_ok:
  assumes "state_read s = Inr f"
  shows "Save_identity fails u ident s =
    (let tr = state_write fails (Doc (merge_identity f u ident)) s in (last (fst tr), snd tr))"
  using assms by (simp add: Save_identity_def save_trace_def Let_def split_beta)

lemma Save_cases:
  assumes "Save_identity fails u ident s = (s', err)"
  shows "(\<exists>e. state_read s = Inl e \<and> s' = s \<and> err = Some e)
    \<or> (\<exists>f. state_read s = Inr f \<and> fs_tmp s' = None \<and>
         fs_target s' = (if err = None then Some (Doc (merge_identity f u ident)) else fs_target s))"
proof (cases "state_read s")
  case (Inl e)
  then show ?thesis using assms Save_read_error by auto
next
  case (Inr f)
  then show ?thesis
    using assms state_write_torn_free [of "Doc (merge_identity f u ident)" s fails]
    by (auto simp: Save_read_ok torn_free_def Let_def)
qed

lemma merge_load:
  assumes "state_read s = Inr f" "fs_target s' = Some (Doc (merge_identity f u ident))"
  shows "Load_identity v s' = (if v = u then Inr (Some ident) else Load_identity v s)"
proof -
  have "ff_Version (merge_identity f u ident) = formatVersion"
    using assms(1) by (auto simp: merge_identity_def state_read_def Let_def
        split: option.splits content.splits if_splits)
  then show ?thesis
    using assms by (simp add: Load_identity_def state_read_def [of s'] merge_identity_def Let_def
        split: option.split)
qed

lemma Save_success:
  assumes "Save_identity fails u ident s = (s', None)"
  shows "Load_identity v s' = (if v = u then Inr (Some ident) else Load_identity v s)"
  using Save_cases [OF assms] merge_load by auto

lemma Save_error:
  assumes "Save_identity fails u ident s = (s', Some e)"
  shows "fs_target s' = fs_target s"
  using Save_cases [OF assms] by auto

lemma write_target: "fs_target (last (fst (state_write (\<lambda>_. None) data s))) = Some data"
  by (simp add: state_write_def write_calls_def)

lemma save_trace_states:
  assumes "x \<in> set (fst (save_trace fails u ident s))"
  shows "fs_target x = fs_target s \<or>
    fs_target x = fs_target (fst (Save_identity (\<lambda>_. None) u ident s))"
proof (cases "state_read s")
  case (Inl e)
  then show ?thesis using assms by (simp add: save_trace_def)
next
  case (Inr f)
  then show ?thesis
    using assms state_write_torn_free [of "Doc (merge_identity f u ident)" s fails]
    by (auto simp: save_trace_def Save_read_ok Let_def torn_free_def write_target)
qed

lemma Save_fault_free:
  "snd (Save_identity (\<lambda>_. None) u ident s) = (case state_read s of Inl e \<Rightarrow> Some e | Inr _ \<Rightarrow> None)"
  by (simp add: Save_identity_def save_trace_def state_write_def write_calls_def Let_def split: sum.split)

section \<open>The contract of the identity store\<close>

locale identity_store =
  fixes load :: "string \<Rightarrow> 's \<Rightarrow> 'e + 'i option"
    and save :: "'f \<Rightarrow> string \<Rightarrow> 'i \<Rightarrow> 's \<Rightarrow> 's \<times> 'e option"
  assumes save_load: "save f u i s = (s', None) \<Longrightarrow>
      load v s' = (if v = u then Inr (Some i) else load v s)"
    and save_failed: "save f u i s = (s', Some e) \<Longrightarrow> load v s' = load v s"
begin

text \<open>Several saves: the last successful one for a URL is what is found.\<close>

fun saves :: "('f \<times> string \<times> 'i) list \<Rightarrow> 's \<Rightarrow> 's" where
  "saves [] s = s"
| "saves ((f, u, i) # xs) s = saves xs (fst (save f u i s))"

lemma saves_other: "\<forall>(f, u, i)\<in>set xs. u \<noteq> v \<Longrightarrow> load v (saves xs s) = load v s"
proof (induction xs arbitrary: s)
  case Nil
  then show ?case by simp
next
  case (Cons x xs)
  obtain f u i where x: "x = (f, u, i)" by (cases x) auto
  obtain s' e where s': "save f u i s = (s', e)" by fastforce
  have "load v s' = load v s"
    using s' Cons.prems x save_load [of f u i s s' v] save_failed [of f u i s s'] by (cases e) auto
  with Cons x s' show ?case by simp
qed

lemma saves_last:
  assumes "save f u i (saves xs s) = (s', None)" "\<forall>(f, v, i)\<in>set ys. v \<noteq> u"
  shows "load u (saves ys s') = Inr (Some i)"
  using saves_other [OF assms(2)] save_load [OF assms(1), of u] by simp

end

interpretation file_store: identity_store Load_identity Save_identity
proof unfold_locales
  show "Load_identity v s' = (if v = u then Inr (Some i) else Load_identity v s)"
    if "Save_identity f u i s = (s', None)" for f u i s s' v
    using that by (rule Save_success)
  show "Load_identity v s' = Load_identity v s"
    if "Save_identity f u i s = (s', Some e)" for f u i s s' e v
    using Save_error [OF that] by (rule Load_cong)
qed

section \<open>Properties\<close>

text \<open>An identity that was saved is the one a restart finds, whatever was or is saved for other
  URLs in between and whichever of those saves fail; a failed save changes nothing that can be
  loaded.\<close>

theorem identity_survives_restart:
  assumes "Save_identity fails u ident s = (s', None)" and "\<forall>(f, v, i)\<in>set later. v \<noteq> u"
  shows "Load_identity u (file_store.saves later s') = Inr (Some ident)
    \<and> (v \<noteq> u \<longrightarrow> Load_identity v s' = Load_identity v s)
    \<and> (\<forall>t e. Save_identity f w i s = (t, Some e) \<longrightarrow> Load_identity v t = Load_identity v s)"
proof -
  have "Save_identity fails u ident (file_store.saves [] s) = (s', None)"
    using assms(1) by simp
  from file_store.saves_last [OF this assms(2)]
  have "Load_identity u (file_store.saves later s') = Inr (Some ident)" .
  moreover have "v \<noteq> u \<longrightarrow> Load_identity v s' = Load_identity v s"
    using Save_success [OF assms(1)] by simp
  moreover have "\<forall>t e. Save_identity f w i s = (t, Some e) \<longrightarrow> Load_identity v t = Load_identity v s"
    using file_store.save_failed by blast
  ultimately show ?thesis by blast
qed

definition no_file :: fs where
  "no_file = \<lparr>fs_target = None, fs_tmp = None\<rparr>"

lemma Save_no_file: "\<exists>s. Save_identity (\<lambda>_. None) u ident no_file = (s, None)"
proof -
  have "snd (Save_identity (\<lambda>_. None) u ident no_file) = None"
    by (simp add: Save_fault_free state_read_def no_file_def)
  then show ?thesis by (metis prod.collapse)
qed

theorem identity_survives_restart_witness:
  "Load_identity ''https://a'' (file_store.saves
     [(\<lambda>c. if c = RenameTmp then Some ''disk full'' else None, ''https://b'', \<lparr>id_UUID = ''y'', id_Token = ''s''\<rparr>)]
     (fst (Save_identity (\<lambda>_. None) ''https://a'' \<lparr>id_UUID = ''x'', id_Token = ''t''\<rparr> no_file)))
   = Inr (Some \<lparr>id_UUID = ''x'', id_Token = ''t''\<rparr>)"
proof -
  have "snd (Save_identity (\<lambda>_. None) ''https://a'' \<lparr>id_UUID = ''x'', id_Token = ''t''\<rparr> no_file) = None"
    by (simp add: Save_fault_free state_read_def no_file_def)
  then have h: "Save_identity (\<lambda>_. None) ''https://a'' \<lparr>id_UUID = ''x'', id_Token = ''t''\<rparr> no_file
    = (fst (Save_identity (\<lambda>_. None) ''https://a'' \<lparr>id_UUID = ''x'', id_Token = ''t''\<rparr> no_file), None)"
    by (metis prod.collapse)
  have o: "\<forall>(f, v, i)\<in>set [(\<lambda>c. if c = RenameTmp then Some ''disk full'' else None, ''https://b'',
      \<lparr>id_UUID = ''y'', id_Token = ''s''\<rparr>)]. v \<noteq> ''https://a''" by simp
  show ?thesis using identity_survives_restart [OF h o] by blast
qed

text \<open>C29: A save is atomic under crashes and I/O errors: whichever system call fails and wherever the
  process dies, the state file is the complete old one or the complete new one, never a torn
  one; an error is reported exactly when the old one is still in place because of it, and no
  temporary file is left by a save that returns.\<close>

theorem save_crash_atomic:
  "(\<forall>x\<in>set (fst (save_trace fails u ident s)).
      fs_target x = fs_target s \<or> fs_target x = fs_target (fst (Save_identity (\<lambda>_. None) u ident s)))
   \<and> (case Save_identity fails u ident s of
        (s', None) \<Rightarrow> fs_target s' = fs_target (fst (Save_identity (\<lambda>_. None) u ident s))
          \<and> Load_identity u s' = Inr (Some ident) \<and> fs_tmp s' = None
      | (s', Some e) \<Rightarrow> fs_target s' = fs_target s)"
proof -
  have "fs_target s' = fs_target (fst (Save_identity (\<lambda>_. None) u ident s)) \<and> fs_tmp s' = None"
    if "Save_identity fails u ident s = (s', None)" for s'
    using Save_cases [OF that] by (auto simp: Save_read_ok Let_def write_target)
  then show ?thesis
    using save_trace_states [of _ fails u ident s] Save_error [of fails u ident s]
      Save_success [of fails u ident s _ u]
    by (auto split: option.split)
qed

theorem save_crash_atomic_witness:
  "fs_target (fst (Save_identity (\<lambda>c. if c = WriteTmp then Some ''disk full'' else None) ''https://a''
     \<lparr>id_UUID = ''x'', id_Token = ''t''\<rparr> no_file)) = None"
proof -
  let ?sv = "Save_identity (\<lambda>c. if c = WriteTmp then Some ''disk full'' else None) ''https://a''
     \<lparr>id_UUID = ''x'', id_Token = ''t''\<rparr> no_file"
  have "snd ?sv = Some (WriteFailed WriteTmp ''disk full'')"
    by (simp add: Save_identity_def save_trace_def state_write_def write_calls_def state_read_def no_file_def)
  then obtain s' where "?sv = (s', Some (WriteFailed WriteTmp ''disk full''))"
    by (cases ?sv) simp
  then show ?thesis
    using save_crash_atomic [of "\<lambda>c. if c = WriteTmp then Some ''disk full'' else None" "''https://a''"
      "\<lparr>id_UUID = ''x'', id_Token = ''t''\<rparr>" no_file]
    by (simp add: no_file_def)
qed

text \<open>A state file that is present but unreadable, corrupt or of another version is never
  discarded: loading from it and saving to it fail with the same error, and no save, nor any
  sequence of saves, changes it.\<close>

theorem corrupt_state_preserved:
  assumes "state_read s = Inl e"
  shows "Load_identity v s = Inl e \<and> Save_identity fails u ident s = (s, Some e)
    \<and> file_store.saves xs s = s"
proof -
  have sv: "Save_identity f w i s = (s, Some e)" for f w i
    using assms by (rule Save_read_error)
  then have "file_store.saves xs s = s"
    by (induction xs) auto
  with sv assms show ?thesis by (simp add: Load_identity_def)
qed

theorem corrupt_state_preserved_witness:
  "Save_identity (\<lambda>_. None) ''https://a'' \<lparr>id_UUID = ''x'', id_Token = ''t''\<rparr>
     \<lparr>fs_target = Some (Doc \<lparr>ff_Version = 2, ff_Identities = None\<rparr>), fs_tmp = None\<rparr>
   = (\<lparr>fs_target = Some (Doc \<lparr>ff_Version = 2, ff_Identities = None\<rparr>), fs_tmp = None\<rparr>,
      Some (UnsupportedVersion 2))"
proof -
  have "state_read \<lparr>fs_target = Some (Doc \<lparr>ff_Version = 2, ff_Identities = None\<rparr>), fs_tmp = None\<rparr>
      = Inl (UnsupportedVersion 2)"
    by (simp add: state_read_def formatVersion_def)
  from corrupt_state_preserved [OF this] show ?thesis by blast
qed

end
