(* ===== verification/Version.thy ===== *)
theory Version
  imports Main
begin

text \<open>
  The version constant of \<^verbatim>\<open>internal/version\<close>, sent to Forgejo in every request and to GitHub in
  the user agent.
\<close>

definition Version :: string where
  "Version = ''1.0.0''"

end
