(* ===== verification/North_API.thy ===== *)
theory North_API
  imports Config Runner_V1 Version
begin

text \<open>
  The two interfaces between the packages (\<^verbatim>\<open>internal/north/client.go\<close>): \<open>Client\<close>, the
  forwarding surface of one Forgejo instance, and \<open>Resolver\<close>, which maps an instance name to
  its configuration and client. What lies behind a client is a state of type \<open>'n\<close>: a call
  reads and changes it and yields an error or a response. \<^verbatim>\<open>StartHeartbeat\<close> runs in a
  goroutine of its own: here is what one tick of it does for a task id.
\<close>

record 'n Client =
  ForwardUpdateTask :: "UpdateTaskRequest \<Rightarrow> 'n \<Rightarrow> 'n \<times> (go_err + UpdateTaskResponse)"
  ForwardUpdateLog :: "UpdateLogRequest \<Rightarrow> 'n \<Rightarrow> 'n \<times> (go_err + UpdateLogResponse)"
  HeartbeatTick :: "int \<Rightarrow> 'n \<Rightarrow> 'n"

record 'n Resolver =
  Resolve :: "string \<Rightarrow> (Instance \<times> 'n Client) option"
  OnlyInstance :: "string option"

section \<open>The resolver of the daemon\<close>

text \<open>\<open>instanceResolver\<close> of \<^verbatim>\<open>internal/app/app.go\<close>: a map filled once at startup.\<close>

type_synonym 'n instanceResolver = "(string, Instance \<times> 'n Client) gomap"

definition app_Resolve :: "'n instanceResolver \<Rightarrow> string \<Rightarrow> (Instance \<times> 'n Client) option" where
  "app_Resolve r name = (case mget r name of None \<Rightarrow> None | Some e \<Rightarrow> Some e)"

definition app_OnlyInstance :: "'n instanceResolver \<Rightarrow> string option" where
  "app_OnlyInstance r =
     (if length r \<noteq> 1 then None else (case mkeys r of [] \<Rightarrow> None | name # _ \<Rightarrow> Some name))"

definition app_resolver :: "'n instanceResolver \<Rightarrow> 'n Resolver" where
  "app_resolver r = \<lparr>Resolve = app_Resolve r, OnlyInstance = app_OnlyInstance r\<rparr>"

section \<open>The contract of a resolver\<close>

locale resolver =
  fixes resolve :: "string \<Rightarrow> 'e option" and only :: "string option"
  assumes only_unique: "only = Some name \<Longrightarrow> resolve other \<noteq> None \<longleftrightarrow> other = name"
begin

lemma only_resolves: "only = Some name \<Longrightarrow> resolve name \<noteq> None"
  using only_unique by blast

text \<open>A fallback to the only instance reaches the instance of every task that can be routed.\<close>

lemma only_sound: "only = Some name \<Longrightarrow> resolve inst = Some e \<Longrightarrow> inst = name"
  using only_unique [of name inst] by simp

lemma only_two: "resolve a \<noteq> None \<Longrightarrow> resolve b \<noteq> None \<Longrightarrow> a \<noteq> b \<Longrightarrow> only = None"
  using only_unique by (cases only) auto

end

lemma app_OnlyInstance_Some: "app_OnlyInstance r = Some name \<longleftrightarrow> (\<exists>e. r = [(name, e)])"
proof -
  have "length r = Suc 0 \<longleftrightarrow> (\<exists>x. r = [x])" by (auto simp: length_Suc_conv)
  then show ?thesis by (force simp: app_OnlyInstance_def mkeys_def)
qed

interpretation app: resolver "app_Resolve r" "app_OnlyInstance r" for r
proof unfold_locales
  fix name other
  assume "app_OnlyInstance r = Some name"
  then obtain e where "r = [(name, e)]" by (auto simp: app_OnlyInstance_Some)
  then show "app_Resolve r other \<noteq> None \<longleftrightarrow> other = name"
    by (auto simp: app_Resolve_def mget_Cons)
qed

end
