(* ===== verification/North_Client.thy ===== *)
theory North_Client
  imports North_API Identity_State
begin

text \<open>
  The northbound client (\<^verbatim>\<open>internal/north/client.go\<close>): registration, the authentication
  headers, the recovery from a rejected identity and its backoff, the forwards.

  The Forgejo server, the clock and the file-system faults are outside the program: a record
  of functions (\<open>north_env\<close>) over a state \<open>'n\<close>. A world is the client, the identity file and
  that state. Other goroutines may use the same client at the same time: what they do while an
  RPC is in flight is part of the RPC's effect on the world, what they do between a rejected
  RPC and the lock \<^verbatim>\<open>regMu\<close> is the argument \<open>interf\<close> of \<open>retryOnAuth\<close>. Under
  \<^verbatim>\<open>regMu\<close> nobody else changes the identity. The interleaving of many callers is the step
  relation at the end.
\<close>

section \<open>Data\<close>

definition registerBackoffBase :: duration where
  "registerBackoffBase = 30 * second"

definition registerBackoffMax :: duration where
  "registerBackoffMax = 5 * minute"

record RegisterRequest =
  rr_Token :: string
  rr_Name :: string
  rr_Labels :: "string list"
  rr_Version :: string

record DeclareRequest =
  dr_Labels :: "string list"
  dr_Version :: string

record headers =
  h_version :: string
  h_token :: string
  h_uuid :: "string option"

record client =
  nc_inst :: Instance
  nc_UUID :: string
  nc_Token :: string
  nc_gen :: "64 word"
  nc_backoffNext :: "time option"
  nc_backoffWait :: duration

record 'n north_env =
  ne_now :: "'n \<Rightarrow> time"
  ne_save_fails :: "'n \<Rightarrow> fs_call \<Rightarrow> string option"
  rpc_Register :: "RegisterRequest \<Rightarrow> headers \<Rightarrow> 'n \<Rightarrow> 'n \<times> (go_err + v1_Runner option)"
  rpc_Declare :: "DeclareRequest \<Rightarrow> headers \<Rightarrow> 'n \<Rightarrow> 'n \<times> (go_err + unit)"
  rpc_FetchTask :: "headers \<Rightarrow> 'n \<Rightarrow> 'n \<times> (go_err + v1_Task option)"
  rpc_UpdateTask :: "UpdateTaskRequest \<Rightarrow> headers \<Rightarrow> 'n \<Rightarrow> 'n \<times> (go_err + UpdateTaskResponse)"
  rpc_UpdateLog :: "UpdateLogRequest \<Rightarrow> headers \<Rightarrow> 'n \<Rightarrow> 'n \<times> (go_err + UpdateLogResponse)"

record 'n north =
  nw_client :: client
  nw_fs :: fs
  nw_ext :: 'n

section \<open>Identity\<close>

definition setIdentity :: "string \<Rightarrow> string \<Rightarrow> client \<Rightarrow> client" where
  "setIdentity uuid tok c = c\<lparr>nc_UUID := uuid, nc_Token := tok\<rparr>"

definition currentIdentity :: "client \<Rightarrow> string \<times> string" where
  "currentIdentity c = (nc_UUID c, nc_Token c)"

definition HasIdentity :: "client \<Rightarrow> bool" where
  "HasIdentity c = (let (uuid, tok) = currentIdentity c in uuid \<noteq> [] \<and> tok \<noteq> [])"

definition client_Identity :: "client \<Rightarrow> Identity" where
  "client_Identity c = (let (uuid, tok) = currentIdentity c in \<lparr>id_UUID = uuid, id_Token = tok\<rparr>)"

definition north_New :: "Instance \<Rightarrow> fs \<Rightarrow> state_err + client" where
  "north_New inst s =
     (let c = \<lparr>nc_inst = inst, nc_UUID = [], nc_Token = [], nc_gen = 0, nc_backoffNext = None,
        nc_backoffWait = 0\<rparr>
      in (case Load_identity (i_ForgejoURL inst) s of
            Inl e \<Rightarrow> Inl e
          | Inr (Some i) \<Rightarrow> Inr ((setIdentity (id_UUID i) (id_Token i) c)\<lparr>nc_gen := 1\<rparr>)
          | Inr None \<Rightarrow> Inr c))"

text \<open>The interceptor of \<open>New\<close>: \<^verbatim>\<open>Register\<close> always uses the registration token.\<close>

definition auth_headers :: "string \<Rightarrow> client \<Rightarrow> headers" where
  "auth_headers procedure c =
     (if has_suffix procedure ''/Register''
      then \<lparr>h_version = Version, h_token = i_ForgejoRunnerToken (nc_inst c), h_uuid = None\<rparr>
      else (let (uuid, tok) = currentIdentity c in
        \<lparr>h_version = Version,
         h_token = (if tok \<noteq> [] then tok else i_ForgejoRunnerToken (nc_inst c)),
         h_uuid = (if uuid \<noteq> [] then Some uuid else None)\<rparr>))"

definition stripContainerMapping :: "string list \<Rightarrow> string list" where
  "stripContainerMapping labels =
     map (\<lambda>l. case index_byte (CHR '':'') l of Some i \<Rightarrow> take i l | None \<Rightarrow> l) labels"

section \<open>Backoff\<close>

definition isAuthError :: "go_err \<Rightarrow> bool" where
  "isAuthError e = (case CodeOf e of CodeUnauthenticated \<Rightarrow> True | CodePermissionDenied \<Rightarrow> True | _ \<Rightarrow> False)"

definition isRegistrationTokenError :: "go_err \<Rightarrow> bool" where
  "isRegistrationTokenError e \<longleftrightarrow>
     CodeOf e = CodeInvalidArgument \<and> str_contains (err_Error e) ''registration token''"

definition backoffRemaining :: "time \<Rightarrow> client \<Rightarrow> duration" where
  "backoffRemaining now c =
     (case nc_backoffNext c of
        None \<Rightarrow> 0
      | Some next \<Rightarrow> (let wait = time_sub next now in if wait > 0 then wait else 0))"

definition setBackoff :: "duration \<Rightarrow> time \<Rightarrow> client \<Rightarrow> client" where
  "setBackoff wait now c = c\<lparr>nc_backoffWait := wait, nc_backoffNext := Some (now + wait)\<rparr>"

definition resetBackoff :: "client \<Rightarrow> client" where
  "resetBackoff c = c\<lparr>nc_backoffWait := 0, nc_backoffNext := None\<rparr>"

definition noteRegisterFailure :: "go_err \<Rightarrow> time \<Rightarrow> client \<Rightarrow> client" where
  "noteRegisterFailure regErr now c =
     (if isRegistrationTokenError regErr then setBackoff registerBackoffMax now c
      else (let wait = nc_backoffWait c;
                wait' = (if wait = 0 then registerBackoffBase
                  else (let w = wrap64 (wait * 2) in if w > registerBackoffMax then registerBackoffMax else w))
            in setBackoff wait' now c))"

section \<open>Registration and recovery\<close>

definition register_call :: "'n north_env \<Rightarrow> 'n north \<Rightarrow> 'n \<times> (go_err + v1_Runner option)" where
  "register_call E w =
     (let c = nw_client w;
          req = \<lparr>rr_Token = i_ForgejoRunnerToken (nc_inst c), rr_Name = i_ForgejoRunnerName (nc_inst c),
            rr_Labels = stripContainerMapping (i_ForgejoRunnerLabels (nc_inst c)),
            rr_Version = Version\<rparr>
      in rpc_Register E req (auth_headers ''/runner.v1.RunnerService/Register'' c) (nw_ext w))"

definition client_Register :: "'n north_env \<Rightarrow> 'n north \<Rightarrow> 'n north \<times> go_err option" where
  "client_Register E w =
     (let c = nw_client w;
          (n, resp) = register_call E w;
          w1 = w\<lparr>nw_ext := n\<rparr>
      in (case resp of
            Inl err \<Rightarrow> (w1, Some err)
          | Inr None \<Rightarrow> (w1, Some (PlainError ''register: response missing runner''))
          | Inr (Some runner) \<Rightarrow>
              (let c1 = setIdentity (vr_Uuid runner) (vr_Token runner) c;
                   (s, saved) = Save_identity (ne_save_fails E n) (i_ForgejoURL (nc_inst c))
                     \<lparr>id_UUID = vr_Uuid runner, id_Token = vr_Token runner\<rparr> (nw_fs w1);
                   w2 = w1\<lparr>nw_client := c1, nw_fs := s\<rparr>
               in (case saved of
                     Some e \<Rightarrow> (w2, Some (PlainError ''register: persist identity''))
                   | None \<Rightarrow> (w2\<lparr>nw_client := resetBackoff (c1\<lparr>nc_gen := nc_gen c1 + 1\<rparr>)\<rparr>, None)))))"

definition retryOnAuth :: "'n north_env \<Rightarrow> ('n north \<Rightarrow> 'n north) \<Rightarrow>
    ('n north \<Rightarrow> 'n north \<times> (go_err + 'a)) \<Rightarrow> 'n north \<Rightarrow> 'n north \<times> (go_err + 'a)" where
  "retryOnAuth E interf fn w =
     (let gen = nc_gen (nw_client w); (w1, r) = fn w in
      case r of
        Inr a \<Rightarrow> (w1, Inr a)
      | Inl err \<Rightarrow>
          if \<not> isAuthError err then (w1, Inl err)
          else (let w2 = interf w1 in
            if nc_gen (nw_client w2) \<noteq> gen then fn w2
            else if backoffRemaining (ne_now E (nw_ext w2)) (nw_client w2) > 0 then (w2, Inl err)
            else (case client_Register E w2 of
                (w3, Some regErr) \<Rightarrow>
                  (w3\<lparr>nw_client := noteRegisterFailure regErr (ne_now E (nw_ext w3)) (nw_client w3)\<rparr>, Inl err)
              | (w3, None) \<Rightarrow> fn w3)))"

section \<open>RPCs\<close>

definition call_rpc :: "'n north_env \<Rightarrow> string \<Rightarrow> (headers \<Rightarrow> 'n \<Rightarrow> 'n \<times> (go_err + 'a)) \<Rightarrow>
    'n north \<Rightarrow> 'n north \<times> (go_err + 'a)" where
  "call_rpc E method rpc w =
     (let (n, r) = rpc (auth_headers (''/runner.v1.RunnerService/'' @ method) (nw_client w)) (nw_ext w)
      in (w\<lparr>nw_ext := n\<rparr>, r))"

definition client_Declare :: "'n north_env \<Rightarrow> ('n north \<Rightarrow> 'n north) \<Rightarrow> 'n north \<Rightarrow> 'n north \<times> (go_err + unit)" where
  "client_Declare E interf w =
     retryOnAuth E interf (\<lambda>w. call_rpc E ''Declare'' (rpc_Declare E
       \<lparr>dr_Labels = stripContainerMapping (i_ForgejoRunnerLabels (nc_inst (nw_client w))),
        dr_Version = Version\<rparr>) w) w"

definition client_FetchTask :: "'n north_env \<Rightarrow> ('n north \<Rightarrow> 'n north) \<Rightarrow> 'n north \<Rightarrow> 'n north \<times> (go_err + v1_Task option)" where
  "client_FetchTask E interf w = retryOnAuth E interf (call_rpc E ''FetchTask'' (rpc_FetchTask E)) w"

definition client_ForwardUpdateTask :: "'n north_env \<Rightarrow> ('n north \<Rightarrow> 'n north) \<Rightarrow>
    UpdateTaskRequest \<Rightarrow> 'n north \<Rightarrow> 'n north \<times> (go_err + UpdateTaskResponse)" where
  "client_ForwardUpdateTask E interf req w =
     retryOnAuth E interf (call_rpc E ''UpdateTask'' (rpc_UpdateTask E req)) w"

definition client_ForwardUpdateLog :: "'n north_env \<Rightarrow> ('n north \<Rightarrow> 'n north) \<Rightarrow>
    UpdateLogRequest \<Rightarrow> 'n north \<Rightarrow> 'n north \<times> (go_err + UpdateLogResponse)" where
  "client_ForwardUpdateLog E interf req w =
     retryOnAuth E interf (call_rpc E ''UpdateLog'' (rpc_UpdateLog E req)) w"

text \<open>The heartbeat loop over the choices of its select: a tick or the cancelled context.\<close>

datatype hb_event = HbTick | HbCancelled

definition heartbeat_request :: "int \<Rightarrow> UpdateTaskRequest" where
  "heartbeat_request taskID =
     \<lparr>utr_State = Some \<lparr>ts_Id = taskID, ts_Result = RESULT_UNSPECIFIED, ts_rest = []\<rparr>, utr_rest = []\<rparr>"

definition heartbeat_tick :: "'n north_env \<Rightarrow> ('n north \<Rightarrow> 'n north) \<Rightarrow> int \<Rightarrow> 'n north \<Rightarrow> 'n north" where
  "heartbeat_tick E interf taskID w =
     fst (retryOnAuth E interf (call_rpc E ''UpdateTask'' (rpc_UpdateTask E (heartbeat_request taskID))) w)"

fun StartHeartbeat :: "'n north_env \<Rightarrow> ('n north \<Rightarrow> 'n north) \<Rightarrow> int \<Rightarrow> hb_event list \<Rightarrow> 'n north \<Rightarrow> 'n north" where
  "StartHeartbeat E interf taskID [] w = w"
| "StartHeartbeat E interf taskID (HbCancelled # _) w = w"
| "StartHeartbeat E interf taskID (HbTick # es) w =
     StartHeartbeat E interf taskID es (heartbeat_tick E interf taskID w)"

definition north_Client :: "'n north_env \<Rightarrow> ('n north \<Rightarrow> 'n north) \<Rightarrow> 'n north Client" where
  "north_Client E interf =
     \<lparr>ForwardUpdateTask = client_ForwardUpdateTask E interf,
      ForwardUpdateLog = client_ForwardUpdateLog E interf,
      HeartbeatTick = heartbeat_tick E interf\<rparr>"

section \<open>Lemmas\<close>

lemma strip_label: "(case index_byte c l of Some i \<Rightarrow> take i l | None \<Rightarrow> l) = takeWhile (\<lambda>x. x \<noteq> c) l"
proof (cases "index_byte c l")
  case None
  then have "c \<notin> set l" by (simp add: index_byte_None)
  then have e: "takeWhile (\<lambda>x. x \<noteq> c) l = l" by (auto simp: takeWhile_eq_all_conv)
  show ?thesis unfolding None e by simp
next
  case (Some i)
  then show ?thesis using index_byte_Some [OF Some] by simp
qed

lemma stripContainerMapping_conv: "stripContainerMapping ls = map (takeWhile (\<lambda>x. x \<noteq> CHR '':'')) ls"
  by (simp add: stripContainerMapping_def strip_label)

lemma sat64_pos: "0 < sat64 x \<longleftrightarrow> 0 < x"
  by (auto simp: sat64_def int64_min_def int64_max_def)

lemma backoffRemaining_0:
  "backoffRemaining now c = 0 \<longleftrightarrow> (\<forall>t. nc_backoffNext c = Some t \<longrightarrow> t \<le> now)"
proof (cases "nc_backoffNext c")
  case None
  then show ?thesis by (simp add: backoffRemaining_def)
next
  case (Some t)
  have "(if 0 < w then w else 0) = 0 \<longleftrightarrow> \<not> 0 < w" for w :: int by simp
  then show ?thesis
    using Some sat64_pos [of "t - now"]
    by (cases "0 < sat64 (t - now)") (simp_all add: backoffRemaining_def Let_def time_sub_def)
qed

lemma client_Register_None:
  assumes "client_Register E w = (w', None)"
  obtains n and runner :: v1_Runner and s where
    "register_call E w = (n, Inr (Some runner))"
    "w' = \<lparr>nw_client = resetBackoff ((setIdentity (vr_Uuid runner) (vr_Token runner) (nw_client w))
        \<lparr>nc_gen := nc_gen (nw_client w) + 1\<rparr>), nw_fs = s, nw_ext = n\<rparr>"
    "Save_identity (ne_save_fails E n) (i_ForgejoURL (nc_inst (nw_client w)))
       \<lparr>id_UUID = vr_Uuid runner, id_Token = vr_Token runner\<rparr> (nw_fs w) = (s, None)"
proof -
  obtain n resp where call: "register_call E w = (n, resp)" by fastforce
  obtain runner where resp: "resp = Inr (Some runner)"
    using assms by (cases resp) (auto simp: client_Register_def call Let_def split: option.splits)
  obtain s e where sv: "Save_identity (ne_save_fails E n) (i_ForgejoURL (nc_inst (nw_client w)))
      \<lparr>id_UUID = vr_Uuid runner, id_Token = vr_Token runner\<rparr> (nw_fs w) = (s, e)" by fastforce
  have "e = None"
    using assms by (cases e) (auto simp: client_Register_def call resp sv Let_def)
  with sv assms show thesis
    by (intro that [of n runner s]) (auto simp: client_Register_def call resp Let_def setIdentity_def)
qed

lemma client_Register_Some:
  assumes "client_Register E w = (w', Some e)"
  shows "nc_gen (nw_client w') = nc_gen (nw_client w)"
    "nc_backoffNext (nw_client w') = nc_backoffNext (nw_client w)"
    "nc_backoffWait (nw_client w') = nc_backoffWait (nw_client w)"
    "fs_target (nw_fs w') = fs_target (nw_fs w)"
proof -
  obtain n resp where call: "register_call E w = (n, resp)" by fastforce
  note simps = client_Register_def call Let_def setIdentity_def
  have "nc_gen (nw_client w') = nc_gen (nw_client w)
      \<and> nc_backoffNext (nw_client w') = nc_backoffNext (nw_client w)
      \<and> nc_backoffWait (nw_client w') = nc_backoffWait (nw_client w)
      \<and> fs_target (nw_fs w') = fs_target (nw_fs w)"
  proof (cases resp)
    case (Inl err)
    then show ?thesis using assms by (auto simp: simps)
  next
    case (Inr answer)
    show ?thesis
    proof (cases answer)
      case None
      then show ?thesis using Inr assms by (auto simp: simps)
    next
      case (Some runner)
      obtain s x where sv: "Save_identity (ne_save_fails E n) (i_ForgejoURL (nc_inst (nw_client w)))
          \<lparr>id_UUID = vr_Uuid runner, id_Token = vr_Token runner\<rparr> (nw_fs w) = (s, x)" by fastforce
      show ?thesis
      proof (cases x)
        case None
        then show ?thesis using assms Inr Some sv by (simp add: simps)
      next
        case (Some y)
        then show ?thesis using assms Inr \<open>answer = Some runner\<close> sv by (auto simp: simps dest: Save_error)
      qed
    qed
  qed
  then show "nc_gen (nw_client w') = nc_gen (nw_client w)"
    "nc_backoffNext (nw_client w') = nc_backoffNext (nw_client w)"
    "nc_backoffWait (nw_client w') = nc_backoffWait (nw_client w)"
    "fs_target (nw_fs w') = fs_target (nw_fs w)" by simp_all
qed

section \<open>Properties of one client\<close>

text \<open>Forgejo receives bare labels: the image mapping after the first colon of a label is cut off
  and nothing else, no bare label contains a colon, and stripping twice changes nothing.\<close>

theorem strip_mapping_exact:
  "length (stripContainerMapping ls) = length ls
   \<and> stripContainerMapping (stripContainerMapping ls) = stripContainerMapping ls
   \<and> (i < length ls \<longrightarrow> CHR '':'' \<notin> set (stripContainerMapping ls ! i)
        \<and> (ls ! i = stripContainerMapping ls ! i
           \<or> (\<exists>image. ls ! i = stripContainerMapping ls ! i @ CHR '':'' # image)))"
proof -
  have t: "CHR '':'' \<notin> set (takeWhile (\<lambda>x. x \<noteq> CHR '':'') l)" for l
    by (auto dest: set_takeWhileD)
  have "l = takeWhile (\<lambda>x. x \<noteq> c) l \<or> (\<exists>im. l = takeWhile (\<lambda>x. x \<noteq> c) l @ c # im)" for c :: char and l
    by (induction l) auto
  with t show ?thesis
    by (simp add: stripContainerMapping_conv)
qed

theorem strip_mapping_exact_witness:
  "CHR '':'' \<notin> set (stripContainerMapping [''docker:docker://node:20''] ! 0)"
  using strip_mapping_exact [of "[''docker:docker://node:20'']" 0] by simp

text \<open>C10: Recovery from a rejected identity. When an RPC fails with an authentication error, nobody
  else re-registered meanwhile and no backoff is active, a successful Register is followed by
  exactly one retry, made with the identity the Register call returned (both halves of it) and one
  generation later; that identity is the one persisted, so a restart restores it (and counts it as
  generation 1), and the backoff starts over.\<close>

theorem retry_recovers:
  assumes "fn w = (w1, Inl err)" and "isAuthError err"
    and "nc_gen (nw_client (interf w1)) = nc_gen (nw_client w)"
    and "backoffRemaining (ne_now E (nw_ext (interf w1))) (nw_client (interf w1)) = 0"
    and "client_Register E (interf w1) = (w3, None)"
  shows "retryOnAuth E interf fn w = fn w3
    \<and> nc_gen (nw_client w3) = nc_gen (nw_client w) + 1
    \<and> nc_backoffWait (nw_client w3) = 0 \<and> backoffRemaining now (nw_client w3) = 0
    \<and> (\<exists>n runner. register_call E (interf w1) = (n, Inr (Some runner))
          \<and> currentIdentity (nw_client w3) = (vr_Uuid runner, vr_Token runner))
    \<and> (\<exists>c. north_New (nc_inst (nw_client (interf w1))) (nw_fs w3) = Inr c \<and> nc_gen c = 1
          \<and> client_Identity c = client_Identity (nw_client w3))"
proof -
  obtain n and runner :: v1_Runner and s where call: "register_call E (interf w1) = (n, Inr (Some runner))"
    and w3: "w3 = \<lparr>nw_client = resetBackoff ((setIdentity (vr_Uuid runner) (vr_Token runner)
        (nw_client (interf w1)))\<lparr>nc_gen := nc_gen (nw_client (interf w1)) + 1\<rparr>), nw_fs = s, nw_ext = n\<rparr>"
    and sv: "Save_identity (ne_save_fails E n) (i_ForgejoURL (nc_inst (nw_client (interf w1))))
       \<lparr>id_UUID = vr_Uuid runner, id_Token = vr_Token runner\<rparr> (nw_fs (interf w1)) = (s, None)"
    using client_Register_None [OF assms(5)] by blast
  have "retryOnAuth E interf fn w = fn w3"
    unfolding retryOnAuth_def Let_def assms(1) by (simp add: assms(2-5))
  moreover have "Load_identity (i_ForgejoURL (nc_inst (nw_client (interf w1)))) s
      = Inr (Some \<lparr>id_UUID = vr_Uuid runner, id_Token = vr_Token runner\<rparr>)"
    using file_store.save_load [OF sv] by simp
  then have "\<exists>c. north_New (nc_inst (nw_client (interf w1))) (nw_fs w3) = Inr c \<and> nc_gen c = 1
      \<and> client_Identity c = client_Identity (nw_client w3)"
    by (simp add: north_New_def w3 client_Identity_def currentIdentity_def setIdentity_def resetBackoff_def Let_def)
  moreover have "\<exists>n runner. register_call E (interf w1) = (n, Inr (Some runner))
      \<and> currentIdentity (nw_client w3) = (vr_Uuid runner, vr_Token runner)"
    using call by (auto simp: w3 currentIdentity_def setIdentity_def resetBackoff_def)
  ultimately show ?thesis
    by (simp add: w3 assms(3) resetBackoff_def backoffRemaining_0 setIdentity_def)
qed

text \<open>A small Forgejo: it accepts the token \<open>t2\<close> only, which Register issues. Its state is the
  number of Register calls and the clock.\<close>

definition example_runner :: v1_Runner where
  "example_runner = \<lparr>vr_Id = 1, vr_Uuid = ''u2'', vr_Token = ''t2'', vr_Name = [], vr_Ephemeral = False, vr_Labels = []\<rparr>"

definition example_north :: "(nat \<times> time) north_env" where
  "example_north = \<lparr>ne_now = snd, ne_save_fails = (\<lambda>_ _. None),
     rpc_Register = (\<lambda>_ _ (k, now). ((Suc k, now), Inr (Some example_runner))),
     rpc_Declare = (\<lambda>_ _ n. (n, Inr ())),
     rpc_FetchTask = (\<lambda>_ n. (n, Inr None)),
     rpc_UpdateTask = (\<lambda>_ h n. (n, if h_token h = ''t2'' then Inr (UpdateTaskResponse [])
        else Inl (ConnectError CodeUnauthenticated []))),
     rpc_UpdateLog = (\<lambda>_ _ n. (n, Inr (UpdateLogResponse [])))\<rparr>"

definition example_client :: client where
  "example_client = \<lparr>nc_inst = example_instance, nc_UUID = ''u1'', nc_Token = ''t1'', nc_gen = 1,
     nc_backoffNext = None, nc_backoffWait = 0\<rparr>"

definition example_north_world :: "(nat \<times> time) north" where
  "example_north_world = \<lparr>nw_client = example_client, nw_fs = no_file, nw_ext = (0, 0)\<rparr>"

lemma has_suffix_UpdateTask [simp]:
  "\<not> has_suffix ''/runner.v1.RunnerService/UpdateTask'' ''/Register''"
  "has_suffix ''/runner.v1.RunnerService/Register'' ''/Register''"
  by (simp_all add: has_suffix_def)

lemma example_first_call:
  "call_rpc example_north ''UpdateTask'' (rpc_UpdateTask example_north (heartbeat_request 42)) example_north_world
     = (example_north_world, Inl (ConnectError CodeUnauthenticated []))"
  by (simp add: call_rpc_def example_north_def example_north_world_def auth_headers_def example_client_def
      currentIdentity_def)

theorem retry_recovers_witness:
  "\<exists>w3. client_Register example_north example_north_world = (w3, None)
     \<and> nc_gen (nw_client w3) = 2
     \<and> snd (client_ForwardUpdateTask example_north id (heartbeat_request 42) example_north_world)
       = Inr (UpdateTaskResponse [])"
proof -
  let ?w = example_north_world
  let ?fn = "call_rpc example_north ''UpdateTask'' (rpc_UpdateTask example_north (heartbeat_request 42))"
  have call: "register_call example_north ?w = ((1, 0), Inr (Some example_runner))"
    by (simp add: register_call_def example_north_def example_north_world_def Let_def)
  obtain s where sv: "Save_identity (\<lambda>_. None) (i_ForgejoURL (nc_inst example_client))
      \<lparr>id_UUID = ''u2'', id_Token = ''t2''\<rparr> no_file = (s, None)"
    using Save_no_file by blast
  have f: "ne_save_fails example_north n = (\<lambda>_. None)" for n by (simp add: example_north_def)
  have world: "nw_client ?w = example_client" "nw_fs ?w = no_file"
    by (simp_all add: example_north_world_def)
  have gen: "nc_gen example_client = 1" by (simp add: example_client_def)
  define w3 where "w3 = ?w\<lparr>nw_ext := (1, 0), nw_fs := s,
    nw_client := resetBackoff ((setIdentity ''u2'' ''t2'' example_client)\<lparr>nc_gen := 2\<rparr>)\<rparr>"
  have r: "client_Register example_north ?w = (w3, None)"
    using sv by (simp add: client_Register_def call f w3_def example_runner_def world Let_def setIdentity_def gen)
  have t: "nc_Token (nw_client w3) = ''t2''" "nc_UUID (nw_client w3) = ''u2''"
    by (simp_all add: w3_def resetBackoff_def setIdentity_def)
  have a: "isAuthError (ConnectError CodeUnauthenticated [])" by (simp add: isAuthError_def)
  have b: "backoffRemaining (ne_now example_north (nw_ext (id ?w))) (nw_client (id ?w)) = 0"
    by (simp add: backoffRemaining_def example_north_world_def example_client_def)
  have r': "client_Register example_north (id ?w) = (w3, None)" using r by simp
  from retry_recovers [where interf = id and fn = ?fn and w = ?w, OF example_first_call a _ b r']
  have "retryOnAuth example_north id ?fn ?w = ?fn w3 \<and> nc_gen (nw_client w3) = nc_gen (nw_client ?w) + 1"
    by simp
  moreover have "snd (?fn w3) = Inr (UpdateTaskResponse [])"
    using t by (simp add: call_rpc_def example_north_def auth_headers_def currentIdentity_def split_beta)
  ultimately show ?thesis
    using r by (simp add: client_ForwardUpdateTask_def example_north_world_def example_client_def)
qed

text \<open>The consecutive failures of Register, each with the time it was noted.\<close>

fun failures :: "(go_err \<times> time) list \<Rightarrow> client \<Rightarrow> client" where
  "failures [] c = c"
| "failures ((e, now) # es) c = failures es (noteRegisterFailure e now c)"

lemma failures_snoc: "failures (es @ [(e, now)]) c = noteRegisterFailure e now (failures es c)"
  by (induction es arbitrary: c) auto

lemmas backoff_consts = registerBackoffBase_def registerBackoffMax_def

lemma wrap64_double: "0 \<le> w \<Longrightarrow> w \<le> registerBackoffMax \<Longrightarrow> wrap64 (w * 2) = w * 2"
  by (rule wrap64_id) (simp add: in_int64_def int64_min_def int64_max_def backoff_consts)

definition backoff_wait :: "nat \<Rightarrow> duration" where
  "backoff_wait n = (if n = 0 then 0 else min (registerBackoffBase * 2 ^ (n - 1)) registerBackoffMax)"

lemma backoff_wait_range: "0 \<le> backoff_wait n \<and> backoff_wait n \<le> registerBackoffMax"
  by (simp add: backoff_wait_def backoff_consts)

lemma backoff_wait_Suc:
  "0 < n \<Longrightarrow> backoff_wait (Suc n) = min (backoff_wait n * 2) registerBackoffMax"
  by (cases n) (auto simp: backoff_wait_def backoff_consts min_def)

lemma backoff_wait_0: "backoff_wait n = 0 \<longleftrightarrow> n = 0"
  by (auto simp: backoff_wait_def backoff_consts min_def)

lemma note_wait:
  assumes "\<not> isRegistrationTokenError e" "nc_backoffWait c = backoff_wait n"
  shows "noteRegisterFailure e now c = setBackoff (backoff_wait (Suc n)) now c"
proof (cases n)
  case 0
  then have "nc_backoffWait c = 0" using assms(2) by (simp add: backoff_wait_def)
  moreover have "backoff_wait (Suc 0) = registerBackoffBase"
    by (simp add: backoff_wait_def backoff_consts)
  ultimately show ?thesis using assms(1) 0 by (simp add: noteRegisterFailure_def)
next
  case (Suc k)
  have "nc_backoffWait c \<noteq> 0" using assms(2) Suc by (simp add: backoff_wait_0)
  then show ?thesis
    using assms backoff_wait_range [of n] Suc
    by (simp add: noteRegisterFailure_def wrap64_double Let_def backoff_wait_Suc min_def)
qed

lemma failures_wait:
  assumes "nc_backoffWait c = 0" "\<forall>(e, now)\<in>set es. \<not> isRegistrationTokenError e"
  shows "nc_backoffWait (failures es c) = backoff_wait (length es)"
  using assms(2)
proof (induction es rule: rev_induct)
  case Nil
  then show ?case using assms(1) by (simp add: backoff_wait_def)
next
  case (snoc x xs)
  obtain e now where x: "x = (e, now)" by fastforce
  have "nc_backoffWait (failures xs c) = backoff_wait (length xs)" "\<not> isRegistrationTokenError e"
    using snoc x by auto
  then show ?case by (simp add: x failures_snoc note_wait setBackoff_def)
qed

text \<open>What a run of the recovery does to the backoff, whatever the outcome of Register.\<close>

lemma client_Register_resets:
  "client_Register E w = (w', None) \<Longrightarrow> nc_backoffWait (nw_client w') = 0 \<and> nc_backoffNext (nw_client w') = None"
  by (erule client_Register_None) (simp add: resetBackoff_def)

lemma retry_notes_failure:
  assumes "fn w = (w1, Inl err)" "isAuthError err"
    "nc_gen (nw_client (interf w1)) = nc_gen (nw_client w)"
    "backoffRemaining (ne_now E (nw_ext (interf w1))) (nw_client (interf w1)) = 0"
    "client_Register E (interf w1) = (w3, Some regErr)"
  shows "retryOnAuth E interf fn w
    = (w3\<lparr>nw_client := failures [(regErr, ne_now E (nw_ext w3))] (nw_client w3)\<rparr>, Inl err)"
  unfolding retryOnAuth_def Let_def assms(1) by (simp add: assms(2-5))

text \<open>C27: The backoff schedule of the recovery. Let the client have failed at Register \<open>length es\<close>
  times in a row with transient errors when an RPC is rejected again. If the Register of the
  recovery fails too, the RPC's error is returned, and the next attempt has to wait
  \<open>min (30 s * 2 ^ n) (5 min)\<close> from the failure on (30, 60, 120, 240, 300, 300, ... seconds for
  \<open>n = length es\<close>), an invalid registration token jumps to the full five minutes at once, and
  attempts are allowed again exactly from the end of the wait on. If it succeeds, the RPC is
  retried from a state in which the recorded wait is zero and nothing is left to wait for: the
  schedule starts over at 30 seconds.\<close>

theorem backoff_schedule:
  assumes "nc_backoffWait c = 0" and "\<forall>(e, t)\<in>set es. \<not> isRegistrationTokenError e"
    and "nc_backoffWait (nw_client (interf w1)) = nc_backoffWait (failures es c)"
    and "fn w = (w1, Inl err)" and "isAuthError err"
    and "nc_gen (nw_client (interf w1)) = nc_gen (nw_client w)"
    and "backoffRemaining (ne_now E (nw_ext (interf w1))) (nw_client (interf w1)) = 0"
    and "client_Register E (interf w1) = (w3, res)"
  shows "case res of
      Some regErr \<Rightarrow>
        (let wait = (if isRegistrationTokenError regErr then 5 * minute
                     else min (30 * second * 2 ^ length es) (5 * minute));
             (w4, r) = retryOnAuth E interf fn w
         in r = Inl err \<and> nc_gen (nw_client w4) = nc_gen (nw_client w)
            \<and> nc_backoffWait (nw_client w4) = wait
            \<and> nc_backoffWait (nw_client w4) = nc_backoffWait (failures (es @ [(regErr, ne_now E (nw_ext w3))]) c)
            \<and> (\<forall>t. backoffRemaining t (nw_client w4) = 0 \<longleftrightarrow> ne_now E (nw_ext w3) + wait \<le> t))
    | None \<Rightarrow> retryOnAuth E interf fn w = fn w3
        \<and> nc_backoffWait (nw_client w3) = 0 \<and> (\<forall>t. backoffRemaining t (nw_client w3) = 0)"
proof (cases res)
  case None
  then have reg: "client_Register E (interf w1) = (w3, None)" using assms(8) by simp
  have "retryOnAuth E interf fn w = fn w3"
    unfolding retryOnAuth_def Let_def assms(4) by (simp add: assms(5-7) reg)
  then show ?thesis
    using client_Register_resets [OF reg] by (simp add: None backoffRemaining_0)
next
  case (Some regErr)
  define t0 where "t0 = ne_now E (nw_ext w3)"
  define wait where "wait = (if isRegistrationTokenError regErr then 5 * minute
    else min (30 * second * 2 ^ length es) (5 * minute))"
  have reg: "client_Register E (interf w1) = (w3, Some regErr)" using assms(8) Some by simp
  have w: "nc_backoffWait (failures es c) = backoff_wait (length es)"
    by (rule failures_wait [OF assms(1,2)])
  then have wc: "nc_backoffWait (nw_client w3) = backoff_wait (length es)"
    using client_Register_Some(3) [OF reg] assms(3) by simp
  have step: "noteRegisterFailure regErr t0 d = setBackoff wait t0 d"
    if "nc_backoffWait d = backoff_wait (length es)" for d
  proof (cases "isRegistrationTokenError regErr")
    case True
    then show ?thesis by (simp add: noteRegisterFailure_def wait_def backoff_consts)
  next
    case False
    then show ?thesis by (simp add: note_wait [OF False that] wait_def backoff_wait_def backoff_consts)
  qed
  have "retryOnAuth E interf fn w = (w3\<lparr>nw_client := setBackoff wait t0 (nw_client w3)\<rparr>, Inl err)"
    using retry_notes_failure [where fn = fn and w = w and interf = interf, OF assms(4-7) reg] step [OF wc] by (simp add: t0_def)
  moreover have "failures (es @ [(regErr, t0)]) c = setBackoff wait t0 (failures es c)"
    using step [OF w] by (simp add: failures_snoc)
  ultimately show ?thesis
    using client_Register_Some(1) [OF reg] assms(6)
    by (simp add: Some wait_def [symmetric] t0_def [symmetric] setBackoff_def backoffRemaining_0)
qed

text \<open>A Forgejo that refuses to register, after two failures: the third wait is two minutes.\<close>

definition example_refusing :: "(nat \<times> time) north_env" where
  "example_refusing = example_north\<lparr>rpc_Register := (\<lambda>_ _ n. (n, Inl (PlainError ''refused'')))\<rparr>"

definition example_failed_twice :: "(nat \<times> time) north" where
  "example_failed_twice = \<lparr>nw_client = failures [(PlainError [], 0), (PlainError [], 40 * second)] example_client,
     nw_fs = no_file, nw_ext = (2, 110 * second)\<rparr>"

theorem backoff_schedule_witness:
  "\<exists>w4. client_ForwardUpdateTask example_refusing id (heartbeat_request 42) example_failed_twice
      = (w4, Inl (ConnectError CodeUnauthenticated []))
    \<and> nc_backoffWait (nw_client w4) = 120 * second
    \<and> backoffRemaining (229 * second) (nw_client w4) \<noteq> 0 \<and> backoffRemaining (230 * second) (nw_client w4) = 0"
proof -
  let ?es = "[(PlainError [], 0), (PlainError [], 40 * second)]"
  let ?fn = "call_rpc example_refusing ''UpdateTask'' (rpc_UpdateTask example_refusing (heartbeat_request 42))"
  let ?w = example_failed_twice
  have p: "\<not> isRegistrationTokenError (PlainError [])" "\<not> isRegistrationTokenError (PlainError ''refused'')"
    by (simp_all add: isRegistrationTokenError_def)
  have c: "failures ?es example_client = setBackoff (60 * second) (40 * second) (setBackoff (30 * second) 0 example_client)"
    by (simp add: noteRegisterFailure_def p setBackoff_def example_client_def wrap64_def backoff_consts)
  have f: "?fn ?w = (?w, Inl (ConnectError CodeUnauthenticated []))"
    unfolding example_failed_twice_def c
    by (simp add: call_rpc_def example_refusing_def example_north_def auth_headers_def setBackoff_def
        example_client_def currentIdentity_def)
  have a: "isAuthError (ConnectError CodeUnauthenticated [])" by (simp add: isAuthError_def)
  have b: "backoffRemaining (ne_now example_refusing (nw_ext (id ?w))) (nw_client (id ?w)) = 0"
    unfolding example_failed_twice_def c
    by (simp add: backoffRemaining_0 setBackoff_def example_refusing_def example_north_def)
  have r: "client_Register example_refusing (id ?w) = (?w, Some (PlainError ''refused''))"
    by (simp add: client_Register_def register_call_def Let_def example_refusing_def)
  from backoff_schedule [where interf = id and c = example_client and es = ?es and fn = ?fn and w = ?w,
      OF _ _ _ f a _ b r]
  show ?thesis
    by (auto simp: p example_client_def example_failed_twice_def client_ForwardUpdateTask_def
        example_refusing_def example_north_def split: prod.splits)
qed

text \<open>While the backoff is armed Forgejo sees no Register: the recovery of an RPC that fails then
  does not depend on the Register RPC at all, and unless another caller produced a new identity
  meanwhile, the RPC is not repeated either and its own error is returned.\<close>

theorem backoff_gates_register:
  assumes "fn w = (w1, Inl err)"
    and "0 < backoffRemaining (ne_now E (nw_ext (interf w1))) (nw_client (interf w1))"
  shows "retryOnAuth (E\<lparr>rpc_Register := R\<rparr>) interf fn w = retryOnAuth E interf fn w
    \<and> (isAuthError err \<and> nc_gen (nw_client (interf w1)) = nc_gen (nw_client w) \<longrightarrow>
         retryOnAuth E interf fn w = (interf w1, Inl err))"
  unfolding retryOnAuth_def Let_def assms(1) by (simp add: assms(2))

theorem backoff_gates_register_witness:
  "retryOnAuth example_north (\<lambda>w. w\<lparr>nw_client := setBackoff minute 0 (nw_client w)\<rparr>)
     (call_rpc example_north ''UpdateTask'' (rpc_UpdateTask example_north (heartbeat_request 42))) example_north_world
   = (example_north_world\<lparr>nw_client := setBackoff minute 0 example_client\<rparr>,
      Inl (ConnectError CodeUnauthenticated []))"
proof -
  let ?i = "\<lambda>w :: (nat \<times> time) north. w\<lparr>nw_client := setBackoff minute 0 (nw_client w)\<rparr>"
  have b: "0 < backoffRemaining (ne_now example_north (nw_ext (?i example_north_world))) (nw_client (?i example_north_world))"
    by (simp add: backoffRemaining_def setBackoff_def example_north_def example_north_world_def
        time_sub_def sat64_def int64_max_def int64_min_def)
  have a: "isAuthError (ConnectError CodeUnauthenticated [])" by (simp add: isAuthError_def)
  have g: "nc_gen (nw_client (?i example_north_world)) = nc_gen (nw_client example_north_world)"
    by (simp add: setBackoff_def)
  show ?thesis
    using backoff_gates_register [where interf = ?i and E = example_north and w = example_north_world
        and fn = "call_rpc example_north ''UpdateTask'' (rpc_UpdateTask example_north (heartbeat_request 42))",
        OF example_first_call b] a g
    by (simp add: example_north_world_def)
qed

text \<open>A Register that fails changes nothing that a restart or another caller relies on: the
  identity file keeps its content, the generation stays, and the backoff is only touched by the
  failure note. But when only the persisting fails, Forgejo has already issued the runner and the
  process uses that identity, which the file does not have: the next restart goes back to the old
  one.\<close>

theorem failed_register_keeps_state:
  assumes "client_Register E w = (w', Some e)"
  shows "nc_gen (nw_client w') = nc_gen (nw_client w)
    \<and> backoffRemaining now (nw_client w') = backoffRemaining now (nw_client w)
    \<and> north_New inst (nw_fs w') = north_New inst (nw_fs w)
    \<and> (client_Identity (nw_client w') \<noteq> client_Identity (nw_client w) \<longrightarrow>
         (\<exists>n runner. register_call E w = (n, Inr (Some runner))
            \<and> client_Identity (nw_client w') = \<lparr>id_UUID = vr_Uuid runner, id_Token = vr_Token runner\<rparr>))"
proof -
  have "client_Identity (nw_client w') = \<lparr>id_UUID = vr_Uuid runner, id_Token = vr_Token runner\<rparr>"
    if "register_call E w = (n, Inr (Some runner))" for n and runner :: v1_Runner
    using assms that
    by (auto simp: client_Register_def Let_def client_Identity_def currentIdentity_def setIdentity_def
        split: option.splits prod.splits)
  moreover have "client_Identity (nw_client w') = client_Identity (nw_client w)"
    if "\<And>n runner. register_call E w \<noteq> (n, Inr (Some runner))"
  proof -
    obtain n resp where call: "register_call E w = (n, resp)" by fastforce
    with that have "resp \<noteq> Inr (Some runner)" for runner by blast
    then have "nw_client w' = nw_client w"
      using assms call
      by (cases resp) (auto simp: client_Register_def Let_def split: option.splits)
    then show ?thesis by simp
  qed
  moreover have "Load_identity u (nw_fs w') = Load_identity u (nw_fs w)" for u
    using client_Register_Some(4) [OF assms] by (rule Load_cong)
  ultimately show ?thesis
    using client_Register_Some [OF assms] by (auto simp: north_New_def backoffRemaining_def)
qed

theorem failed_register_keeps_state_witness:
  "\<exists>w' e. client_Register (example_north\<lparr>rpc_Register := (\<lambda>_ _ n. (n, Inl (PlainError ''refused'')))\<rparr>) example_north_world
      = (w', Some e) \<and> nc_gen (nw_client w') = 1"
proof -
  let ?E = "example_north\<lparr>rpc_Register := (\<lambda>_ _ n. (n, Inl (PlainError ''refused'')))\<rparr>"
  have r: "client_Register ?E example_north_world = (example_north_world, Some (PlainError ''refused''))"
    by (simp add: client_Register_def register_call_def Let_def)
  show ?thesis
    using r failed_register_keeps_state [OF r] by (simp add: example_north_world_def example_client_def)
qed

end
