(* ===== verification/North_Dedup.thy ===== *)
theory North_Dedup
  imports North_Client
begin

text \<open>
  Concurrent RPCs of one client (\<^verbatim>\<open>retryOnAuth\<close> of \<^verbatim>\<open>internal/north/client.go\<close>).

  Pollers, heartbeats and forwards call \<open>retryOnAuth\<close> at the same time. Each caller is a small
  state machine over its atomic accesses: it loads the generation, its request picks up the
  identity held at that moment (the interceptor), a rejected request waits for \<^verbatim>\<open>regMu\<close>,
  compares the generation, and registers or not. \<open>Register\<close> itself is not atomic: the new
  identity is visible before it is persisted and before the generation moves on.

  Identities are numbered in the order in which Forgejo issues them (\<open>d_rows\<close> runner rows so
  far). \<open>d_revoked\<close> are those Forgejo no longer accepts, \<open>d_orphans\<close> those a failed Register
  left behind: the response was lost, or the identity could not be persisted. \<open>d_base\<close> is the
  identity of the current generation. The counter is a natural number here: it wraps around
  only after \<open>2 ^ 64\<close> registrations.
\<close>

datatype phase =
    Idle
  | Started nat
  | InFlight nat nat
  | Rejected nat nat
  | Holding nat nat
  | Persisting nat
  | Retrying

record dsys =
  d_gen :: nat
  d_base :: nat
  d_ident :: nat
  d_lock :: "nat option"
  d_phase :: "nat \<Rightarrow> phase"
  d_rows :: nat
  d_revoked :: "nat set"
  d_orphans :: "nat set"

definition d_init :: dsys where
  "d_init = \<lparr>d_gen = 1, d_base = 1, d_ident = 1, d_lock = None, d_phase = (\<lambda>_. Idle), d_rows = 1,
     d_revoked = {}, d_orphans = {}\<rparr>"

definition enter :: "nat \<Rightarrow> phase \<Rightarrow> dsys \<Rightarrow> dsys" where
  "enter t p s = s\<lparr>d_phase := (d_phase s)(t := p)\<rparr>"

definition leave_lock :: "nat \<Rightarrow> phase \<Rightarrow> dsys \<Rightarrow> dsys" where
  "leave_lock t p s = (enter t p s)\<lparr>d_lock := None\<rparr>"

inductive dstep :: "dsys \<Rightarrow> dsys \<Rightarrow> bool" where
  issue: "d_phase s t = Idle \<Longrightarrow> dstep s (enter t (Started (d_gen s)) s)"
| send: "d_phase s t = Started g \<Longrightarrow> dstep s (enter t (InFlight g (d_ident s)) s)"
| returns: "d_phase s t = InFlight g i \<Longrightarrow> dstep s (enter t Idle s)"
| rejected: "d_phase s t = InFlight g i \<Longrightarrow> i \<in> d_revoked s \<Longrightarrow> dstep s (enter t (Rejected g i) s)"
| revoke: "1 \<le> i \<Longrightarrow> i \<le> d_rows s \<Longrightarrow> dstep s (s\<lparr>d_revoked := insert i (d_revoked s)\<rparr>)"
| acquire: "d_phase s t = Rejected g i \<Longrightarrow> d_lock s = None \<Longrightarrow>
    dstep s ((enter t (Holding g i) s)\<lparr>d_lock := Some t\<rparr>)"
| refreshed: "d_phase s t = Holding g i \<Longrightarrow> d_gen s \<noteq> g \<Longrightarrow> dstep s (leave_lock t Retrying s)"
| backing_off: "d_phase s t = Holding g i \<Longrightarrow> d_gen s = g \<Longrightarrow> dstep s (leave_lock t Idle s)"
| register_fails: "d_phase s t = Holding g i \<Longrightarrow> d_gen s = g \<Longrightarrow> dstep s (leave_lock t Idle s)"
| register_lost: "d_phase s t = Holding g i \<Longrightarrow> d_gen s = g \<Longrightarrow>
    dstep s ((leave_lock t Idle s)\<lparr>d_rows := Suc (d_rows s), d_orphans := insert (Suc (d_rows s)) (d_orphans s)\<rparr>)"
| register_ok: "d_phase s t = Holding g i \<Longrightarrow> d_gen s = g \<Longrightarrow>
    dstep s ((enter t (Persisting g) s)\<lparr>d_rows := Suc (d_rows s), d_ident := Suc (d_rows s)\<rparr>)"
| persist_fails: "d_phase s t = Persisting g \<Longrightarrow>
    dstep s ((leave_lock t Idle s)\<lparr>d_orphans := insert (d_ident s) (d_orphans s)\<rparr>)"
| persist_ok: "d_phase s t = Persisting g \<Longrightarrow>
    dstep s ((leave_lock t Retrying s)\<lparr>d_gen := Suc (d_gen s), d_base := d_ident s\<rparr>)"
| retried: "d_phase s t = Retrying \<Longrightarrow> dstep s (enter t Idle s)"

inductive_cases dstep_cases: "dstep s s'"

definition dreach :: "dsys \<Rightarrow> bool" where
  "dreach s \<longleftrightarrow> dstep\<^sup>*\<^sup>* d_init s"

section \<open>Invariant\<close>

definition dead :: "dsys \<Rightarrow> nat \<Rightarrow> bool" where
  "dead s j \<longleftrightarrow> j \<in> d_revoked s \<or> j \<in> d_orphans s"

definition persisting :: "dsys \<Rightarrow> bool" where
  "persisting s \<longleftrightarrow> (\<exists>t g. d_lock s = Some t \<and> d_phase s t = Persisting g)"

fun phase_ok :: "dsys \<Rightarrow> nat \<Rightarrow> phase \<Rightarrow> bool" where
  "phase_ok s t Idle = True"
| "phase_ok s t (Started g) = (g \<le> d_gen s)"
| "phase_ok s t (InFlight g i) = (g \<le> d_gen s \<and> (g = d_gen s \<longrightarrow> i = d_base s \<or> dead s (d_base s)))"
| "phase_ok s t (Rejected g i) =
     (g \<le> d_gen s \<and> i \<in> d_revoked s \<and> (g = d_gen s \<longrightarrow> i = d_base s \<or> dead s (d_base s)))"
| "phase_ok s t (Holding g i) = (d_lock s = Some t
     \<and> g \<le> d_gen s \<and> i \<in> d_revoked s \<and> (g = d_gen s \<longrightarrow> i = d_base s \<or> dead s (d_base s)))"
| "phase_ok s t (Persisting g) = (d_lock s = Some t \<and> d_ident s = d_rows s \<and> d_base s < d_ident s)"
| "phase_ok s t Retrying = True"

definition d_inv :: "dsys \<Rightarrow> bool" where
  "d_inv s \<longleftrightarrow> 1 \<le> d_base s \<and> d_base s \<le> d_ident s \<and> d_ident s \<le> d_rows s
     \<and> d_revoked s \<subseteq> {1..d_rows s} \<and> d_orphans s \<subseteq> {1..d_rows s}
     \<and> (d_ident s = d_base s \<or> dead s (d_base s))
     \<and> (\<forall>j. 1 \<le> j \<and> j < d_base s \<longrightarrow> dead s j)
     \<and> (\<forall>j. d_base s < j \<and> j \<le> d_rows s \<longrightarrow> j \<in> d_orphans s \<or> j = d_ident s \<and> persisting s)
     \<and> (\<forall>t. phase_ok s t (d_phase s t))"

lemma d_init_inv: "d_inv d_init"
  by (auto simp: d_inv_def d_init_def)

lemma d_invD:
  assumes "d_inv s"
  shows "1 \<le> d_base s" "d_base s \<le> d_ident s" "d_ident s \<le> d_rows s"
    "d_revoked s \<subseteq> {1..d_rows s}" "d_orphans s \<subseteq> {1..d_rows s}"
    "d_ident s = d_base s \<or> dead s (d_base s)"
    "1 \<le> j \<Longrightarrow> j < d_base s \<Longrightarrow> dead s j"
    "d_base s < j \<Longrightarrow> j \<le> d_rows s \<Longrightarrow> j \<in> d_orphans s \<or> j = d_ident s \<and> persisting s"
    "phase_ok s t (d_phase s t)"
  using assms unfolding d_inv_def by blast+

lemma holding_not_persisting:
  assumes "d_inv s" "d_phase s t = Holding g i"
  shows "\<not> persisting s" "d_lock s = Some t"
  using d_invD(9) [OF assms(1), of t] assms(2) by (auto simp: persisting_def)

lemma persisting_holder:
  assumes "d_inv s" "d_phase s t = Persisting g"
  shows "persisting s" "d_lock s = Some t" "d_ident s = d_rows s" "d_base s < d_ident s"
  using d_invD(9) [OF assms(1), of t] assms(2) by (auto simp: persisting_def)

text \<open>A caller that holds the lock and found its generation unchanged was rejected with the
  identity of that generation, or that identity is dead already.\<close>

lemma holder_base_dead:
  assumes "d_inv s" "d_phase s t = Holding g i" "d_gen s = g"
  shows "dead s (d_base s)"
  using d_invD(9) [OF assms(1), of t] assms(2,3) by (auto simp: dead_def)

text \<open>Steps that touch neither the lock nor the counters: only the caller's own phase matters.\<close>

lemma inv_enter:
  assumes "d_inv s" "phase_ok s t p" "\<forall>g. d_phase s t \<noteq> Persisting g"
  shows "d_inv (enter t p s)"
proof -
  have pers: "persisting s \<Longrightarrow> persisting (enter t p s)"
    using assms(3) by (auto simp: persisting_def enter_def)
  have ok: "phase_ok (enter t p s) u q = phase_ok s u q" for u q
    by (cases q) (simp_all add: enter_def dead_def)
  have "phase_ok (enter t p s) u (d_phase (enter t p s) u)" for u
    using assms(2) d_invD(9) [OF assms(1), of u] by (simp add: ok) (simp add: enter_def)
  then show ?thesis
    using assms(1) pers unfolding d_inv_def by (auto simp: enter_def dead_def)
qed

lemma inv_acquire:
  assumes "d_inv s" "d_phase s t = Rejected g i" "d_lock s = None"
  shows "d_inv ((enter t (Holding g i) s)\<lparr>d_lock := Some t\<rparr>)"
proof -
  let ?s = "(enter t (Holding g i) s)\<lparr>d_lock := Some t\<rparr>"
  have n: "\<not> persisting s" using assms(3) by (simp add: persisting_def)
  have "phase_ok ?s u (d_phase ?s u)" for u
    using d_invD(9) [OF assms(1), of u] d_invD(9) [OF assms(1), of t] assms(2,3)
    by (cases "d_phase s u") (auto simp: enter_def dead_def)
  then show ?thesis
    using assms(1) n unfolding d_inv_def by (auto simp: enter_def dead_def)
qed

lemma inv_leave:
  assumes "d_inv s" "d_lock s = Some t" "\<not> persisting s" "p = Idle \<or> p = Retrying"
  shows "d_inv (leave_lock t p s)"
proof -
  have "phase_ok (leave_lock t p s) u (d_phase (leave_lock t p s) u)" for u
    using d_invD(9) [OF assms(1), of u] assms(2,4)
    by (cases "d_phase s u") (auto simp: leave_lock_def enter_def dead_def)
  then show ?thesis
    using assms(1,3) unfolding d_inv_def by (auto simp: leave_lock_def enter_def dead_def)
qed

lemma inv_revoke:
  assumes "d_inv s" "1 \<le> i" "i \<le> d_rows s"
  shows "d_inv (s\<lparr>d_revoked := insert i (d_revoked s)\<rparr>)"
proof -
  let ?s = "s\<lparr>d_revoked := insert i (d_revoked s)\<rparr>"
  have pers: "persisting ?s = persisting s" by (simp add: persisting_def)
  have "phase_ok ?s u (d_phase ?s u)" for u
    using d_invD(9) [OF assms(1), of u] by (cases "d_phase s u") (auto simp: dead_def)
  then show ?thesis
    using assms pers unfolding d_inv_def by (auto simp: dead_def)
qed

lemma inv_register_ok:
  assumes "d_inv s" "d_phase s t = Holding g i" "d_gen s = g"
  shows "d_inv ((enter t (Persisting g) s)\<lparr>d_rows := Suc (d_rows s), d_ident := Suc (d_rows s)\<rparr>)"
    (is "d_inv ?s")
proof -
  note lock = holding_not_persisting [OF assms(1,2)]
  have dead: "dead s (d_base s)" by (rule holder_base_dead [OF assms])
  have "phase_ok ?s u (d_phase ?s u)" for u
    using d_invD(9) [OF assms(1), of u] d_invD(2,3) [OF assms(1)] lock
    by (cases "d_phase s u") (auto simp: enter_def dead_def)
  moreover have "persisting ?s" using lock(2) by (simp add: persisting_def enter_def)
  moreover have "j \<in> d_orphans s \<or> j = Suc (d_rows s)" if "d_base s < j" "j \<le> Suc (d_rows s)" for j
    using d_invD(8) [OF assms(1) that(1)] that(2) lock(1) by (cases "j \<le> d_rows s") auto
  ultimately show ?thesis
    using assms(1) dead unfolding d_inv_def by (auto simp: enter_def dead_def)
qed

lemma inv_register_lost:
  assumes "d_inv s" "d_phase s t = Holding g i" "d_gen s = g"
  shows "d_inv ((leave_lock t Idle s)\<lparr>d_rows := Suc (d_rows s), d_orphans := insert (Suc (d_rows s)) (d_orphans s)\<rparr>)"
    (is "d_inv ?s")
proof -
  note lock = holding_not_persisting [OF assms(1,2)]
  have "phase_ok ?s u (d_phase ?s u)" for u
    using d_invD(9) [OF assms(1), of u] lock
    by (cases "d_phase s u") (auto simp: leave_lock_def enter_def dead_def)
  moreover have "j \<in> d_orphans s \<or> j = Suc (d_rows s)" if "d_base s < j" "j \<le> Suc (d_rows s)" for j
    using d_invD(8) [OF assms(1) that(1)] that(2) lock(1) by (cases "j \<le> d_rows s") auto
  ultimately show ?thesis
    using assms(1) unfolding d_inv_def by (auto simp: leave_lock_def enter_def dead_def)
qed

lemma inv_persist_fails:
  assumes "d_inv s" "d_phase s t = Persisting g"
  shows "d_inv ((leave_lock t Idle s)\<lparr>d_orphans := insert (d_ident s) (d_orphans s)\<rparr>)" (is "d_inv ?s")
proof -
  note lock = persisting_holder [OF assms]
  have "phase_ok ?s u (d_phase ?s u)" for u
    using d_invD(9) [OF assms(1), of u] lock
    by (cases "d_phase s u") (auto simp: leave_lock_def enter_def dead_def)
  moreover have "j \<in> d_orphans s \<or> j = d_ident s" if "d_base s < j" "j \<le> d_rows s" for j
    using d_invD(8) [OF assms(1) that] by auto
  ultimately show ?thesis
    using assms(1) lock(3) unfolding d_inv_def by (auto simp: leave_lock_def enter_def dead_def)
qed

lemma inv_persist_ok:
  assumes "d_inv s" "d_phase s t = Persisting g"
  shows "d_inv ((leave_lock t Retrying s)\<lparr>d_gen := Suc (d_gen s), d_base := d_ident s\<rparr>)" (is "d_inv ?s")
proof -
  note lock = persisting_holder [OF assms]
  have "phase_ok ?s u (d_phase ?s u)" for u
    using d_invD(9) [OF assms(1), of u] lock
    by (cases "d_phase s u") (auto simp: leave_lock_def enter_def dead_def)
  moreover have "dead s j" if "1 \<le> j" "j < d_ident s" for j
  proof (cases "j < d_base s")
    case True
    with that(1) show ?thesis by (rule d_invD(7) [OF assms(1)])
  next
    case False
    then consider "j = d_base s" | "d_base s < j" by linarith
    then show ?thesis
    proof cases
      case 1
      then show ?thesis using d_invD(6) [OF assms(1)] lock(4) by simp
    next
      case 2
      then show ?thesis
        using d_invD(8) [OF assms(1) 2] that(2) lock(3) by (auto simp: dead_def)
    qed
  qed
  ultimately show ?thesis
    using assms(1) lock(3) unfolding d_inv_def by (auto simp: leave_lock_def enter_def dead_def)
qed

lemma dstep_inv: "dstep s s' \<Longrightarrow> d_inv s \<Longrightarrow> d_inv s'"
proof (induction rule: dstep.induct)
  case (send s t g)
  then show ?case using d_invD(6) [OF send.prems] d_invD(9) [OF send.prems, of t]
    by (intro inv_enter) auto
next
  case (rejected s t g i)
  then show ?case using d_invD(9) [OF rejected.prems, of t] by (intro inv_enter) auto
next
  case (refreshed s t g i)
  then show ?case using holding_not_persisting by (intro inv_leave) auto
next
  case (backing_off s t g i)
  then show ?case using holding_not_persisting by (intro inv_leave) auto
next
  case (register_fails s t g i)
  then show ?case using holding_not_persisting by (intro inv_leave) auto
qed (auto intro: inv_enter inv_revoke inv_acquire inv_register_lost inv_register_ok
    inv_persist_fails inv_persist_ok)

interpretation dedup: invariant_of dstep d_inv
  by unfold_locales (rule dstep_inv)

lemma dreach_inv: "dreach s \<Longrightarrow> d_inv s"
  unfolding dreach_def by (rule dedup.reach_inv [OF _ d_init_inv])

section \<open>Property\<close>

text \<open>C26: Deduplication of re-registration. However many RPCs of one instance fail concurrently,
  Forgejo gets a new runner row only when the previous identity is lost: every row but the one in
  use was either revoked or left behind by a Register whose response or persisting failed, so
  there are at most one more rows than losses and such failures.\<close>

theorem one_row_per_loss:
  assumes "dreach s"
  shows "d_rows s \<le> 1 + card (d_revoked s) + card (d_orphans s)
    \<and> (\<forall>j. 1 \<le> j \<and> j \<le> d_rows s \<and> j \<noteq> d_ident s \<longrightarrow> j \<in> d_revoked s \<or> j \<in> d_orphans s)"
proof -
  note inv = d_invD [OF dreach_inv [OF assms]]
  have d: "j \<in> d_revoked s \<or> j \<in> d_orphans s" if "1 \<le> j" "j \<le> d_rows s" "j \<noteq> d_ident s" for j
  proof -
    consider "j < d_base s" | "j = d_base s" | "d_base s < j" by linarith
    then show ?thesis
      using inv(6) inv(7) [OF that(1)] inv(8) [OF _ that(2)] that(3) by cases (auto simp: dead_def)
  qed
  have fin: "finite (d_revoked s)" "finite (d_orphans s)"
    using inv(4,5) finite_subset by blast+
  have "{1..d_rows s} \<subseteq> insert (d_ident s) (d_revoked s \<union> d_orphans s)"
  proof
    fix j assume "j \<in> {1..d_rows s}"
    then show "j \<in> insert (d_ident s) (d_revoked s \<union> d_orphans s)"
      using d [of j] by (cases "j = d_ident s") auto
  qed
  then have "card {1..d_rows s} \<le> card (insert (d_ident s) (d_revoked s \<union> d_orphans s))"
    using fin by (intro card_mono) auto
  also have "\<dots> \<le> 1 + card (d_revoked s \<union> d_orphans s)"
    using fin by (simp add: card_insert_if)
  also have "\<dots> \<le> 1 + (card (d_revoked s) + card (d_orphans s))"
    by (simp add: card_Un_le)
  finally show ?thesis using d by auto
qed

lemma dreach_step: "dreach s \<Longrightarrow> dstep s s' \<Longrightarrow> dreach s'"
  unfolding dreach_def by (rule rtranclp.rtrancl_into_rtrancl)

lemmas phase_simps = enter_def leave_lock_def d_init_def

theorem one_row_per_loss_witness:
  "\<exists>s. dreach s \<and> d_rows s = 2 \<and> d_phase s 7 = Retrying \<and> 1 \<in> d_revoked s"
proof -
  let ?s1 = "enter 7 (Started 1) d_init"
  let ?s2 = "enter 7 (InFlight 1 1) ?s1"
  let ?s3 = "?s2\<lparr>d_revoked := insert 1 (d_revoked ?s2)\<rparr>"
  let ?s4 = "enter 7 (Rejected 1 1) ?s3"
  let ?s5 = "(enter 7 (Holding 1 1) ?s4)\<lparr>d_lock := Some 7\<rparr>"
  let ?s6 = "(enter 7 (Persisting 1) ?s5)\<lparr>d_rows := Suc (d_rows ?s5), d_ident := Suc (d_rows ?s5)\<rparr>"
  let ?s7 = "(leave_lock 7 Retrying ?s6)\<lparr>d_gen := Suc (d_gen ?s6), d_base := d_ident ?s6\<rparr>"
  have "dreach d_init" by (simp add: dreach_def)
  moreover have "dstep d_init ?s1" using issue [of d_init 7] by (simp add: phase_simps)
  ultimately have r1: "dreach ?s1" by (rule dreach_step)
  have "dstep ?s1 ?s2" using send [of ?s1 7 1] by (simp add: phase_simps)
  with r1 have r2: "dreach ?s2" by (rule dreach_step)
  have "dstep ?s2 ?s3" by (rule revoke) (simp_all add: phase_simps)
  with r2 have r3: "dreach ?s3" by (rule dreach_step)
  have "dstep ?s3 ?s4" by (rule rejected) (simp_all add: phase_simps)
  with r3 have r4: "dreach ?s4" by (rule dreach_step)
  have "dstep ?s4 ?s5" by (rule acquire) (simp_all add: phase_simps)
  with r4 have r5: "dreach ?s5" by (rule dreach_step)
  have "dstep ?s5 ?s6" by (rule register_ok) (simp_all add: phase_simps)
  with r5 have r6: "dreach ?s6" by (rule dreach_step)
  have "dstep ?s6 ?s7" by (rule persist_ok) (simp_all add: phase_simps)
  with r6 have r7: "dreach ?s7" by (rule dreach_step)
  have "d_rows ?s7 = 2" "d_phase ?s7 7 = Retrying" "d_ident ?s7 = 2" "d_orphans ?s7 = {}"
    by (simp_all add: phase_simps)
  moreover have "1 \<in> d_revoked ?s7"
    using one_row_per_loss [OF r7] calculation by auto
  ultimately show ?thesis using r7 by blast
qed

end
