(* ===== verification/Dispatch_GitHub.thy ===== *)
theory Dispatch_GitHub
  imports Config Task_Store Version
begin

text \<open>
  The dispatch of a task to GitHub Actions (\<^verbatim>\<open>internal/dispatch/github.go\<close>).

  GitHub is a function from a request to a status and body, or to an error of the HTTP client
  (network failure, timeout, cancelled context). The JSON body is represented by the value that
  is encoded. The random factor of the backoff and the select between the timer and the
  cancelled context are arguments (\<open>jitter\<close>, \<open>cancelled\<close>); the loop also returns the delays
  it waited.
\<close>

section \<open>Data\<close>

record GitHub =
  gh_Token :: string
  gh_Repo :: string
  gh_WorkflowID :: string
  gh_Ref :: string
  gh_APIURL :: string
  gh_PublicURL :: string

record dispatchInput =
  di_ProxyURL :: string
  di_RegToken :: string
  di_Labels :: string

record dispatchInputs =
  di_Ref :: string
  di_Inputs :: dispatchInput

record http_request =
  hr_method :: string
  hr_url :: string
  hr_headers :: "(string \<times> string) list"
  hr_body :: dispatchInputs

datatype dispatch_err =
    CreateRequestFailed string
  | HttpFailed string
  | DispatchError nat string
  | CtxErr
  | RetriesExhausted nat "dispatch_err option"

definition initialBackoff :: duration where
  "initialBackoff = 1 * second"

definition defaultMaxRetries :: nat where
  "defaultMaxRetries = 3"

definition errorBodyLimit :: nat where
  "errorBodyLimit = 1024"

definition StatusNoContent :: nat where
  "StatusNoContent = 204"

section \<open>One request\<close>

definition dispatch_request :: "GitHub \<Rightarrow> TaskCtx \<Rightarrow> Instance \<Rightarrow> http_request" where
  "dispatch_request gh taskCtx inst =
     \<lparr>hr_method = ''POST'',
      hr_url = gh_APIURL gh @ ''/repos/'' @ gh_Repo gh @ ''/actions/workflows/'' @ gh_WorkflowID gh
        @ ''/dispatches'',
      hr_headers = [(''Authorization'', ''Bearer '' @ gh_Token gh),
        (''Content-Type'', ''application/json''), (''User-Agent'', ''forgery/'' @ Version)],
      hr_body = \<lparr>di_Ref = gh_Ref gh, di_Inputs = \<lparr>di_ProxyURL = gh_PublicURL gh,
        di_RegToken = t_RegToken taskCtx,
        di_Labels = join '','' (i_ForgejoRunnerLabels inst)\<rparr>\<rparr>\<rparr>"

text \<open>\<open>bad_url\<close> is the error of \<^verbatim>\<open>http.NewRequestWithContext\<close> for a URL that does not parse.\<close>

definition dispatch :: "(string \<Rightarrow> string option) \<Rightarrow> (http_request \<Rightarrow> 'n \<Rightarrow> 'n \<times> (string + nat \<times> string)) \<Rightarrow>
    http_request \<Rightarrow> 'n \<Rightarrow> 'n \<times> dispatch_err option" where
  "dispatch bad_url http req n =
     (case bad_url (hr_url req) of
        Some e \<Rightarrow> (n, Some (CreateRequestFailed e))
      | None \<Rightarrow>
          (case http req n of
             (n', Inl e) \<Rightarrow> (n', Some (HttpFailed e))
           | (n', Inr (status, body)) \<Rightarrow>
               if status = StatusNoContent then (n', None)
               else (n', Some (DispatchError status (take errorBodyLimit body)))))"

section \<open>Retries\<close>

definition client_error :: "dispatch_err \<Rightarrow> bool" where
  "client_error e = (case e of DispatchError status _ \<Rightarrow> status \<ge> 400 \<and> status < 500 | _ \<Rightarrow> False)"

function trigger_loop :: "(nat \<Rightarrow> bool) \<Rightarrow> (nat \<Rightarrow> duration \<Rightarrow> duration) \<Rightarrow> ('n \<Rightarrow> 'n \<times> dispatch_err option) \<Rightarrow>
    nat \<Rightarrow> nat \<Rightarrow> duration \<Rightarrow> dispatch_err option \<Rightarrow> 'n \<Rightarrow> 'n \<times> dispatch_err option \<times> duration list" where
  "trigger_loop cancelled jitter disp maxRetries attempt backoff lastErr n =
     (if maxRetries < attempt then (n, Some (RetriesExhausted maxRetries lastErr), [])
      else if 0 < attempt \<and> cancelled attempt then (n, Some CtxErr, [])
      else (let delays = (if 0 < attempt then [jitter attempt backoff] else []);
                backoff' = (if 0 < attempt then wrap64 (backoff * 2) else backoff)
            in (case disp n of
                  (n', None) \<Rightarrow> (n', None, delays)
                | (n', Some err) \<Rightarrow>
                    if client_error err then (n', Some err, delays)
                    else (let (n'', r, ds) = trigger_loop cancelled jitter disp maxRetries (Suc attempt)
                                backoff' (Some err) n'
                          in (n'', r, delays @ ds)))))"
  by pat_completeness auto
termination
  by (relation "measure (\<lambda>(cancelled, jitter, disp, maxRetries, attempt, backoff, lastErr, n).
        Suc maxRetries - attempt)") auto

declare trigger_loop.simps [simp del]

definition triggerWithRetry :: "(nat \<Rightarrow> bool) \<Rightarrow> (nat \<Rightarrow> duration \<Rightarrow> duration) \<Rightarrow> ('n \<Rightarrow> 'n \<times> dispatch_err option) \<Rightarrow>
    nat \<Rightarrow> 'n \<Rightarrow> 'n \<times> dispatch_err option \<times> duration list" where
  "triggerWithRetry cancelled jitter disp maxRetries n =
     trigger_loop cancelled jitter disp maxRetries 0 initialBackoff None n"

text \<open>
  The dispatcher: the settings and the number of retries. Its HTTP client is the argument \<open>http\<close>,
  which ends every request within \<open>httpClientTimeout\<close>.
\<close>

record Dispatcher =
  dp_gh :: GitHub
  dp_maxRetries :: nat

definition NewDispatcher :: "GitHub \<Rightarrow> Dispatcher" where
  "NewDispatcher gh = \<lparr>dp_gh = gh, dp_maxRetries = defaultMaxRetries\<rparr>"

definition Trigger :: "Dispatcher \<Rightarrow> (nat \<Rightarrow> bool) \<Rightarrow> (nat \<Rightarrow> duration \<Rightarrow> duration) \<Rightarrow>
    (string \<Rightarrow> string option) \<Rightarrow> (http_request \<Rightarrow> 'n \<Rightarrow> 'n \<times> (string + nat \<times> string)) \<Rightarrow>
    TaskCtx \<Rightarrow> Instance \<Rightarrow> 'n \<Rightarrow> 'n \<times> dispatch_err option \<times> duration list" where
  "Trigger d cancelled jitter bad_url http taskCtx inst n =
     triggerWithRetry cancelled jitter (dispatch bad_url http (dispatch_request (dp_gh d) taskCtx inst))
       (dp_maxRetries d) n"

section \<open>Lemmas\<close>

text \<open>The calls a dispatcher made, with their outcomes, in a log beside its state.\<close>

definition logged :: "('n \<Rightarrow> 'n \<times> dispatch_err option) \<Rightarrow> 'n \<times> dispatch_err option list \<Rightarrow>
    ('n \<times> dispatch_err option list) \<times> dispatch_err option" where
  "logged disp s = (let (n, r) = disp (fst s) in ((n, snd s @ [r]), r))"

text \<open>What a run with \<open>k\<close> attempts left may log, given its result.\<close>

fun good_log :: "nat \<Rightarrow> dispatch_err option list \<Rightarrow> dispatch_err option \<Rightarrow> bool" where
  "good_log k [] r = (r \<noteq> None)"
| "good_log k (x # l) r = (0 < k \<and>
     (case x of
        None \<Rightarrow> l = [] \<and> r = None
      | Some e \<Rightarrow> if client_error e then l = [] \<and> r = Some e else good_log (k - 1) l r))"

text \<open>One turn of the loop: it ends, or goes on after a retryable failure.\<close>

lemma loop_ends:
  assumes "attempt \<le> m" "\<not> (0 < attempt \<and> cancelled attempt)" "disp n = (n', x)"
    "x = None \<or> client_error (the x)"
  shows "trigger_loop cancelled jitter disp m attempt backoff lastErr n =
    (n', x, if 0 < attempt then [jitter attempt backoff] else [])"
proof (cases x)
  case None
  then show ?thesis using assms by (subst trigger_loop.simps) simp
next
  case (Some e)
  then show ?thesis using assms by (subst trigger_loop.simps) simp
qed

lemma loop_goes_on:
  assumes "attempt \<le> m" "\<not> (0 < attempt \<and> cancelled attempt)" "disp n = (n', Some e)" "\<not> client_error e"
    "trigger_loop cancelled jitter disp m (Suc attempt)
       (if 0 < attempt then wrap64 (backoff * 2) else backoff) (Some e) n' = (t, r, ds)"
  shows "trigger_loop cancelled jitter disp m attempt backoff lastErr n =
    (t, r, (if 0 < attempt then [jitter attempt backoff] else []) @ ds)"
proof (cases "0 < attempt")
  case True
  then show ?thesis using assms by (subst trigger_loop.simps) (simp add: Let_def)
next
  case False
  then show ?thesis using assms by (subst trigger_loop.simps) (simp add: Let_def)
qed

lemma loop_log:
  "attempt + k = Suc m \<Longrightarrow>
    \<exists>l. snd (fst (trigger_loop cancelled jitter (logged disp) m attempt backoff lastErr s)) = snd s @ l
      \<and> good_log k l (fst (snd (trigger_loop cancelled jitter (logged disp) m attempt backoff lastErr s)))"
proof (induction k arbitrary: attempt backoff lastErr s)
  case 0
  then show ?case by (simp add: trigger_loop.simps [of _ _ _ m "Suc m"])
next
  case (Suc k)
  note unfold = trigger_loop.simps [of cancelled jitter "logged disp" m attempt backoff lastErr s]
  have le: "\<not> m < attempt" using Suc.prems by simp
  show ?case
  proof (cases "0 < attempt \<and> cancelled attempt")
    case True
    then show ?thesis by (simp add: unfold le)
  next
    case False
    obtain n x where "disp (fst s) = (n, x)" by fastforce
    then have d: "logged disp s = ((n, snd s @ [x]), x)" by (simp add: logged_def)
    let ?b = "if 0 < attempt then wrap64 (backoff * 2) else backoff"
    show ?thesis
    proof (cases "x = None \<or> client_error (the x)")
      case True
      then show ?thesis
        using loop_ends [of attempt m cancelled "logged disp" s "(n, snd s @ [x])" x jitter backoff lastErr]
          False le d by (auto intro!: exI [of _ "[x]"] split: option.splits)
    next
      case nf: False
      then obtain e where x: "x = Some e" "\<not> client_error e" by auto
      obtain t r ds where rec: "trigger_loop cancelled jitter (logged disp) m (Suc attempt) ?b (Some e)
          (n, snd s @ [x]) = (t, r, ds)" using prod_cases3 by blast
      have "Suc attempt + k = Suc m" using Suc.prems by simp
      from Suc.IH [OF this, of ?b "Some e" "(n, snd s @ [x])"]
      obtain l where l: "snd t = (snd s @ [x]) @ l" "good_log k l r" by (auto simp: rec)
      have "trigger_loop cancelled jitter (logged disp) m attempt backoff lastErr s
          = (t, r, (if 0 < attempt then [jitter attempt backoff] else []) @ ds)"
        using False le rec x by (intro loop_goes_on [of _ _ _ _ _ "(n, snd s @ [x])" e]) (simp_all add: d)
      then show ?thesis using l x by (intro exI [of _ "x # l"]) simp
    qed
  qed
qed

lemma good_logD:
  "good_log k l r \<Longrightarrow> length l \<le> k
    \<and> (\<forall>x\<in>set (butlast l). \<exists>e. x = Some e \<and> \<not> client_error e)
    \<and> (r = None \<longleftrightarrow> l \<noteq> [] \<and> last l = None)
    \<and> (\<forall>e. l \<noteq> [] \<and> last l = Some e \<and> client_error e \<longrightarrow> r = Some e)"
proof (induction k l r rule: good_log.induct)
  case (1 k r)
  then show ?case by simp
next
  case (2 k x l r)
  show ?case
  proof (cases x)
    case None
    then show ?thesis using 2 by auto
  next
    case (Some e)
    show ?thesis
    proof (cases "client_error e")
      case True
      then show ?thesis using 2 Some by auto
    next
      case False
      then have "good_log (k - 1) l r" "0 < k" using 2(2) Some by auto
      moreover from this 2(1) [OF Some False] have "length l \<le> k - 1
          \<and> (\<forall>x\<in>set (butlast l). \<exists>e. x = Some e \<and> \<not> client_error e)
          \<and> (r = None \<longleftrightarrow> l \<noteq> [] \<and> last l = None)
          \<and> (\<forall>e. l \<noteq> [] \<and> last l = Some e \<and> client_error e \<longrightarrow> r = Some e)" by blast
      ultimately show ?thesis using Some False by auto
    qed
  qed
qed

definition jitter_ok :: "(nat \<Rightarrow> duration \<Rightarrow> duration) \<Rightarrow> bool" where
  "jitter_ok jitter \<longleftrightarrow> (\<forall>k b. 0 \<le> b \<longrightarrow> 0 \<le> jitter k b \<and> 4 * jitter k b \<le> 5 * b)"

lemma loop_delays:
  assumes "jitter_ok jitter"
  shows "0 < attempt \<Longrightarrow> attempt + k = Suc m \<Longrightarrow> 0 \<le> backoff \<Longrightarrow> backoff * 2 ^ k \<le> int64_max \<Longrightarrow>
    0 \<le> sum_list (snd (snd (trigger_loop cancelled jitter disp m attempt backoff lastErr n)))
    \<and> 4 * sum_list (snd (snd (trigger_loop cancelled jitter disp m attempt backoff lastErr n)))
      \<le> 5 * (backoff * (2 ^ k - 1))"
proof (induction k arbitrary: attempt backoff lastErr n)
  case 0
  then show ?case by (simp add: trigger_loop.simps [of _ _ _ m "Suc m"])
next
  case (Suc k)
  note unfold = trigger_loop.simps [of cancelled jitter disp m attempt backoff lastErr n]
  have le: "\<not> m < attempt" using Suc.prems by simp
  have one: "(1::int) \<le> 2 ^ k" by simp
  have j: "0 \<le> jitter attempt backoff" "4 * jitter attempt backoff \<le> 5 * backoff"
    using assms Suc.prems(3) by (auto simp: jitter_ok_def)
  have rest: "0 \<le> 5 * (backoff * 2 * (2 ^ k - 1))" using Suc.prems(3) by simp
  have total: "5 * backoff + 5 * (backoff * 2 * (2 ^ k - 1)) = 5 * (backoff * (2 ^ Suc k - 1))"
    by (simp add: algebra_simps)
  have bound: "5 * backoff \<le> 5 * (backoff * (2 ^ Suc k - 1))" using rest total by linarith
  obtain n' x where d: "disp n = (n', x)" by fastforce
  show ?case
  proof (cases "cancelled attempt")
    case True
    then show ?thesis using Suc.prems le rest j total by (simp add: unfold)
  next
    case nc: False
    show ?thesis
    proof (cases "x = None \<or> client_error (the x)")
      case True
      then show ?thesis
        using loop_ends [of attempt m cancelled disp n n' x jitter backoff lastErr] nc Suc.prems(1) le j bound
        by (simp add: d)
    next
      case False
      then obtain e where x: "x = Some e" "\<not> client_error e" by auto
      have "backoff * 2 \<le> backoff * 2 * 2 ^ k"
        using Suc.prems(3) one by (simp add: mult_le_cancel_left1)
      then have w: "wrap64 (backoff * 2) = backoff * 2"
        using Suc.prems(3,4) by (intro wrap64_id) (simp add: in_int64_def int64_min_def ac_simps)
      obtain t r ds where rec: "trigger_loop cancelled jitter disp m (Suc attempt) (backoff * 2) (Some e) n'
          = (t, r, ds)" using prod_cases3 by blast
      have "Suc attempt + k = Suc m" "0 \<le> backoff * 2" "backoff * 2 * 2 ^ k \<le> int64_max"
        using Suc.prems by (simp_all add: ac_simps)
      from Suc.IH [OF _ this, of "Some e" n']
      have "0 \<le> sum_list ds" "4 * sum_list ds \<le> 5 * (backoff * 2 * (2 ^ k - 1))" by (simp_all add: rec)
      moreover have "trigger_loop cancelled jitter disp m attempt backoff lastErr n
          = (t, r, jitter attempt backoff # ds)"
        using loop_goes_on [of attempt m cancelled disp n n' e jitter backoff t r ds lastErr] nc Suc.prems(1) le rec x
        by (simp add: d w)
      ultimately show ?thesis using j total by simp
    qed
  qed
qed

lemma trigger_delays:
  assumes "jitter_ok jitter"
  shows "4 * sum_list (snd (snd (triggerWithRetry cancelled jitter disp 3 n))) \<le> 35 * second"
proof -
  obtain n' x where d: "disp n = (n', x)" by fastforce
  have "4 * sum_list (snd (snd (trigger_loop cancelled jitter disp 3 1 second (Some e) n'))) \<le> 5 * (second * (2 ^ 3 - 1))" for e
    using loop_delays [OF assms, of 1 3 3 second cancelled disp "Some e" n'] by (simp add: int64_max_def)
  then show ?thesis
    by (cases x) (simp_all add: triggerWithRetry_def trigger_loop.simps [of _ _ _ _ 0] d initialBackoff_def
        Let_def split_beta)
qed

section \<open>Properties\<close>

text \<open>C37: Dispatching retries as promised: at most four requests are sent, all of them the same; every
  outcome before the last is a retryable failure (not a 4xx answer), the task counts as dispatched
  exactly when the last answer is 204, and a 4xx answer ends the attempts and is the error returned.\<close>

theorem dispatch_attempts:
  assumes "triggerWithRetry cancelled jitter (logged (dispatch bad_url http req)) defaultMaxRetries (n, [])
      = ((n', log), r, delays)"
  shows "length log \<le> 4
    \<and> (\<forall>x\<in>set (butlast log). \<exists>e. x = Some e \<and> \<not> client_error e)
    \<and> (r = None \<longleftrightarrow> log \<noteq> [] \<and> last log = None)
    \<and> (\<forall>e. log \<noteq> [] \<and> last log = Some e \<and> client_error e \<longrightarrow> r = Some e)
    \<and> (snd (dispatch bad_url http req m) = None \<longleftrightarrow>
         bad_url (hr_url req) = None \<and> (\<exists>body. snd (http req m) = Inr (204, body)))"
proof -
  obtain l where "snd (n', log) = snd (n, []) @ l" "good_log 4 l r"
    using loop_log [of 0 4 3 cancelled jitter "dispatch bad_url http req" initialBackoff None "(n, [])"] assms
    by (auto simp: triggerWithRetry_def defaultMaxRetries_def)
  then have "log = l" "good_log 4 log r" by simp_all
  moreover have "snd (dispatch bad_url http req m) = None \<longleftrightarrow>
      bad_url (hr_url req) = None \<and> (\<exists>body. snd (http req m) = Inr (204, body))"
    by (auto simp: dispatch_def StatusNoContent_def split: option.splits prod.splits sum.splits)
  ultimately show ?thesis using good_logD [of 4 log r] by blast
qed

definition example_gh :: GitHub where
  "example_gh = \<lparr>gh_Token = ''pat'', gh_Repo = ''o/r'', gh_WorkflowID = ''w.yml'', gh_Ref = ''main'',
     gh_APIURL = ''https://api.github.com'', gh_PublicURL = ''https://proxy:8443''\<rparr>"

definition example_request :: http_request where
  "example_request = dispatch_request example_gh (example_ctx ''forgejo-a'' ''tok-a'') example_instance"

text \<open>Answers 500 once, then 204.\<close>

definition flaky_http :: "http_request \<Rightarrow> nat \<Rightarrow> nat \<times> (string + nat \<times> string)" where
  "flaky_http req k = (Suc k, Inr (if k = 0 then 500 else 204, []))"

theorem dispatch_attempts_witness:
  "\<exists>log delays. triggerWithRetry (\<lambda>_. False) (\<lambda>_ b. b) (logged (dispatch (\<lambda>_. None) flaky_http example_request))
      defaultMaxRetries (0, []) = ((2, log), None, delays) \<and> last log = None"
proof -
  have h: "triggerWithRetry (\<lambda>_. False) (\<lambda>_ b. b) (logged (dispatch (\<lambda>_. None) flaky_http example_request))
      defaultMaxRetries (0, []) = ((2, [Some (DispatchError 500 []), None]), None, [second])"
    by (simp add: triggerWithRetry_def trigger_loop.simps logged_def dispatch_def flaky_http_def
        StatusNoContent_def client_error_def defaultMaxRetries_def initialBackoff_def Let_def)
  show ?thesis using h dispatch_attempts [OF h, of 0] by blast
qed

text \<open>The waits between the attempts are bounded: with a jitter of at most 25 per cent the three
  backoffs of one, two and four seconds add up to at most 8.75 seconds, whatever GitHub answers.\<close>

theorem dispatch_backoff_bounded:
  assumes "jitter_ok jitter"
  shows "4 * sum_list (snd (snd (Trigger (NewDispatcher gh) cancelled jitter bad_url http taskCtx inst n))) \<le> 35 * second"
  unfolding Trigger_def NewDispatcher_def defaultMaxRetries_def Dispatcher.simps by (rule trigger_delays [OF assms])

theorem dispatch_backoff_bounded_witness:
  "4 * sum_list (snd (snd (Trigger (NewDispatcher example_gh) (\<lambda>_. False) (\<lambda>_ b. b) (\<lambda>_. None) flaky_http
     (example_ctx ''forgejo-a'' ''tok-a'') example_instance 0))) \<le> 35 * second"
proof -
  have "jitter_ok (\<lambda>_ b. b)" by (simp add: jitter_ok_def)
  then show ?thesis by (rule dispatch_backoff_bounded)
qed

text \<open>The workflow that is started learns exactly what the runner needs: the request carries the
  task's own registration token and, for labels as the configuration yields them, a label string
  that parses back to the labels of the owning instance.\<close>

theorem dispatch_inputs_faithful:
  assumes "\<forall>l\<in>set (i_ForgejoRunnerLabels inst). l \<noteq> [] \<and> trimmed l \<and> CHR '','' \<notin> set l"
  shows "di_RegToken (di_Inputs (hr_body (dispatch_request gh taskCtx inst))) = t_RegToken taskCtx
    \<and> parseLabels (di_Labels (di_Inputs (hr_body (dispatch_request gh taskCtx inst))))
        = i_ForgejoRunnerLabels inst
    \<and> di_ProxyURL (di_Inputs (hr_body (dispatch_request gh taskCtx inst))) = gh_PublicURL gh
    \<and> (dispatch_request gh taskCtx inst = dispatch_request gh other inst
         \<longleftrightarrow> t_RegToken other = t_RegToken taskCtx)"
  using parseLabels_join [OF assms] by (auto simp: dispatch_request_def)

theorem dispatch_inputs_faithful_witness:
  "parseLabels (di_Labels (di_Inputs (hr_body (dispatch_request example_gh
     (example_ctx ''forgejo-a'' ''tok-a'') example_instance)))) = [''docker'']"
proof -
  have "i_ForgejoRunnerLabels example_instance = [''docker'']" by (simp add: example_instance_def)
  moreover have "trimmed ''docker''"
    by (simp add: trimmed_def strip_one_def space_runes_def)
  ultimately show ?thesis using dispatch_inputs_faithful [of example_instance] by simp
qed

end
