(* ===== verification/South_Registry.thy ===== *)
theory South_Registry
  imports Session_Manager
begin

text \<open>
  The registry of task tokens (\<^verbatim>\<open>tokenRegistry\<close> of \<^verbatim>\<open>internal/south/proxy.go\<close>): which
  instance owns the token that a runner presents in a git or API request. The registry reads the
  status of the tasks and the sessions, both of which belong to other components: they are
  arguments.
\<close>

section \<open>The tokens of a task\<close>

definition add_token :: "string list \<Rightarrow> string \<Rightarrow> string list" where
  "add_token out s = (if s = [] \<or> s \<in> set out then out else out @ [s])"

definition runtimeTaskTokens :: "v1_Task \<Rightarrow> string list" where
  "runtimeTaskTokens task =
     (let out0 = [];
          out2 = (case vt_Context task of
              None \<Rightarrow> out0
            | Some fs \<Rightarrow> add_token (add_token out0 (field_string fs ''token'')) (field_string fs ''gitea_runtime_token''));
          out3 = add_token out2 (map_string (vt_Secrets task) ''GITEA_TOKEN'')
      in add_token out3 (map_string (vt_Secrets task) ''GITHUB_TOKEN''))"

section \<open>The registry\<close>

record tokenEntry =
  te_instance :: string
  te_task :: tref
  te_sessionToken :: string
  te_expireAt :: time

type_synonym tokenRegistry = "(string, tokenEntry) gomap"

definition newTokenRegistry :: tokenRegistry where
  [simp]: "newTokenRegistry = []"

definition proxyEntryTTL :: duration where
  "proxyEntryTTL = 24 * hour"

definition putTaskTokens :: "theap \<Rightarrow> tref \<Rightarrow> string \<Rightarrow> time \<Rightarrow> tokenRegistry \<Rightarrow> tokenRegistry" where
  "putTaskTokens h tc sessionToken now r =
     (let expireAt = now + proxyEntryTTL in
      fold (\<lambda>tok. mput tok \<lparr>te_instance = t_Instance (h tc), te_task = tc,
          te_sessionToken = sessionToken, te_expireAt = expireAt\<rparr>)
        (runtimeTaskTokens (t_Task (h tc))) r)"

definition registry_lookup :: "theap \<Rightarrow> Manager \<Rightarrow> string \<Rightarrow> time \<Rightarrow> tokenRegistry \<Rightarrow> tokenRegistry \<times> string option" where
  "registry_lookup h sessions tok now r =
     (case mget r tok of
        None \<Rightarrow> (mdel tok r, None)
      | Some e \<Rightarrow>
          if \<not> now < te_expireAt e \<or> Status (h (te_task e)) = StatusTerminal then (mdel tok r, None)
          else (case Lookup (te_sessionToken e) sessions of
                  None \<Rightarrow> (mdel tok r, None)
                | Some _ \<Rightarrow> (r, Some (te_instance e))))"

definition registry_count :: "tokenRegistry \<Rightarrow> nat" where
  "registry_count r = length r"

section \<open>Lemmas\<close>

lemma set_add_token: "set (add_token out s) = set out \<union> ({s} - {[]})"
  by (auto simp: add_token_def)

lemma distinct_add_token: "distinct out \<Longrightarrow> distinct (add_token out s)"
  by (simp add: add_token_def)

text \<open>The token a task presents under each of its four names.\<close>

definition context_token :: "v1_Task \<Rightarrow> string \<Rightarrow> string" where
  "context_token task k = (case vt_Context task of None \<Rightarrow> [] | Some fs \<Rightarrow> field_string fs k)"

lemma runtimeTaskTokens_set:
  "set (runtimeTaskTokens task) =
     {context_token task ''token'', context_token task ''gitea_runtime_token'',
      map_string (vt_Secrets task) ''GITEA_TOKEN'', map_string (vt_Secrets task) ''GITHUB_TOKEN''} - {[]}"
  by (auto simp: runtimeTaskTokens_def context_token_def set_add_token Let_def split: option.split)

lemma runtimeTaskTokens_distinct: "distinct (runtimeTaskTokens task)"
  by (simp add: runtimeTaskTokens_def distinct_add_token Let_def split: option.split)

lemma mget_fold_mput:
  "mget (fold (\<lambda>k. mput k v) ks r) k = (if k \<in> set ks then Some v else mget r k)"
  by (induction ks arbitrary: r) auto

lemma putTaskTokens_get:
  "mget (putTaskTokens h tc st now r) tok =
    (if tok \<in> set (runtimeTaskTokens (t_Task (h tc)))
     then Some \<lparr>te_instance = t_Instance (h tc), te_task = tc, te_sessionToken = st,
       te_expireAt = now + proxyEntryTTL\<rparr>
     else mget r tok)"
  by (simp add: putTaskTokens_def Let_def mget_fold_mput)

lemma putTaskTokens_idem:
  "mget (putTaskTokens h tc st now (putTaskTokens h tc st now r)) tok = mget (putTaskTokens h tc st now r) tok"
  by (simp add: putTaskTokens_get)

definition entry_live :: "theap \<Rightarrow> Manager \<Rightarrow> time \<Rightarrow> tokenEntry \<Rightarrow> bool" where
  "entry_live h sessions now e \<longleftrightarrow> now < te_expireAt e \<and> Status (h (te_task e)) \<noteq> StatusTerminal
     \<and> Lookup (te_sessionToken e) sessions \<noteq> None"

lemma registry_lookup_conv:
  "registry_lookup h sessions tok now r =
    (case mget r tok of
       None \<Rightarrow> (mdel tok r, None)
     | Some e \<Rightarrow> if entry_live h sessions now e then (r, Some (te_instance e)) else (mdel tok r, None))"
  by (auto simp: registry_lookup_def entry_live_def split: option.split)

section \<open>Properties\<close>

text \<open>Token routing in the proxy is sound and complete: after a task's tokens were registered, a
  lookup of one of its non-empty runtime tokens yields the task's own instance as long as the entry
  is younger than 24 hours, the task is not terminal and the session exists, and nothing otherwise;
  lookups and registrations of other tokens do not disturb it.\<close>

theorem registry_routes:
  assumes "tok \<in> set (runtimeTaskTokens (t_Task (h tc)))"
    and "other \<notin> set (runtimeTaskTokens (t_Task (h tc)))"
  shows "snd (registry_lookup h' sessions tok now' (putTaskTokens h tc st now r)) =
      (if now' - now < 24 * hour \<and> Status (h' tc) \<noteq> StatusTerminal \<and> Lookup st sessions \<noteq> None
       then Some (t_Instance (h tc)) else None)
    \<and> snd (registry_lookup h' sessions other now' (putTaskTokens h tc st now r)) =
        snd (registry_lookup h' sessions other now' r)
    \<and> mget (fst (registry_lookup h' sessions other now' (putTaskTokens h tc st now r))) tok =
        mget (putTaskTokens h tc st now r) tok
    \<and> tok \<noteq> []"
proof -
  let ?r = "putTaskTokens h tc st now r"
  have ne: "tok \<noteq> other" "tok \<noteq> []" using assms by (auto simp: runtimeTaskTokens_set)
  have a: "snd (registry_lookup h' sessions tok now' ?r) =
      (if now' - now < 24 * hour \<and> Status (h' tc) \<noteq> StatusTerminal \<and> Lookup st sessions \<noteq> None
       then Some (t_Instance (h tc)) else None)"
    using assms(1) by (simp add: registry_lookup_conv putTaskTokens_get entry_live_def proxyEntryTTL_def algebra_simps)
  have o: "mget ?r other = mget r other" using assms(2) by (simp add: putTaskTokens_get)
  have b: "snd (registry_lookup h' sessions other now' ?r) = snd (registry_lookup h' sessions other now' r)"
    unfolding registry_lookup_conv o by (simp split: option.split)
  have c: "mget (fst (registry_lookup h' sessions other now' ?r)) tok = mget ?r tok"
    using ne unfolding registry_lookup_conv by (simp split: option.split)
  show ?thesis using a b c ne by blast
qed

definition example_token_task :: v1_Task where
  "example_token_task = example_task\<lparr>vt_Context := Some [(''token'', StringValue ''ghs_1'')]\<rparr>"

definition example_token_heap :: theap where
  "example_token_heap r = (example_ctx ''forgejo-a'' ''tok-a'')\<lparr>t_Task := example_token_task\<rparr>"

lemma example_token_mem: "''ghs_1'' \<in> set (runtimeTaskTokens (t_Task (example_token_heap r)))"
  "''x'' \<notin> set (runtimeTaskTokens (t_Task (example_token_heap r)))"
  by (simp_all add: runtimeTaskTokens_set example_token_heap_def example_token_task_def context_token_def
      field_string_def GetStringValue_def mget_def map_string_def example_task_def example_ctx_def)

theorem registry_routes_witness:
  "snd (registry_lookup example_token_heap example_manager ''ghs_1'' (23 * hour)
     (putTaskTokens example_token_heap 7 ''tok'' 0 [])) = Some ''forgejo-a''"
proof -
  have "Status (example_token_heap 7) \<noteq> StatusTerminal" "t_Instance (example_token_heap 7) = ''forgejo-a''"
    by (simp_all add: Status_def example_token_heap_def example_ctx_def)
  then show ?thesis
    using registry_routes [where h = example_token_heap and tc = 7 and h' = example_token_heap and
        sessions = example_manager and now' = "23 * hour" and st = "''tok''" and now = 0 and r = "[]",
        OF example_token_mem(1) [of 7] example_token_mem(2) [of 7]] example_manager_simps(1)
    by simp
qed

text \<open>A lookup never serves a dead entry and evicts it: the answer is the instance of a stored
  entry that is unexpired, whose task is not terminal and whose session is registered; any other
  entry under the token is gone afterwards, and no other entry is touched. In particular a token
  stops routing the moment its session is removed.\<close>

theorem registry_lookup_exact:
  "snd (registry_lookup h sessions tok now r) =
      Option.bind (mget r tok) (\<lambda>e. if entry_live h sessions now e then Some (te_instance e) else None)
    \<and> mget (fst (registry_lookup h sessions tok now r)) other =
        (if other = tok \<and> snd (registry_lookup h sessions tok now r) = None then None else mget r other)
    \<and> (\<forall>e. mget r tok = Some e \<longrightarrow>
         snd (registry_lookup h (Remove_session (te_sessionToken e) sessions) tok now r) = None)"
  by (auto simp: registry_lookup_conv entry_live_def split: option.split Option.bind_split)

theorem registry_lookup_exact_witness:
  "snd (registry_lookup example_token_heap (Remove_session ''tok'' example_manager) ''ghs_1'' 0
     [(''ghs_1'', \<lparr>te_instance = ''forgejo-a'', te_task = 7, te_sessionToken = ''tok'', te_expireAt = 10\<rparr>)]) = None"
  using registry_lookup_exact [of example_token_heap example_manager "''ghs_1''" 0
    "[(''ghs_1'', \<lparr>te_instance = ''forgejo-a'', te_task = 7, te_sessionToken = ''tok'', te_expireAt = 10\<rparr>)]"]
  by (simp add: mget_Cons)

end
