(* ===== verification/South_Messages.thy ===== *)
theory South_Messages
  imports Session_Manager Runner_V1
begin

text \<open>
  The requests the internal runner sends to the south server (\<^verbatim>\<open>internal/south/handler.go\<close>), and
  how far the goroutine that serves one has come. A program counter names the point between two
  lock sections at which the goroutine stands, with the local variables it needs afterwards.
\<close>

section \<open>Messages\<close>

text \<open>A missing header reads as the empty string.\<close>

record req_headers =
  rq_runner_token :: string
  rq_runner_uuid :: string
  rq_authorization :: string

record south_RegisterRequest =
  sr_Token :: string
  sr_Name :: string
  sr_Labels :: "string list"

record south_DeclareRequest =
  sd_Labels :: "string list"
  sd_Version :: string

datatype south_call =
    CallRegister south_RegisterRequest
  | CallDeclare req_headers south_DeclareRequest
  | CallFetchTask req_headers
  | CallUpdateTask req_headers UpdateTaskRequest
  | CallUpdateLog req_headers UpdateLogRequest

datatype south_response =
    RunnerResponse v1_Runner
  | TaskResponse v1_Task
  | UpdateResponse UpdateTaskResponse
  | LogResponse UpdateLogResponse

section \<open>Progress of a request\<close>

text \<open>
  \<open>ReqFound\<close>: the token is that of a session, which is still to be touched. \<open>ReqMissed\<close>: it is not, and
  may be a registration token. \<open>ReqSeen\<close>: it is one, of a task whose deadline has not passed.
  \<open>ReqClaimed\<close>: the token is spent. \<open>ReqPublished\<close>: the session is in the registry, its token is still to be
  noted in the task. \<open>ReqOpened\<close>, \<open>ReqTouched\<close>: it is, and the task is still to be marked. \<open>ReqAuth\<close>: authenticated. \<open>ReqReported\<close> to \<open>ReqDropped\<close>: the cleanup after an accepted
  terminal report. \<open>ReqDone\<close>: answered.
\<close>

datatype request_pc =
    ReqStart
  | ReqFound string sref
  | ReqMissed string
  | ReqSeen string tref
  | ReqClaimed string tref
  | ReqPublished string tref sref
  | ReqOpened string tref sref
  | ReqTouched tref sref
  | ReqAuth sref
  | ReqReported sref UpdateTaskResponse
  | ReqSettled sref UpdateTaskResponse
  | ReqEnded sref UpdateTaskResponse
  | ReqDropped sref UpdateTaskResponse
  | ReqDone "go_err + south_response"

type_synonym request = "south_call \<times> request_pc"

end
