(* ===== verification/World.thy ===== *)
theory World
  imports South_Registry South_Messages North_API Slot_Pool
begin

text \<open>
  The shared state of the daemon: what \<^verbatim>\<open>app.Run\<close> creates once and hands to the poller, the
  task runner, the south server and the GC loop. \<open>w_ext\<close> is everything outside: the northbound
  clients, the Forgejo instances, GitHub. Calls that leave the process (an RPC, a dispatch) are
  functions on the whole world, because other goroutines run while the caller waits: their
  effect is the effect of the call and of everything that happened meanwhile. \<open>w_requests\<close> are the
  RPCs the south server is serving or has served.
\<close>

record 'x world =
  w_heap :: theap
  w_next :: tref
  w_store :: MemStore
  w_sessions :: Manager
  w_registry :: tokenRegistry
  w_pool :: pool
  w_chan :: "tref list"
  w_chan_cap :: nat
  w_requests :: "request list"
  w_ext :: 'x

text \<open>The operations of the components, on the shared state.\<close>

definition w_modify :: "tref \<Rightarrow> (TaskCtx \<Rightarrow> TaskCtx) \<Rightarrow> 'x world \<Rightarrow> 'x world" where
  "w_modify r f w = w\<lparr>w_heap := modify r f (w_heap w)\<rparr>"

definition w_release :: "'x world \<Rightarrow> 'x world" where
  "w_release w = w\<lparr>w_pool := Release (w_pool w)\<rparr>"

definition w_remove_task :: "int \<Rightarrow> 'x world \<Rightarrow> 'x world" where
  "w_remove_task tid w = w\<lparr>w_store := Remove tid (w_store w)\<rparr>"

definition w_remove_session :: "string \<Rightarrow> 'x world \<Rightarrow> 'x world" where
  "w_remove_session tok w = w\<lparr>w_sessions := Remove_session tok (w_sessions w)\<rparr>"

lemmas w_defs = w_modify_def w_release_def w_remove_task_def w_remove_session_def

text \<open>A world in which a task is known: its address, and what its immutable fields are.\<close>

lemma w_fields [simp]:
  "w_heap (w_release w) = w_heap w" "w_store (w_release w) = w_store w"
  "w_sessions (w_release w) = w_sessions w" "w_pool (w_release w) = Release (w_pool w)"
  "w_ext (w_release w) = w_ext w" "w_chan (w_release w) = w_chan w"
  "w_heap (w_remove_task i w) = w_heap w" "w_store (w_remove_task i w) = Remove i (w_store w)"
  "w_sessions (w_remove_task i w) = w_sessions w" "w_pool (w_remove_task i w) = w_pool w"
  "w_ext (w_remove_task i w) = w_ext w" "w_chan (w_remove_task i w) = w_chan w"
  "w_heap (w_remove_session t w) = w_heap w" "w_store (w_remove_session t w) = w_store w"
  "w_sessions (w_remove_session t w) = Remove_session t (w_sessions w)"
  "w_pool (w_remove_session t w) = w_pool w"
  "w_ext (w_remove_session t w) = w_ext w" "w_chan (w_remove_session t w) = w_chan w"
  "w_heap (w_modify r f w) = modify r f (w_heap w)" "w_store (w_modify r f w) = w_store w"
  "w_sessions (w_modify r f w) = w_sessions w" "w_pool (w_modify r f w) = w_pool w"
  "w_ext (w_modify r f w) = w_ext w" "w_chan (w_modify r f w) = w_chan w"
  "w_next (w_release w) = w_next w" "w_next (w_remove_task i w) = w_next w"
  "w_next (w_remove_session t w) = w_next w" "w_next (w_modify r f w) = w_next w"
  "w_registry (w_release w) = w_registry w" "w_registry (w_remove_task i w) = w_registry w"
  "w_registry (w_remove_session t w) = w_registry w" "w_registry (w_modify r f w) = w_registry w"
  "w_chan_cap (w_release w) = w_chan_cap w" "w_chan_cap (w_remove_task i w) = w_chan_cap w"
  "w_chan_cap (w_remove_session t w) = w_chan_cap w" "w_chan_cap (w_modify r f w) = w_chan_cap w"
  "w_requests (w_release w) = w_requests w" "w_requests (w_remove_task i w) = w_requests w"
  "w_requests (w_remove_session t w) = w_requests w" "w_requests (w_modify r f w) = w_requests w"
  by (simp_all add: w_defs)

lemma Remove_gone: "ms_ok m \<Longrightarrow> mget (ms_tasks (Remove i m)) i = None"
  by (simp add: Remove_def removeLocked_lookup)

end
