(* ===== verification/Run_Task.thy ===== *)
theory Run_Task
  imports World Dispatch_GitHub
begin

text \<open>
  The life cycle of one task (\<^verbatim>\<open>internal/run/runner.go\<close>).

  \<open>HandleTask\<close> blocks in two selects, and ends with a list of actions that take a lock or make a call
  each. It is cut there into steps: \<open>HStart\<close> up to the first select, \<open>HWait1\<close> while the runner has not
  registered, \<open>HWait2\<close> until the terminal state, \<open>HClean\<close> with the actions that are left. A step
  from a select carries the case that fires; between steps the rest of the daemon may change the
  world. The client resolved at the start is kept for the timeout report.
  \<open>h_heartbeat\<close> says whether the heartbeat goroutine of this task is running.
  \<open>trigger\<close> is \<^verbatim>\<open>Dispatcher.Trigger\<close> (theory \<open>Dispatch_GitHub\<close>) on the world.
\<close>

section \<open>Steps\<close>

datatype 'x exit_op = ExReport "('x world) Client" | ExSession | ExDrop string | ExRelease | ExTask

datatype 'x handler_pc = HStart | HWait1 "('x world) Client" | HWait2 | HClean "'x exit_op list"

abbreviation HExit :: "'x handler_pc" where
  "HExit \<equiv> HClean []"

record 'x handler =
  h_pc :: "'x handler_pc"
  h_heartbeat :: bool

datatype ready = ReadyDone | ReadyRegistered | ReadyTimeout | ReadyCtx

type_synonym 'x trigger = "TaskCtx \<Rightarrow> Instance \<Rightarrow> 'x world \<Rightarrow> 'x world \<times> dispatch_err option"

definition FailureUpdateRequest :: "int \<Rightarrow> UpdateTaskRequest" where
  "FailureUpdateRequest taskID =
     \<lparr>utr_State = Some \<lparr>ts_Id = taskID, ts_Result = RESULT_FAILURE, ts_rest = []\<rparr>, utr_rest = []\<rparr>"

definition closing :: "'x exit_op list \<Rightarrow> 'x handler" where
  "closing ops = \<lparr>h_pc = HClean ops, h_heartbeat = False\<rparr>"

abbreviation exited :: "'x handler" where
  "exited \<equiv> closing []"

text \<open>\<^verbatim>\<open>r.store.Remove(taskCtx.ID)\<close>.\<close>

definition drop_task :: "tref \<Rightarrow> 'x world \<Rightarrow> 'x world" where
  "drop_task r w = w_remove_task (t_ID (w_heap w r)) w"

text \<open>The failure report; its result is ignored.\<close>

definition report_failure :: "('x world) Client \<Rightarrow> tref \<Rightarrow> 'x world \<Rightarrow> 'x world" where
  "report_failure client r w = fst (ForwardUpdateTask client (FailureUpdateRequest (t_ID (w_heap w r))) w)"

text \<open>The actions at the end, \<open>ExRelease\<close> being \<^verbatim>\<open>r.pool.Release()\<close>. The statement
  \<^verbatim>\<open>r.sessions.Remove(taskCtx.SessionToken())\<close> takes two locks: \<open>ExSession\<close> reads the token from the
  task and goes over into \<open>ExDrop\<close>, which removes the session with the token that was read.\<close>

fun exit_step :: "'x exit_op \<Rightarrow> tref \<Rightarrow> 'x world \<Rightarrow> 'x world" where
  "exit_step (ExReport client) r w = report_failure client r w"
| "exit_step ExSession r w = w"
| "exit_step (ExDrop tok) r w = w_remove_session tok w"
| "exit_step ExRelease r w = w_release w"
| "exit_step ExTask r w = drop_task r w"

fun exit_rest :: "'x exit_op \<Rightarrow> tref \<Rightarrow> 'x world \<Rightarrow> 'x exit_op list" where
  "exit_rest ExSession r w = [ExDrop (SessionToken (w_heap w r))]"
| "exit_rest _ r w = []"

text \<open>Entering a select evaluates its channels.\<close>

definition enter_select :: "tref \<Rightarrow> 'x world \<Rightarrow> 'x world" where
  "enter_select r w = w_modify r (\<lambda>t. fst (Registered (fst (Done t)))) w"

definition handle_start :: "('x world) Resolver \<Rightarrow> 'x trigger \<Rightarrow> tref \<Rightarrow> 'x world \<Rightarrow> 'x world \<times> 'x handler" where
  "handle_start R trigger r w =
     (case Resolve R (t_Instance (w_heap w r)) of
        None \<Rightarrow> (w, closing [ExTask, ExSession, ExRelease])
      | Some (inst, client) \<Rightarrow>
          (case trigger (w_heap w r) inst w of
             (w1, Some err) \<Rightarrow> (w1, closing [ExReport client, ExSession, ExRelease, ExTask])
           | (w1, None) \<Rightarrow>
               (enter_select r (w_modify r MarkDispatched w1), \<lparr>h_pc = HWait1 client, h_heartbeat = True\<rparr>)))"

definition handle_wait1 :: "('x world) Client \<Rightarrow> ready \<Rightarrow> tref \<Rightarrow> 'x world \<Rightarrow> 'x world \<times> 'x handler" where
  "handle_wait1 client sel r w =
     (case sel of
        ReadyDone \<Rightarrow> (w, closing [ExRelease])
      | ReadyRegistered \<Rightarrow> (w_modify r (\<lambda>t. fst (Done t)) w, \<lparr>h_pc = HWait2, h_heartbeat = True\<rparr>)
      | ReadyTimeout \<Rightarrow> (w, closing [ExReport client, ExSession, ExRelease, ExTask])
      | ReadyCtx \<Rightarrow>
          (w_modify r (\<lambda>t. fst (Registered t)) w,
           closing (if snd (Registered (w_heap w r)) = Closed then [ExRelease]
             else [ExSession, ExTask, ExRelease])))"

definition handle_wait2 :: "ready \<Rightarrow> tref \<Rightarrow> 'x world \<Rightarrow> 'x world \<times> 'x handler" where
  "handle_wait2 sel r w = (w, closing [ExRelease])"

text \<open>Which case of a select can fire. The timer is a case of the first select only.\<close>

definition can_fire :: "bool \<Rightarrow> bool \<Rightarrow> bool \<Rightarrow> ready \<Rightarrow> TaskCtx \<Rightarrow> bool" where
  "can_fire phase1 timer ctx sel t =
     (case sel of
        ReadyDone \<Rightarrow> done_fired t
      | ReadyRegistered \<Rightarrow> phase1 \<and> registered_fired t
      | ReadyTimeout \<Rightarrow> phase1 \<and> timer
      | ReadyCtx \<Rightarrow> ctx)"

text \<open>One step; \<open>None\<close> while the select blocks or after the exit.\<close>

definition handle_step :: "('x world) Resolver \<Rightarrow> 'x trigger \<Rightarrow> bool \<Rightarrow> bool \<Rightarrow> ready \<Rightarrow> tref \<Rightarrow>
    'x handler \<Rightarrow> 'x world \<Rightarrow> ('x world \<times> 'x handler) option" where
  "handle_step R trigger timer ctx sel r hs w =
     (case h_pc hs of
        HStart \<Rightarrow> Some (handle_start R trigger r w)
      | HWait1 client \<Rightarrow>
          (if can_fire True timer ctx sel (w_heap w r) then Some (handle_wait1 client sel r w) else None)
      | HWait2 \<Rightarrow> (if can_fire False timer ctx sel (w_heap w r) then Some (handle_wait2 sel r w) else None)
      | HClean [] \<Rightarrow> None
      | HClean (op # ops) \<Rightarrow> Some (exit_step op r w, closing (exit_rest op r w @ ops)))"

text \<open>The steps that an action still takes, and a run of the actions that nothing comes between.\<close>

fun op_rank :: "'x exit_op \<Rightarrow> nat" where
  "op_rank ExSession = 2"
| "op_rank _ = 1"

lemma exit_rest_rank: "(\<Sum>x\<leftarrow>exit_rest op r w. op_rank x) < op_rank op"
  by (cases op) simp_all

lemma op_rank_pos [simp]: "op_rank op \<noteq> 0"
  by (cases op) simp_all

function run_exit :: "'x exit_op list \<Rightarrow> tref \<Rightarrow> 'x world \<Rightarrow> 'x world" where
  "run_exit [] r w = w"
| "run_exit (op # ops) r w = run_exit (exit_rest op r w @ ops) r (exit_step op r w)"
  by pat_completeness auto

termination
  by (relation "measure (\<lambda>(ops, r, w). \<Sum>op\<leftarrow>ops. op_rank op)") (auto intro: exit_rest_rank)

section \<open>Lemmas\<close>

lemmas handler_defs = handle_start_def handle_wait1_def handle_wait2_def closing_def drop_task_def
  enter_select_def Let_def

lemma closing_fields [simp]: "h_pc (closing ops) = HClean ops" "h_heartbeat (closing ops) = False"
  by (simp_all add: closing_def)

text \<open>The slots a handler has still to give back, and whether it will still remove its task.\<close>

fun handler_slots :: "'x handler_pc \<Rightarrow> nat" where
  "handler_slots (HClean ops) = count_list ops ExRelease"
| "handler_slots _ = 1"

fun removes_task :: "'x handler_pc \<Rightarrow> bool" where
  "removes_task (HClean ops) \<longleftrightarrow> ExTask \<in> set ops"
| "removes_task _ \<longleftrightarrow> True"

fun releasing :: "'x handler_pc \<Rightarrow> bool" where
  "releasing (HClean (ExRelease # ops)) = True"
| "releasing _ = False"

lemma handle_step_cases:
  assumes "handle_step R trigger timer ctx sel r hs w = Some (w', hs')"
  obtains (start) "h_pc hs = HStart" "handle_start R trigger r w = (w', hs')"
  | (wait1) client where "h_pc hs = HWait1 client" "can_fire True timer ctx sel (w_heap w r)"
      "handle_wait1 client sel r w = (w', hs')"
  | (wait2) "h_pc hs = HWait2" "can_fire False timer ctx sel (w_heap w r)" "w' = w" "hs' = closing [ExRelease]"
  | (clean) op ops where "h_pc hs = HClean (op # ops)" "w' = exit_step op r w"
      "hs' = closing (exit_rest op r w @ ops)"
  using assms that
  by (auto simp: handle_step_def handle_wait2_def split: handler_pc.splits list.splits if_splits)

lemma handle_start_pc:
  assumes "handle_start R trigger r w = (w', hs')"
  obtains (unknown) "Resolve R (t_Instance (w_heap w r)) = None" "w' = w" "hs' = closing [ExTask, ExSession, ExRelease]"
  | (failed) inst client err where "Resolve R (t_Instance (w_heap w r)) = Some (inst, client)"
      "trigger (w_heap w r) inst w = (w', Some err)" "hs' = closing [ExReport client, ExSession, ExRelease, ExTask]"
  | (dispatched) inst client w1 where "Resolve R (t_Instance (w_heap w r)) = Some (inst, client)"
      "trigger (w_heap w r) inst w = (w1, None)" "w' = enter_select r (w_modify r MarkDispatched w1)"
      "hs' = \<lparr>h_pc = HWait1 client, h_heartbeat = True\<rparr>"
  using assms that by (auto simp: handle_start_def split: option.splits prod.splits)

lemma handle_wait1_pc:
  assumes "handle_wait1 client sel r w = (w', hs')" "can_fire True timer ctx sel (w_heap w r)"
  obtains (finished) "done_fired (w_heap w r)" "w' = w" "hs' = closing [ExRelease]"
  | (registered) "registered_fired (w_heap w r)" "w' = w_modify r (\<lambda>t. fst (Done t)) w"
      "hs' = \<lparr>h_pc = HWait2, h_heartbeat = True\<rparr>"
  | (timeout) "timer" "w' = w" "hs' = closing [ExReport client, ExSession, ExRelease, ExTask]"
  | (left_running) "ctx" "registered_fired (w_heap w r)" "w' = w_modify r (\<lambda>t. fst (Registered t)) w"
      "hs' = closing [ExRelease]"
  | (given_up) "ctx" "\<not> registered_fired (w_heap w r)" "w' = w_modify r (\<lambda>t. fst (Registered t)) w"
      "hs' = closing [ExSession, ExTask, ExRelease]"
proof -
  have r: "snd (Registered (w_heap w r)) = Closed \<longleftrightarrow> registered_fired (w_heap w r)"
    by (simp add: taskctx_defs registered_fired_def)
  show ?thesis
  proof (cases sel)
    case ReadyDone
    then show ?thesis using assms by (intro finished) (simp_all add: handle_wait1_def can_fire_def)
  next
    case ReadyRegistered
    then show ?thesis using assms by (intro registered) (simp_all add: handle_wait1_def can_fire_def)
  next
    case ReadyTimeout
    then show ?thesis using assms by (intro timeout) (simp_all add: handle_wait1_def can_fire_def)
  next
    case ReadyCtx
    show ?thesis
    proof (cases "registered_fired (w_heap w r)")
      case True
      then show ?thesis using assms ReadyCtx r by (intro left_running) (simp_all add: handle_wait1_def can_fire_def)
    next
      case False
      then show ?thesis using assms ReadyCtx r by (intro given_up) (simp_all add: handle_wait1_def can_fire_def)
    qed
  qed
qed

section \<open>Properties\<close>

text \<open>The slot of a task is released exactly once: on every path through \<open>HandleTask\<close>, error,
  timeout, shutdown and completion alike, the actions that are left contain the release exactly once
  until it is done. The heartbeat is running exactly while the handler waits.\<close>

theorem slot_released_once:
  assumes "handle_step R trigger timer ctx sel r hs w = Some (w', hs')"
  shows "handler_slots (h_pc hs') + (if releasing (h_pc hs) then 1 else 0) = handler_slots (h_pc hs)
    \<and> (h_heartbeat hs' \<longleftrightarrow> (\<forall>ops. h_pc hs' \<noteq> HClean ops)) \<and> h_pc hs' \<noteq> HStart
    \<and> (releasing (h_pc hs) \<longrightarrow> w' = w_release w)"
  using assms
proof (cases rule: handle_step_cases)
  case start
  from start(2) show ?thesis by (cases rule: handle_start_pc) (simp_all add: start(1))
next
  case (wait1 client)
  from wait1(3,2) show ?thesis by (cases rule: handle_wait1_pc) (simp_all add: wait1(1))
next
  case wait2
  then show ?thesis by simp
next
  case (clean op ops)
  then show ?thesis by (cases op) simp_all
qed

text \<open>One instance whose client records the reports it gets; the dispatch fails or not.\<close>

definition log_client :: "(UpdateTaskRequest list world) Client" where
  "log_client = \<lparr>ForwardUpdateTask = (\<lambda>req w. (w\<lparr>w_ext := w_ext w @ [req]\<rparr>, Inr (UpdateTaskResponse []))),
     ForwardUpdateLog = (\<lambda>_ w. (w, Inr (UpdateLogResponse []))), HeartbeatTick = (\<lambda>_ w. w)\<rparr>"

definition log_resolver :: "(UpdateTaskRequest list world) Resolver" where
  "log_resolver = app_resolver [(''forgejo-a'', (example_instance, log_client))]"

definition example_world :: "UpdateTaskRequest list world" where
  "example_world = \<lparr>w_heap = example_heap, w_next = 2, w_store = PutPending example_heap 0 NewMemStore,
     w_sessions = NewManager, w_registry = [], w_pool = \<lparr>pool_cap = 5, pool_sem = 1\<rparr>, w_chan = [],
     w_chan_cap = 5, w_requests = [], w_ext = []\<rparr>"

lemma log_simps [simp]:
  "Resolve log_resolver ''forgejo-a'' = Some (example_instance, log_client)"
  "ForwardUpdateTask log_client req w = (w\<lparr>w_ext := w_ext w @ [req]\<rparr>, Inr (UpdateTaskResponse []))"
  "t_Instance (w_heap example_world 0) = ''forgejo-a''"
  by (simp_all add: log_resolver_def app_resolver_def app_Resolve_def mget_Cons log_client_def
      example_world_def example_heap_def example_ctx_def)

theorem slot_released_once_witness:
  "\<exists>w'. handle_step log_resolver (\<lambda>_ _ w. (w, Some CtxErr)) False False ReadyCtx 0
      \<lparr>h_pc = HStart, h_heartbeat = False\<rparr> example_world
        = Some (w', closing [ExReport log_client, ExSession, ExRelease, ExTask])
    \<and> handler_slots (HClean [ExReport log_client, ExSession, ExRelease, ExTask]) = 1"
proof -
  obtain w' where h: "handle_step log_resolver (\<lambda>_ _ w. (w, Some CtxErr)) False False ReadyCtx 0
      \<lparr>h_pc = HStart, h_heartbeat = False\<rparr> example_world
        = Some (w', closing [ExReport log_client, ExSession, ExRelease, ExTask])"
    by (simp add: handle_step_def handle_start_def)
  then show ?thesis using slot_released_once [OF h] by simp
qed

text \<open>No task is left behind by mistake: when a handler starts to end, the removal of the task and of its
  session are among the actions that are left, unless the task is already done (and is cleaned up
  by whoever marked it done) or the daemon is shutting down while a registered runner executes it;
  and each of the actions does what it is there for: the session that goes is the one whose token the
  task held when it was read.\<close>

theorem handler_leaves_nothing_behind:
  assumes "handle_step R trigger timer ctx sel r hs w = Some (w', hs')" and "h_pc hs' = HClean ops"
  shows "(case h_pc hs of
      HClean left \<Rightarrow> \<exists>op rest. left = op # rest \<and> (op \<noteq> ExSession \<longrightarrow> ops = rest)
        \<and> (op = ExTask \<longrightarrow> mget (ms_tasks (w_store w')) (t_ID (w_heap w' r)) = None)
        \<and> (op = ExSession \<longrightarrow> ops = ExDrop (SessionToken (w_heap w r)) # rest)
        \<and> (\<forall>tok. op = ExDrop tok \<longrightarrow> Lookup tok (w_sessions w') = None)
    | _ \<Rightarrow> {ExSession, ExTask} \<subseteq> set ops \<or> sel = ReadyDone \<and> done_fired (w_heap w r)
        \<or> sel = ReadyCtx \<and> ctx \<and> (h_pc hs = HWait2 \<or> registered_fired (w_heap w r)))"
  using assms(1)
proof (cases rule: handle_step_cases)
  case start
  from start(2) show ?thesis by (cases rule: handle_start_pc) (use start(1) assms(2) in auto)
next
  case (wait1 client)
  have "snd (Registered (w_heap w r)) = Closed \<longleftrightarrow> registered_fired (w_heap w r)"
    by (simp add: taskctx_defs registered_fired_def)
  then show ?thesis
    using wait1 assms(2) by (cases sel) (auto simp: handle_wait1_def can_fire_def split: if_splits)
next
  case wait2
  then show ?thesis by (cases sel) (simp_all add: can_fire_def)
next
  case (clean op rest)
  then show ?thesis
    using assms(2) by (cases op) (auto simp: drop_task_def Remove_def removeLocked_def)
qed

theorem handler_leaves_nothing_behind_witness:
  "\<exists>w'. handle_step log_resolver (\<lambda>_ _ w. (w, None)) True False ReadyTimeout 0
      (closing [ExTask]) example_world = Some (w', exited)
    \<and> mget (ms_tasks (w_store w')) (t_ID (w_heap w' 0)) = None"
proof -
  obtain w' where h: "handle_step log_resolver (\<lambda>_ _ w. (w, None)) True False ReadyTimeout 0
      (closing [ExTask]) example_world = Some (w', exited)"
    by (simp add: handle_step_def)
  show ?thesis using h handler_leaves_nothing_behind [OF h] by simp
qed

text \<open>C23: The startup timeout ends with the registration of the runner. A handler reaches phase 2 only
  after the registration, and from then on, whatever is done to the task, no timer can end it: it
  goes on exactly until the task is done or the daemon shuts down, and then leaves store and
  sessions as they are and has only its slot to give back.\<close>

theorem registered_never_times_out:
  assumes "h_pc hs = HWait1 client"
    and "handle_step R trigger timer ctx sel r hs w = Some (w', hs')" and "h_pc hs' = HWait2"
    and "w_heap w2 r = ctx_run ops (w_heap w' r)"
  shows "registered_fired (w_heap w2 r)
    \<and> handle_step R trigger timer2 ctx2 ReadyTimeout r hs' w2 = None
    \<and> ((\<exists>sel2. handle_step R trigger timer2 ctx2 sel2 r hs' w2 \<noteq> None) \<longleftrightarrow> done_fired (w_heap w2 r) \<or> ctx2)
    \<and> (\<forall>sel2 w3 hs3. handle_step R trigger timer2 ctx2 sel2 r hs' w2 = Some (w3, hs3) \<longrightarrow>
         hs3 = closing [ExRelease] \<and> w3 = w2)"
proof -
  have h: "handle_wait1 client sel r w = (w', hs')" "can_fire True timer ctx sel (w_heap w r)"
    using assms(1,2) by (auto simp: handle_step_def split: if_splits)
  then have sel: "sel = ReadyRegistered"
    using assms(3) by (cases sel) (auto simp: handle_wait1_def split: if_splits)
  then have "registered_fired (w_heap w r)" using h(2) by (simp add: can_fire_def)
  then have "registered_fired (w_heap w' r)"
    using h(1) sel by (auto simp: handle_wait1_def taskctx_defs)
  then have reg: "registered_fired (w_heap w2 r)"
    using ctx_run_signals [of ops "w_heap w' r"] assms(4) by simp
  have step: "handle_step R trigger timer2 ctx2 sel2 r hs' w2 =
      (if can_fire False timer2 ctx2 sel2 (w_heap w2 r) then Some (w2, closing [ExRelease]) else None)" for sel2
    using assms(3) by (simp add: handle_step_def handle_wait2_def)
  have "(\<exists>sel2. can_fire False timer2 ctx2 sel2 (w_heap w2 r)) \<longleftrightarrow> done_fired (w_heap w2 r) \<or> ctx2"
  proof
    assume "\<exists>sel2. can_fire False timer2 ctx2 sel2 (w_heap w2 r)"
    then obtain sel2 where "can_fire False timer2 ctx2 sel2 (w_heap w2 r)" by blast
    then show "done_fired (w_heap w2 r) \<or> ctx2" by (cases sel2) (simp_all add: can_fire_def)
  next
    assume "done_fired (w_heap w2 r) \<or> ctx2"
    then have "can_fire False timer2 ctx2 ReadyDone (w_heap w2 r) \<or> can_fire False timer2 ctx2 ReadyCtx (w_heap w2 r)"
      by (simp add: can_fire_def)
    then show "\<exists>sel2. can_fire False timer2 ctx2 sel2 (w_heap w2 r)" by blast
  qed
  then have ex: "(\<exists>sel2. handle_step R trigger timer2 ctx2 sel2 r hs' w2 \<noteq> None) \<longleftrightarrow> done_fired (w_heap w2 r) \<or> ctx2"
    by (auto simp: step)
  show ?thesis using reg ex by (auto simp: step can_fire_def)
qed

definition example_registered_world :: "UpdateTaskRequest list world" where
  "example_registered_world = w_modify 0 MarkRunnerRegistered example_world"

theorem registered_never_times_out_witness:
  "\<exists>w' hs'. handle_step log_resolver (\<lambda>_ _ w. (w, None)) True False ReadyRegistered 0
      \<lparr>h_pc = HWait1 log_client, h_heartbeat = True\<rparr> example_registered_world = Some (w', hs')
    \<and> handle_step log_resolver (\<lambda>_ _ w. (w, None)) True False ReadyTimeout 0 hs' w' = None"
proof -
  have f: "can_fire True True False ReadyRegistered (w_heap example_registered_world 0)"
    by (simp add: can_fire_def example_registered_world_def taskctx_defs)
  define w' where "w' = w_modify 0 (\<lambda>t. fst (Done t)) example_registered_world"
  have h: "handle_step log_resolver (\<lambda>_ _ w. (w, None)) True False ReadyRegistered 0
      \<lparr>h_pc = HWait1 log_client, h_heartbeat = True\<rparr> example_registered_world
      = Some (w', \<lparr>h_pc = HWait2, h_heartbeat = True\<rparr>)"
    using f by (simp add: handle_step_def handle_wait1_def w'_def)
  have e: "w_heap w' 0 = ctx_run [] (w_heap w' 0)" by (simp add: ctx_run_def)
  show ?thesis using h registered_never_times_out [OF _ h _ e] by fastforce
qed

text \<open>Forgejo learns of a failure exactly when it has to: the handler will report RESULT_FAILURE for
  this task, to the instance that owns it and no other, when the dispatch fails and when the startup
  timeout strikes, and in no other case; the report is the first of its last actions.\<close>

theorem failure_reported_exactly:
  assumes "Resolve R (t_Instance (w_heap w r)) = Some (inst, client)"
    and "trigger (w_heap w r) inst w = (w1, res)"
  shows "(case res of
        Some err \<Rightarrow> \<exists>ops. handle_start R trigger r w = (w1, closing (ExReport client # ops)) \<and> (\<forall>c. ExReport c \<notin> set ops)
      | None \<Rightarrow> w_ext (fst (handle_start R trigger r w)) = w_ext w1
          \<and> h_pc (snd (handle_start R trigger r w)) = HWait1 client)
    \<and> (if sel = ReadyTimeout then \<exists>ops. handle_wait1 client sel r w = (w, closing (ExReport client # ops))
         \<and> (\<forall>c. ExReport c \<notin> set ops)
       else \<forall>ops c. h_pc (snd (handle_wait1 client sel r w)) = HClean ops \<longrightarrow> ExReport c \<notin> set ops)
    \<and> w_ext (exit_step (ExReport client) r w) =
        w_ext (fst (ForwardUpdateTask client (FailureUpdateRequest (t_ID (w_heap w r))) w))
    \<and> GetState_Id (FailureUpdateRequest i) = i \<and> GetState_Result (FailureUpdateRequest i) = RESULT_FAILURE"
proof -
  have "GetState_Id (FailureUpdateRequest i) = i \<and> GetState_Result (FailureUpdateRequest i) = RESULT_FAILURE"
    by (simp add: FailureUpdateRequest_def GetState_Id_def GetState_Result_def)
  moreover have "if sel = ReadyTimeout then \<exists>ops. handle_wait1 client sel r w = (w, closing (ExReport client # ops))
         \<and> (\<forall>c. ExReport c \<notin> set ops)
       else \<forall>ops c. h_pc (snd (handle_wait1 client sel r w)) = HClean ops \<longrightarrow> ExReport c \<notin> set ops"
    by (cases sel) (auto simp: handle_wait1_def)
  moreover have "case res of
        Some err \<Rightarrow> \<exists>ops. handle_start R trigger r w = (w1, closing (ExReport client # ops)) \<and> (\<forall>c. ExReport c \<notin> set ops)
      | None \<Rightarrow> w_ext (fst (handle_start R trigger r w)) = w_ext w1
          \<and> h_pc (snd (handle_start R trigger r w)) = HWait1 client"
    by (cases res) (auto simp: handle_start_def enter_select_def assms)
  ultimately show ?thesis by (simp add: report_failure_def)
qed

theorem failure_reported_exactly_witness:
  "w_ext (exit_step (ExReport log_client) 0 example_world) = [FailureUpdateRequest 42]
   \<and> GetState_Result (FailureUpdateRequest 42) = RESULT_FAILURE"
proof -
  have r: "Resolve log_resolver (t_Instance (w_heap example_world 0)) = Some (example_instance, log_client)"
    by simp
  have "t_ID (w_heap example_world 0) = 42" "w_ext example_world = []"
    by (simp_all add: example_world_def example_heap_def example_ctx_def)
  then show ?thesis
    using failure_reported_exactly [where R = log_resolver and trigger = "\<lambda>_ _ w. (w, Some CtxErr)"
        and w = example_world and r = 0 and i = 42, OF r refl] by simp
qed

end
