(* ===== verification/North_Poller.thy ===== *)
theory North_Poller
  imports Run_Task
begin

text \<open>
  The poller of one instance (\<^verbatim>\<open>internal/north/poller.go\<close>), cut at the points where the loop
  blocks: acquiring a slot, fetching with the slot held, sending the task down the channel. The
  choices of the selects, the clock and the random source are in \<open>poll_choice\<close>; \<open>fetch\<close> is the
  FetchTask RPC inside \<^verbatim>\<open>retryOnAuth\<close> (\<open>client_FetchTask\<close>).
\<close>

datatype poll_pc = AtAcquire | AtFetch | AtSend tref | PollStopped

record poll_choice =
  pc_ctx :: bool
  pc_prefer_ctx :: bool
  pc_wait_cancelled :: bool
  pc_now :: time
  pc_entropy :: entropy

type_synonym 'x fetch = "'x world \<Rightarrow> 'x world \<times> (go_err + v1_Task option)"

definition new_TaskCtx :: "Instance \<Rightarrow> v1_Task \<Rightarrow> string \<Rightarrow> time \<Rightarrow> TaskCtx" where
  "new_TaskCtx inst task regToken now =
     SetStatus StatusPending
       \<lparr>t_ID = vt_Id task, t_Instance = i_Name inst, t_Task = task, t_RegToken = regToken,
        t_RegTokenTTL = i_RegTokenTTL inst, t_CreatedAt = now, t_status = StatusPending,
        t_sessionToken = [], t_done = None, t_registered = None\<rparr>"

text \<open>After an error, an empty answer or a token failure: give the slot back and sleep.\<close>

definition poll_retry :: "poll_choice \<Rightarrow> 'x world \<Rightarrow> 'x world \<times> poll_pc" where
  "poll_retry ch w = (w_release w, if pc_wait_cancelled ch then PollStopped else AtAcquire)"

definition poll_fetch :: "Instance \<Rightarrow> 'x fetch \<Rightarrow> poll_choice \<Rightarrow> 'x world \<Rightarrow> 'x world \<times> poll_pc" where
  "poll_fetch inst fetch ch w =
     (case fetch w of
        (w1, Inl err) \<Rightarrow> poll_retry ch w1
      | (w1, Inr None) \<Rightarrow> poll_retry ch w1
      | (w1, Inr (Some task)) \<Rightarrow>
          (case Generate (pc_entropy ch) of
             Inl e \<Rightarrow> poll_retry ch w1
           | Inr regToken \<Rightarrow>
               (let r = w_next w1;
                    h = (w_heap w1)(r := new_TaskCtx inst task regToken (pc_now ch))
                in (w1\<lparr>w_heap := h, w_next := Suc r, w_store := PutPending h r (w_store w1)\<rparr>, AtSend r))))"

text \<open>The channel is buffered; a send with room and a cancelled context are both ready.\<close>

definition poll_send :: "poll_choice \<Rightarrow> tref \<Rightarrow> 'x world \<Rightarrow> 'x world \<times> poll_pc" where
  "poll_send ch r w =
     (if length (w_chan w) < w_chan_cap w \<and> \<not> (pc_ctx ch \<and> pc_prefer_ctx ch)
      then (w\<lparr>w_chan := w_chan w @ [r]\<rparr>, AtAcquire)
      else if pc_ctx ch then (w_release w, PollStopped)
      else (w, AtSend r))"

definition poll_step :: "Instance \<Rightarrow> 'x fetch \<Rightarrow> poll_choice \<Rightarrow> poll_pc \<Rightarrow> 'x world \<Rightarrow> 'x world \<times> poll_pc" where
  "poll_step inst fetch ch pc w =
     (case pc of
        AtAcquire \<Rightarrow>
          (case Acquire (pc_ctx ch) (pc_prefer_ctx ch) (w_pool w) of
             (p, AcquireOk) \<Rightarrow> (w\<lparr>w_pool := p\<rparr>, AtFetch)
           | (p, AcquireCtxErr) \<Rightarrow> (w, PollStopped)
           | (p, AcquireBlocks) \<Rightarrow> (w, AtAcquire))
      | AtFetch \<Rightarrow> poll_fetch inst fetch ch w
      | AtSend r \<Rightarrow> poll_send ch r w
      | PollStopped \<Rightarrow> (w, PollStopped))"

section \<open>Lemmas\<close>

text \<open>Slots a poller holds.\<close>

fun poll_slots :: "poll_pc \<Rightarrow> nat" where
  "poll_slots AtAcquire = 0"
| "poll_slots AtFetch = 1"
| "poll_slots (AtSend r) = 1"
| "poll_slots PollStopped = 0"

definition fetch_keeps_pool :: "'x fetch \<Rightarrow> bool" where
  "fetch_keeps_pool fetch \<longleftrightarrow>
     (\<forall>w. w_pool (fst (fetch w)) = w_pool w \<and> w_chan (fst (fetch w)) = w_chan w
        \<and> w_chan_cap (fst (fetch w)) = w_chan_cap w)"

lemma poll_fetch_cases:
  assumes "fetch w = (w1, res)"
  obtains (retry) "poll_fetch inst fetch ch w = poll_retry ch w1"
      "\<forall>task regToken. \<not> (res = Inr (Some task) \<and> Generate (pc_entropy ch) = Inr regToken)"
  | (task) task regToken where "res = Inr (Some task)" "Generate (pc_entropy ch) = Inr regToken"
      "poll_fetch inst fetch ch w =
         (let r = w_next w1; h = (w_heap w1)(r := new_TaskCtx inst task regToken (pc_now ch))
          in (w1\<lparr>w_heap := h, w_next := Suc r, w_store := PutPending h r (w_store w1)\<rparr>, AtSend r))"
proof (cases res)
  case (Inl err)
  then show ?thesis using assms by (intro retry) (simp_all add: poll_fetch_def)
next
  case (Inr ot)
  show ?thesis
  proof (cases ot)
    case None
    then show ?thesis using assms Inr by (intro retry) (simp_all add: poll_fetch_def)
  next
    case (Some t)
    show ?thesis
    proof (cases "Generate (pc_entropy ch)")
      case (Inl e)
      then show ?thesis using assms Inr Some by (intro retry) (simp_all add: poll_fetch_def)
    next
      case (Inr tok)
      then show ?thesis using assms \<open>res = Inr ot\<close> Some by (intro task) (simp_all add: poll_fetch_def)
    qed
  qed
qed

lemma poll_step_slots:
  assumes "fetch_keeps_pool fetch" "poll_step inst fetch ch pc w = (w', pc')"
    and "pool_sem (w_pool w) \<ge> poll_slots pc"
  shows "pool_sem (w_pool w') + length (w_chan w) + poll_slots pc
      = pool_sem (w_pool w) + length (w_chan w') + poll_slots pc'
    \<and> pool_cap (w_pool w') = pool_cap (w_pool w) \<and> w_chan_cap w' = w_chan_cap w
    \<and> (pool_sem (w_pool w) \<le> pool_cap (w_pool w) \<longrightarrow> pool_sem (w_pool w') \<le> pool_cap (w_pool w'))"
proof (cases pc)
  case AtAcquire
  then show ?thesis using assms(2) by (auto simp: poll_step_def Acquire_def split: if_splits)
next
  case AtFetch
  obtain w1 res where f: "fetch w = (w1, res)" by fastforce
  then have k: "w_pool w1 = w_pool w" "w_chan w1 = w_chan w" "w_chan_cap w1 = w_chan_cap w"
    using assms(1) by (metis fetch_keeps_pool_def fst_conv)+
  have e: "poll_fetch inst fetch ch w = (w', pc')" using assms(2) AtFetch by (simp add: poll_step_def)
  show ?thesis
  proof (cases rule: poll_fetch_cases [where fetch = fetch and w = w and ?w1.0 = w1 and res = res and inst = inst and ch = ch, OF f])
    case 1
    then show ?thesis
      using e k assms(3) AtFetch by (auto simp: poll_retry_def Release_def)
  next
    case (2 task tok)
    then show ?thesis using e k AtFetch by (auto simp: Let_def)
  qed
next
  case (AtSend r)
  then show ?thesis
    using assms(2,3) by (auto simp: poll_step_def poll_send_def Release_def split: if_splits)
next
  case PollStopped
  then show ?thesis using assms(2) by (simp add: poll_step_def)
qed

section \<open>Properties\<close>

text \<open>What a poll does. A fetched task becomes a Pending task context of the polling instance with
  a fresh 64-character token and the instance's TTL, findable by that token, and the slot stays with
  it; an error, an empty answer or a failing random source leaves store and tasks as they were and
  gives the slot back at once.\<close>

theorem poll_fetch_outcome:
  assumes "fetch w = (w1, res)" and "poll_fetch inst fetch ch w = (w', pc')"
  shows "(case res of
      Inr (Some task) \<Rightarrow>
        (case Generate (pc_entropy ch) of
           Inr regToken \<Rightarrow> pc' = AtSend (w_next w1) \<and> w_pool w' = w_pool w1 \<and> length regToken = 64
             \<and> GetByRegToken regToken (w_store w') = Some (w_next w1)
             \<and> t_ID (w_heap w' (w_next w1)) = vt_Id task
             \<and> t_Instance (w_heap w' (w_next w1)) = i_Name inst
             \<and> t_RegTokenTTL (w_heap w' (w_next w1)) = i_RegTokenTTL inst
             \<and> Status (w_heap w' (w_next w1)) = StatusPending
             \<and> \<not> done_fired (w_heap w' (w_next w1)) \<and> \<not> registered_fired (w_heap w' (w_next w1))
             \<and> (\<forall>r. r \<noteq> w_next w1 \<longrightarrow> w_heap w' r = w_heap w1 r)
         | Inl e \<Rightarrow> w' = w_release w1 \<and> poll_slots pc' = 0)
    | _ \<Rightarrow> w' = w_release w1 \<and> poll_slots pc' = 0)"
proof (cases rule: poll_fetch_cases [where fetch = fetch and w = w and ?w1.0 = w1 and res = res and inst = inst and ch = ch, OF assms(1)])
  case 1
  then have "w' = w_release w1 \<and> poll_slots pc' = 0" using assms(2) by (auto simp: poll_retry_def)
  then show ?thesis using 1(2) by (auto split: sum.split option.split)
next
  case (2 task tok)
  have "length tok = 64" using 2(2) by (auto simp: Generate_Inr)
  moreover have w': "w' = w1\<lparr>w_heap := (w_heap w1)(w_next w1 := new_TaskCtx inst task tok (pc_now ch)),
      w_next := Suc (w_next w1), w_store := PutPending ((w_heap w1)(w_next w1 :=
        new_TaskCtx inst task tok (pc_now ch))) (w_next w1) (w_store w1)\<rparr>" "pc' = AtSend (w_next w1)"
    using 2(3) assms(2) by (auto simp: Let_def)
  moreover have "GetByRegToken tok (w_store w') = Some (w_next w1)"
    by (simp add: w' GetByRegToken_def PutPending_def new_TaskCtx_def SetStatus_def)
  ultimately show ?thesis
    using 2 by (simp add: new_TaskCtx_def taskctx_defs)
qed

definition example_choice :: poll_choice where
  "example_choice = \<lparr>pc_ctx = False, pc_prefer_ctx = False, pc_wait_cancelled = False, pc_now = 0,
     pc_entropy = Some (\<lambda>i. char_of i)\<rparr>"

theorem poll_fetch_outcome_witness:
  "\<exists>w' tok. poll_fetch example_instance (\<lambda>w. (w, Inr (Some example_task))) example_choice example_world
      = (w', AtSend 2) \<and> GetByRegToken tok (w_store w') = Some 2"
proof -
  have n: "w_next example_world = 2" by (simp add: example_world_def)
  have g: "Generate (pc_entropy example_choice) = Inr (hex_encode (map (\<lambda>i. char_of i) [0..<32]))"
    unfolding Generate_Inr example_choice_def by simp
  obtain w' pc' where p: "poll_fetch example_instance (\<lambda>w. (w, Inr (Some example_task))) example_choice example_world
      = (w', pc')" by fastforce
  show ?thesis using p poll_fetch_outcome [OF refl p] by (simp add: g n) blast
qed

text \<open>C39: A shutdown can strand a fetched task. When the context is cancelled while the poller is about
  to hand over a task, the select may take the cancellation although the channel has room; the slot
  is given back, but the Pending task stays in the store: it is still counted as active, and its
  token is still valid.\<close>

theorem cancelled_send_strands_task:
  assumes "pc_ctx ch" and "pc_prefer_ctx ch"
    and "ms_ok (w_store w)" and "mget (ms_tasks (w_store w)) i = Some r" and "Status (w_heap w r) = StatusPending"
  shows "poll_send ch r w = (w_release w, PollStopped)
    \<and> mget (ms_tasks (w_store (fst (poll_send ch r w)))) i = Some r
    \<and> 0 < CountActive (w_heap (fst (poll_send ch r w))) (w_store (fst (poll_send ch r w)))"
proof -
  have p: "poll_send ch r w = (w_release w, PollStopped)"
    using assms(1,2) by (simp add: poll_send_def)
  have "CountActive (w_heap w) (w_store w) \<noteq> 0"
    using CountActive_0 [OF assms(3), of "w_heap w"] assms(4,5) by fastforce
  then show ?thesis using p assms(4) by simp
qed

theorem cancelled_send_strands_task_witness:
  "0 < CountActive (w_heap (fst (poll_send (example_choice\<lparr>pc_ctx := True, pc_prefer_ctx := True\<rparr>) 0 example_world)))
     (w_store (fst (poll_send (example_choice\<lparr>pc_ctx := True, pc_prefer_ctx := True\<rparr>) 0 example_world)))"
proof -
  have a: "ms_ok (w_store example_world)" by (simp add: example_world_def)
  have b: "mget (ms_tasks (w_store example_world)) 42 = Some 0" "Status (w_heap example_world 0) = StatusPending"
    by (simp_all add: example_world_def PutPending_def example_heap_def example_ctx_def Status_def)
  have c: "pc_ctx (example_choice\<lparr>pc_ctx := True, pc_prefer_ctx := True\<rparr>)"
    "pc_prefer_ctx (example_choice\<lparr>pc_ctx := True, pc_prefer_ctx := True\<rparr>)" by simp_all
  show ?thesis using cancelled_send_strands_task [OF c a b] by blast
qed

end
