(* ===== verification/South_Payload.thy ===== *)
theory South_Payload
  imports Runner_V1
begin

text \<open>
  The adaptation of a workflow payload to the owning instance (\<^verbatim>\<open>internal/south/payload.go\<close>).

  A payload is parsed into a tree of \<^verbatim>\<open>yaml.Node\<close>s and encoded again. The parser and the
  encoder of \<^verbatim>\<open>go.yaml.in/yaml/v3\<close> are arguments; the tree is \<open>yaml\<close>, with what the code
  does not look at (style, comments, anchors) in \<open>rest\<close>. The code updates nodes in place; a
  node is reached along one path only, so the model returns the updated tree.
\<close>

section \<open>YAML trees\<close>

datatype yaml_kind = NoNode | DocumentNode | SequenceNode | MappingNode | ScalarNode | AliasNode

datatype yaml = Node (y_kind: yaml_kind) (y_tag: string) (y_value: string) (y_content: "yaml list") (y_rest: string)

definition y_set_content :: "yaml list \<Rightarrow> yaml \<Rightarrow> yaml" where
  "y_set_content c n = Node (y_kind n) (y_tag n) (y_value n) c (y_rest n)"

definition y_set_value :: "string \<Rightarrow> yaml \<Rightarrow> yaml" where
  "y_set_value v n = Node (y_kind n) (y_tag n) v (y_content n) (y_rest n)"

definition y_str :: "string \<Rightarrow> yaml" where
  "y_str s = Node ScalarNode ''!!str'' s [] []"

definition is_key :: "string \<Rightarrow> yaml \<Rightarrow> bool" where
  "is_key key k \<longleftrightarrow> y_kind k = ScalarNode \<and> y_value k = key"

text \<open>The loop over key/value pairs that stops at the first match.\<close>

fun pair_lookup :: "string \<Rightarrow> yaml list \<Rightarrow> yaml option" where
  "pair_lookup key (k # v # rest) = (if is_key key k then Some v else pair_lookup key rest)"
| "pair_lookup key _ = None"

fun pair_update :: "string \<Rightarrow> yaml \<Rightarrow> yaml list \<Rightarrow> yaml list" where
  "pair_update key new (k # v # rest) =
     (if is_key key k then k # new # rest else k # v # pair_update key new rest)"
| "pair_update key new xs = xs"

definition mappingValue :: "yaml \<Rightarrow> string \<Rightarrow> yaml option" where
  "mappingValue m key = pair_lookup key (y_content m)"

definition y_update :: "string \<Rightarrow> yaml \<Rightarrow> yaml \<Rightarrow> yaml" where
  "y_update key new m = y_set_content (pair_update key new (y_content m)) m"

section \<open>Checkout steps\<close>

definition isCheckoutUses :: "string \<Rightarrow> bool" where
  "isCheckoutUses uses =
     (let u = trim_space uses in
      if has_prefix u ''docker://'' \<or> has_prefix u ''./'' \<or> has_prefix u ''../'' then False
      else
        (let host = (case cut_prefix u ''https://'' of
              Some after \<Rightarrow> Some after
            | None \<Rightarrow> cut_prefix u ''http://'');
             stripped = (case host of
              None \<Rightarrow> Some u
            | Some after \<Rightarrow> (let (_, rest, ok) = cut (CHR ''/'') after in if ok then Some rest else None))
         in (case stripped of
               None \<Rightarrow> False
             | Some u1 \<Rightarrow>
                 (let u2 = (case index_byte (CHR ''@'') u1 of Some i \<Rightarrow> take i u1 | None \<Rightarrow> u1);
                      segs = split_on (CHR ''/'') u2
                  in if length segs < 2 then False
                     else if segs ! 0 = ''actions'' \<and> segs ! 1 = ''checkout'' then True
                     else segs ! (length segs - 2) = ''actions'' \<and> segs ! (length segs - 1) = ''checkout''))))"

definition setWithInput :: "yaml \<Rightarrow> string \<Rightarrow> string \<Rightarrow> yaml \<times> bool" where
  "setWithInput step inp value =
     (case mappingValue step ''with'' of
        None \<Rightarrow> (y_set_content (y_content step @
            [y_str ''with'', Node MappingNode ''!!map'' [] [y_str inp, y_str value] []]) step, True)
      | Some wth \<Rightarrow>
          if y_kind wth \<noteq> MappingNode then (step, False)
          else (case mappingValue wth inp of
                  Some old \<Rightarrow>
                    if y_value old = value then (step, False)
                    else (y_update ''with'' (y_update inp (y_str value) wth) step, True)
                | None \<Rightarrow>
                    (y_update ''with'' (y_set_content (y_content wth @ [y_str inp, y_str value]) wth) step, True)))"

definition is_checkout :: "yaml \<Rightarrow> bool" where
  "is_checkout step \<longleftrightarrow> y_kind step = MappingNode
     \<and> (case mappingValue step ''uses'' of
          None \<Rightarrow> False
        | Some uses \<Rightarrow> y_kind uses = ScalarNode \<and> isCheckoutUses (y_value uses))"

definition inject_step :: "string \<Rightarrow> yaml \<Rightarrow> yaml \<times> bool" where
  "inject_step forgejoURL step =
     (if is_checkout step then setWithInput step ''github-server-url'' forgejoURL else (step, False))"

definition map_any :: "(yaml \<Rightarrow> yaml \<times> bool) \<Rightarrow> yaml list \<Rightarrow> yaml list \<times> bool" where
  "map_any f xs = (map (\<lambda>x. fst (f x)) xs, list_ex (\<lambda>x. snd (f x)) xs)"

definition inject_job :: "string \<Rightarrow> yaml \<Rightarrow> yaml \<times> bool" where
  "inject_job forgejoURL job =
     (if y_kind job \<noteq> MappingNode then (job, False)
      else (case mappingValue job ''steps'' of
              None \<Rightarrow> (job, False)
            | Some steps \<Rightarrow>
                if y_kind steps \<noteq> SequenceNode then (job, False)
                else (let (ss, inj) = map_any (inject_step forgejoURL) (y_content steps)
                      in (y_update ''steps'' (y_set_content ss steps) job, inj))))"

text \<open>The loop over the values of a mapping.\<close>

fun map_values :: "(yaml \<Rightarrow> yaml \<times> bool) \<Rightarrow> yaml list \<Rightarrow> yaml list \<times> bool" where
  "map_values f (k # v # rest) =
     (let (v', a) = f v; (rest', b) = map_values f rest in (k # v' # rest', a \<or> b))"
| "map_values f xs = (xs, False)"

definition inject_root :: "string \<Rightarrow> yaml \<Rightarrow> yaml \<times> bool" where
  "inject_root forgejoURL root =
     (case mappingValue root ''jobs'' of
        None \<Rightarrow> (root, False)
      | Some jobs \<Rightarrow>
          if y_kind jobs \<noteq> MappingNode then (root, False)
          else (let (js, inj) = map_values (inject_job forgejoURL) (y_content jobs)
                in (y_update ''jobs'' (y_set_content js jobs) root, inj)))"

section \<open>The codec around a rewrite\<close>

type_synonym yaml_parse = "string \<Rightarrow> string + yaml"
type_synonym yaml_encode = "yaml \<Rightarrow> string + string"

text \<open>Both rewrites parse, change the root mapping of the document and encode it when something
  changed; on any failure the payload is returned with the error.\<close>

definition with_root :: "yaml_parse \<Rightarrow> yaml_encode \<Rightarrow> (yaml \<Rightarrow> yaml \<times> bool) \<Rightarrow> string \<Rightarrow> string \<times> string option" where
  "with_root parse encode f payload =
     (case parse payload of
        Inl err \<Rightarrow> (payload, Some err)
      | Inr doc \<Rightarrow>
          if y_kind doc \<noteq> DocumentNode \<or> y_content doc = []
          then (payload, Some ''workflow payload is not a YAML document'')
          else (let root = hd (y_content doc) in
            if y_kind root \<noteq> MappingNode then (payload, Some ''workflow payload root is not a mapping'')
            else (let (root', changed) = f root in
              if \<not> changed then (payload, None)
              else (case encode (y_set_content (root' # tl (y_content doc)) doc) of
                      Inl err \<Rightarrow> (payload, Some err)
                    | Inr out \<Rightarrow> (out, None)))))"

definition injectCheckoutServerURL :: "yaml_parse \<Rightarrow> yaml_encode \<Rightarrow> string \<Rightarrow> string \<Rightarrow> string \<times> string option" where
  "injectCheckoutServerURL parse encode payload forgejoURL =
     with_root parse encode (inject_root forgejoURL) payload"

section \<open>Expressions\<close>

definition expr_keys :: "string list" where
  "expr_keys = [''github.server_url'', ''github.api_url'', ''github.repository_url'',
     ''env.GITHUB_SERVER_URL'', ''env.GITHUB_API_URL'', ''env.FORGEJO_API_URL'',
     ''env.FORGEJO_SERVER_URL'']"

text \<open>\<^verbatim>\<open>\s\<close> of Go's regular expressions.\<close>

definition re_space :: "char \<Rightarrow> bool" where
  "re_space c \<longleftrightarrow> c \<in> {CHR 0x09, CHR 0x0A, CHR 0x0C, CHR 0x0D, CHR '' ''}"

text \<open>A match of \<^verbatim>\<open>serverURLExprRe\<close> at the start of the text: the key and what follows. No key
  is a prefix of another and none starts with white space, so the match is unique.\<close>

definition match_expr :: "string \<Rightarrow> (string \<times> string) option" where
  "match_expr s =
     (case cut_prefix s ''${{'' of
        None \<Rightarrow> None
      | Some r \<Rightarrow>
          (let r1 = dropWhile re_space r in
           case find (\<lambda>k. has_prefix r1 k) expr_keys of
             None \<Rightarrow> None
           | Some k \<Rightarrow>
               (case cut_prefix (dropWhile re_space (drop (length k) r1)) ''}}'' of
                  None \<Rightarrow> None
                | Some rest \<Rightarrow> Some (k, rest))))"

lemma match_expr_shorter: "match_expr s = Some (k, rest) \<Longrightarrow> length rest < length s"
proof -
  assume "match_expr s = Some (k, rest)"
  then obtain r where r: "cut_prefix s ''${{'' = Some r"
    and c: "cut_prefix (dropWhile re_space (drop (length k) (dropWhile re_space r))) ''}}'' = Some rest"
    by (auto simp: match_expr_def Let_def split: option.splits)
  have "length s = 3 + length r" using r by (auto simp: cut_prefix_Some)
  moreover have "length rest \<le> length (dropWhile re_space (drop (length k) (dropWhile re_space r)))"
    using c by (auto simp: cut_prefix_Some)
  moreover have "\<dots> \<le> length (drop (length k) (dropWhile re_space r))" by (rule length_dropWhile_le)
  moreover have "\<dots> \<le> length (dropWhile re_space r)" by simp
  moreover have "\<dots> \<le> length r" by (rule length_dropWhile_le)
  ultimately show ?thesis by linarith
qed

text \<open>\<^verbatim>\<open>ReplaceAllStringFunc\<close>: the function gets the key and the matched text.\<close>

function replace_exprs :: "(string \<Rightarrow> string \<Rightarrow> string) \<Rightarrow> string \<Rightarrow> string" where
  "replace_exprs f [] = []"
| "replace_exprs f (c # s) =
     (case match_expr (c # s) of
        Some (k, rest) \<Rightarrow> f k (take (length (c # s) - length rest) (c # s)) @ replace_exprs f rest
      | None \<Rightarrow> c # replace_exprs f s)"
  by pat_completeness auto
termination
  by (relation "measure (\<lambda>(f, s). length s)") (auto dest: match_expr_shorter)

definition replacement :: "string \<Rightarrow> string \<Rightarrow> string \<Rightarrow> string \<Rightarrow> string" where
  "replacement forgejoURL repository key expr =
     (if key \<in> {''github.server_url'', ''env.GITHUB_SERVER_URL'', ''env.FORGEJO_SERVER_URL''} then forgejoURL
      else if key \<in> {''github.api_url'', ''env.GITHUB_API_URL'', ''env.FORGEJO_API_URL''}
        then forgejoURL @ ''/api/v1''
      else if key = ''github.repository_url''
        then (if repository = [] then expr else forgejoURL @ ''/'' @ repository)
      else expr)"

definition rewrite_value :: "string \<Rightarrow> string \<Rightarrow> string \<Rightarrow> string" where
  "rewrite_value forgejoURL repository v =
     (if \<not> str_contains v ''${{'' then v else replace_exprs (replacement forgejoURL repository) v)"

fun odd_map :: "('a \<Rightarrow> 'a) \<Rightarrow> 'a list \<Rightarrow> 'a list" where
  "odd_map f (k # v # rest) = k # f v # odd_map f rest"
| "odd_map f xs = xs"

lemma odd_map_cong [fundef_cong]:
  "xs = ys \<Longrightarrow> (\<And>x. x \<in> set ys \<Longrightarrow> f x = g x) \<Longrightarrow> odd_map f xs = odd_map g ys"
  by (induction f xs arbitrary: ys rule: odd_map.induct) auto

fun rewriteScalarValues :: "(string \<Rightarrow> string) \<Rightarrow> yaml \<Rightarrow> yaml" where
  "rewriteScalarValues fn (Node kind tag value content rest) =
     (if kind = MappingNode then Node kind tag value (odd_map (rewriteScalarValues fn) content) rest
      else if kind = ScalarNode then Node kind tag (fn value) content rest
      else Node kind tag value (map (rewriteScalarValues fn) content) rest)"

text \<open>The flag \<^verbatim>\<open>changed\<close> is set when some value comes out different, that is when the tree does.\<close>

definition normalize_root :: "string \<Rightarrow> string \<Rightarrow> yaml \<Rightarrow> yaml \<times> bool" where
  "normalize_root forgejoURL repository root =
     (let root' = rewriteScalarValues (rewrite_value forgejoURL repository) root in (root', root' \<noteq> root))"

definition normalizeServerURLs :: "yaml_parse \<Rightarrow> yaml_encode \<Rightarrow> string \<Rightarrow> string \<Rightarrow> string \<Rightarrow> string \<times> string option" where
  "normalizeServerURLs parse encode payload forgejoURL repository =
     with_root parse encode (normalize_root forgejoURL repository) payload"

section \<open>The task\<close>

definition rewriteWorkflowPayload :: "yaml_parse \<Rightarrow> yaml_encode \<Rightarrow> v1_Task \<Rightarrow> string \<Rightarrow> string \<Rightarrow> v1_Task" where
  "rewriteWorkflowPayload parse encode task forgejoURL repository =
     (if vt_WorkflowPayload task = [] \<or> forgejoURL = [] then task
      else (case injectCheckoutServerURL parse encode (vt_WorkflowPayload task) forgejoURL of
              (_, Some err) \<Rightarrow> task
            | (rewritten1, None) \<Rightarrow>
                (case normalizeServerURLs parse encode rewritten1 forgejoURL repository of
                   (_, Some err) \<Rightarrow> task
                 | (rewritten, None) \<Rightarrow>
                     if rewritten = vt_WorkflowPayload task then task
                     else task\<lparr>vt_WorkflowPayload := rewritten\<rparr>)))"

definition repositoryFromContext :: "v1_Task \<Rightarrow> string" where
  "repositoryFromContext task =
     (case vt_Context task of None \<Rightarrow> [] | Some fs \<Rightarrow> field_string fs ''repository'')"

section \<open>Lemmas on trees\<close>

lemma y_set_simps [simp]:
  "y_kind (y_set_content c n) = y_kind n" "y_content (y_set_content c n) = c"
  "y_value (y_set_content c n) = y_value n" "y_tag (y_set_content c n) = y_tag n"
  "y_kind (y_update k v n) = y_kind n" "y_content (y_update k v n) = pair_update k v (y_content n)"
  "y_value (y_str x) = x" "y_kind (y_str x) = ScalarNode"
  by (simp_all add: y_set_content_def y_update_def y_str_def)

lemma is_key_unique: "is_key a k \<Longrightarrow> is_key b k \<Longrightarrow> a = b"
  by (simp add: is_key_def)

lemma is_key_str [simp]: "is_key key (y_str s) \<longleftrightarrow> s = key"
  by (simp add: is_key_def)

lemma pair_lookup_update:
  "pair_lookup key xs \<noteq> None \<Longrightarrow>
    pair_lookup k (pair_update key new xs) = (if k = key then Some new else pair_lookup k xs)"
  by (induction key xs rule: pair_lookup.induct) (auto dest: is_key_unique)

lemma pair_lookup_append:
  "even (length xs) \<Longrightarrow> pair_lookup key (xs @ [k, v]) =
    (case pair_lookup key xs of Some x \<Rightarrow> Some x | None \<Rightarrow> if is_key key k then Some v else None)"
  by (induction key xs rule: pair_lookup.induct) auto

lemma mappingValue_update:
  "mappingValue m key \<noteq> None \<Longrightarrow> mappingValue (y_update key new m) k = (if k = key then Some new else mappingValue m k)"
  by (simp add: mappingValue_def pair_lookup_update)

lemma mappingValue_append:
  "even (length (y_content m)) \<Longrightarrow> mappingValue (y_set_content (y_content m @ [y_str key, v]) m) k =
    (case mappingValue m k of Some x \<Rightarrow> Some x | None \<Rightarrow> if key = k then Some v else None)"
  by (simp add: mappingValue_def pair_lookup_append)

text \<open>The input of a step, and the steps whose inputs can be set: a mapping with whole key/value
  pairs whose \<^verbatim>\<open>with\<close>, if any, is such a mapping as well.\<close>

definition step_input :: "yaml \<Rightarrow> string \<Rightarrow> yaml option" where
  "step_input step inp = Option.bind (mappingValue step ''with'') (\<lambda>w. mappingValue w inp)"

definition step_wf :: "yaml \<Rightarrow> bool" where
  "step_wf step \<longleftrightarrow> even (length (y_content step))
     \<and> (\<forall>w. mappingValue step ''with'' = Some w \<longrightarrow> y_kind w = MappingNode \<and> even (length (y_content w)))"

lemma setWithInput_input:
  assumes "step_wf step"
  shows "map_option y_value (step_input (fst (setWithInput step inp value)) inp) = Some value
    \<and> (j \<noteq> inp \<longrightarrow> step_input (fst (setWithInput step inp value)) j = step_input step j)
    \<and> (k \<noteq> ''with'' \<longrightarrow> mappingValue (fst (setWithInput step inp value)) k = mappingValue step k)
    \<and> (\<not> snd (setWithInput step inp value) \<longleftrightarrow> fst (setWithInput step inp value) = step
        \<and> map_option y_value (step_input step inp) = Some value)"
proof (cases "mappingValue step ''with''")
  case None
  let ?new = "Node MappingNode ''!!map'' [] [y_str inp, y_str value] []"
  have e: "even (length (y_content step))" using assms by (simp add: step_wf_def)
  have "mappingValue ?new i = (if inp = i then Some (y_str value) else None)" for i
    by (simp add: mappingValue_def)
  then show ?thesis
    using None mappingValue_append [OF e, of "''with''" ?new]
    by (auto simp: setWithInput_def step_input_def split: option.splits)
next
  case (Some w)
  then have w: "y_kind w = MappingNode" "even (length (y_content w))"
    using assms by (simp_all add: step_wf_def)
  have ne: "mappingValue step ''with'' \<noteq> None" using Some by simp
  note upd = mappingValue_update [OF ne]
  show ?thesis
  proof (cases "mappingValue w inp")
    case None
    then show ?thesis
      using Some w mappingValue_append [OF w(2), of inp "y_str value"] upd
      by (auto simp: setWithInput_def step_input_def split: option.splits)
  next
    case (Some old)
    then have no: "mappingValue w inp \<noteq> None" by simp
    show ?thesis
      using \<open>mappingValue step ''with'' = Some w\<close> Some w(1) mappingValue_update [OF no, of "y_str value"] upd
      by (auto simp: setWithInput_def step_input_def)
  qed
qed

lemma length_pair_update [simp]: "length (pair_update key new xs) = length xs"
  by (induction key new xs rule: pair_update.induct) auto

lemma setWithInput_wf:
  assumes "step_wf step"
  shows "step_wf (fst (setWithInput step inp value))"
proof (cases "mappingValue step ''with''")
  case None
  let ?new = "Node MappingNode ''!!map'' [] [y_str inp, y_str value] []"
  have e: "even (length (y_content step))" using assms by (simp add: step_wf_def)
  then show ?thesis
    using None mappingValue_append [OF e, of "''with''" ?new] by (simp add: setWithInput_def step_wf_def)
next
  case (Some w)
  then have w: "y_kind w = MappingNode" "even (length (y_content w))" "even (length (y_content step))"
    using assms by (simp_all add: step_wf_def)
  have ne: "mappingValue step ''with'' \<noteq> None" using Some by simp
  show ?thesis
    using Some w mappingValue_update [OF ne] assms
    by (auto simp: setWithInput_def step_wf_def split: option.split)
qed

text \<open>An input that has its value already is left alone.\<close>

lemma setWithInput_done:
  assumes "step_wf step" "map_option y_value (step_input step inp) = Some value"
  shows "setWithInput step inp value = (step, False)"
proof -
  obtain w v where "mappingValue step ''with'' = Some w" "mappingValue w inp = Some v" "y_value v = value"
    using assms(2) by (auto simp: step_input_def Option.bind_eq_Some_conv)
  then show ?thesis using assms(1) by (auto simp: setWithInput_def step_wf_def)
qed

text \<open>All steps of a workflow, in the order of the document.\<close>

fun values_of :: "yaml list \<Rightarrow> yaml list" where
  "values_of (k # v # rest) = v # values_of rest"
| "values_of xs = []"

definition job_steps :: "yaml \<Rightarrow> yaml list" where
  "job_steps job =
     (if y_kind job \<noteq> MappingNode then []
      else (case mappingValue job ''steps'' of
              None \<Rightarrow> []
            | Some steps \<Rightarrow> if y_kind steps \<noteq> SequenceNode then [] else y_content steps))"

definition root_steps :: "yaml \<Rightarrow> yaml list" where
  "root_steps root =
     (case mappingValue root ''jobs'' of
        None \<Rightarrow> []
      | Some jobs \<Rightarrow> if y_kind jobs \<noteq> MappingNode then [] else concat (map job_steps (values_of (y_content jobs))))"

lemma values_of_map_values: "values_of (fst (map_values f xs)) = map (\<lambda>v. fst (f v)) (values_of xs)"
  by (induction xs rule: values_of.induct) (simp_all add: split_beta Let_def)

lemma map_values_any: "snd (map_values f xs) \<longleftrightarrow> (\<exists>v\<in>set (values_of xs). snd (f v))"
  by (induction xs rule: values_of.induct) (simp_all add: split_beta Let_def)

lemma inject_job_steps:
  "job_steps (fst (inject_job u job)) = map (\<lambda>s. fst (inject_step u s)) (job_steps job)
   \<and> (snd (inject_job u job) \<longleftrightarrow> (\<exists>s\<in>set (job_steps job). snd (inject_step u s)))"
proof (cases "y_kind job = MappingNode")
  case True
  show ?thesis
  proof (cases "mappingValue job ''steps''")
    case None
    then show ?thesis by (simp add: inject_job_def job_steps_def)
  next
    case (Some steps)
    then have "mappingValue job ''steps'' \<noteq> None" by simp
    from mappingValue_update [OF this] Some True show ?thesis
      by (simp add: inject_job_def job_steps_def map_any_def list_ex_iff)
  qed
qed (simp add: inject_job_def job_steps_def)

lemma inject_root_steps:
  "root_steps (fst (inject_root u root)) = map (\<lambda>s. fst (inject_step u s)) (root_steps root)
   \<and> (snd (inject_root u root) \<longleftrightarrow> (\<exists>s\<in>set (root_steps root). snd (inject_step u s)))"
proof (cases "mappingValue root ''jobs''")
  case None
  then show ?thesis by (simp add: inject_root_def root_steps_def)
next
  case (Some jobs)
  then have ne: "mappingValue root ''jobs'' \<noteq> None" by simp
  show ?thesis
  proof (cases "y_kind jobs = MappingNode")
    case True
    have "map job_steps (map (\<lambda>v. fst (inject_job u v)) vs)
        = map (\<lambda>v. map (\<lambda>s. fst (inject_step u s)) (job_steps v)) vs" for vs
      by (simp add: inject_job_steps)
    then show ?thesis
      using Some True mappingValue_update [OF ne]
      by (simp add: inject_root_def root_steps_def split_beta Let_def values_of_map_values map_values_any
          inject_job_steps map_concat comp_def)
  next
    case False
    then show ?thesis using Some by (simp add: inject_root_def root_steps_def)
  qed
qed

section \<open>Lemmas on expressions\<close>

lemma expr_key_head: "k \<in> set expr_keys \<Longrightarrow> dropWhile re_space (k @ x) = k @ x"
  by (auto simp: expr_keys_def re_space_def)

lemma find_unique: "k \<in> set xs \<Longrightarrow> P k \<Longrightarrow> \<forall>y\<in>set xs. P y \<longrightarrow> y = k \<Longrightarrow> find P xs = Some k"
proof (induction xs)
  case Nil
  then show ?case by simp
next
  case (Cons y ys)
  show ?case
  proof (cases "P y")
    case True
    with Cons.prems(3) have "y = k" by (meson list.set_intros(1))
    with True show ?thesis by simp
  next
    case False
    with Cons.prems(1,2) have "k \<in> set ys" by (metis set_ConsD)
    with Cons.IH Cons.prems(2,3) have "find P ys = Some k" by (meson list.set_intros(2))
    with False show ?thesis by simp
  qed
qed

lemma expr_keys_incomparable:
  "\<forall>k\<in>set expr_keys. \<forall>k'\<in>set expr_keys. k' \<noteq> k \<longrightarrow> \<not> prefix k' k"
  by code_simp

lemma expr_key_find:
  assumes "k \<in> set expr_keys"
  shows "find (\<lambda>k'. has_prefix (k @ x) k') expr_keys = Some k"
proof (rule find_unique [OF assms])
  show "has_prefix (k @ x) k" by simp
  show "\<forall>y\<in>set expr_keys. has_prefix (k @ x) y \<longrightarrow> y = k"
    using expr_keys_incomparable assms prefix_same_cases [of _ "k @ x" k]
    unfolding has_prefix_def by (metis prefixI)
qed

lemma dropWhile_spaces: "\<forall>c\<in>set ws. re_space c \<Longrightarrow> dropWhile re_space (ws @ x) = dropWhile re_space x"
  by (induction ws) auto

lemma match_expr_literal:
  assumes "k \<in> set expr_keys" "\<forall>c\<in>set (ws1 @ ws2). re_space c"
  shows "match_expr (''${{'' @ ws1 @ k @ ws2 @ ''}}'' @ rest) = Some (k, rest)"
proof -
  have "dropWhile re_space (ws1 @ k @ ws2 @ ''}}'' @ rest) = k @ ws2 @ ''}}'' @ rest"
    using assms by (simp add: dropWhile_spaces expr_key_head)
  moreover have "dropWhile re_space (ws2 @ ''}}'' @ rest) = ''}}'' @ rest"
    using assms(2) by (simp add: dropWhile_spaces re_space_def)
  moreover have "drop (length k) (k @ ws2 @ ''}}'' @ rest) = ws2 @ ''}}'' @ rest" by simp
  ultimately show ?thesis
    unfolding match_expr_def cut_prefix_append option.case Let_def expr_key_find [OF assms(1)]
    by (simp only: expr_key_find [OF assms(1)] option.case cut_prefix_append)
qed

lemma match_expr_dollar: "match_expr (c # s) \<noteq> None \<Longrightarrow> c = CHR ''$''"
  by (auto simp: match_expr_def cut_prefix_def has_prefix_def split: option.splits if_splits)

lemma replace_exprs_literal: "CHR ''$'' \<notin> set l \<Longrightarrow> replace_exprs f (l @ s) = l @ replace_exprs f s"
proof (induction l)
  case Nil
  then show ?case by simp
next
  case (Cons c l)
  then have "match_expr (c # l @ s) = None" using match_expr_dollar by fastforce
  with Cons show ?case by simp
qed

lemma replace_exprs_match:
  assumes "match_expr s = Some (k, rest)"
  shows "replace_exprs f s = f k (take (length s - length rest) s) @ replace_exprs f rest"
proof (cases s)
  case Nil
  then show ?thesis using match_expr_shorter [OF assms] by simp
next
  case (Cons c cs)
  then show ?thesis using assms by simp
qed

lemma rewriteScalarValues_fusion:
  "rewriteScalarValues g (rewriteScalarValues f n) = rewriteScalarValues (\<lambda>v. g (f v)) n"
proof (induction f n rule: rewriteScalarValues.induct)
  case (1 f kind tag val content rest)
  have odd: "odd_map (\<lambda>x. h (k x)) xs = odd_map h (odd_map k xs)" for h k :: "yaml \<Rightarrow> yaml" and xs
    by (induction k xs rule: odd_map.induct) simp_all
  show ?case
  proof (cases "kind = MappingNode")
    case True
    have "odd_map (\<lambda>x. rewriteScalarValues g (rewriteScalarValues f x)) content
        = odd_map (rewriteScalarValues (\<lambda>v. g (f v))) content"
      using 1(1) [OF True] by (rule odd_map_cong [OF refl])
    then show ?thesis using True by (simp add: odd)
  next
    case False
    then show ?thesis using 1(2) by (cases "kind = ScalarNode") auto
  qed
qed

section \<open>Properties\<close>

text \<open>C33: Every checkout step of every job is pointed at the owning instance and no other step is
  touched: the steps of the rewritten workflow are the old ones, each with its injection; a
  checkout step with well-formed inputs ends up with exactly this server URL, all its other inputs
  and keys unchanged; other steps are identical; the change flag is set exactly when some step
  changed; and injecting into a step once more changes nothing.\<close>

theorem inject_every_checkout:
  assumes "step_wf step"
  shows "root_steps (fst (inject_root u root)) = map (\<lambda>s. fst (inject_step u s)) (root_steps root)
    \<and> (snd (inject_root u root) \<longleftrightarrow> (\<exists>s\<in>set (root_steps root). snd (inject_step u s)))
    \<and> (\<not> is_checkout step \<longrightarrow> fst (inject_step u step) = step)
    \<and> (is_checkout step \<longrightarrow>
         map_option y_value (step_input (fst (inject_step u step)) ''github-server-url'') = Some u)
    \<and> (j \<noteq> ''github-server-url'' \<longrightarrow> step_input (fst (inject_step u step)) j = step_input step j)
    \<and> (k \<noteq> ''with'' \<longrightarrow> mappingValue (fst (inject_step u step)) k = mappingValue step k)
    \<and> (snd (inject_step u step) \<longleftrightarrow> fst (inject_step u step) \<noteq> step)
    \<and> inject_step u (fst (inject_step u step)) = (fst (inject_step u step), False)"
proof -
  note w = setWithInput_input [OF assms, of "''github-server-url''" u]
  have "snd (setWithInput step ''github-server-url'' u) \<Longrightarrow> fst (setWithInput step ''github-server-url'' u) \<noteq> step"
    using w by metis
  moreover have "inject_step u (fst (inject_step u step)) = (fst (inject_step u step), False)"
    using setWithInput_done [OF setWithInput_wf [OF assms] conjunct1 [OF w]] by (simp add: inject_step_def)
  ultimately show ?thesis
    using inject_root_steps [of u root] w by (cases "is_checkout step") (auto simp: inject_step_def)
qed

definition example_step :: yaml where
  "example_step = Node MappingNode [] [] [y_str ''uses'', y_str ''actions/checkout@v4'',
     y_str ''with'', Node MappingNode [] [] [y_str ''fetch-depth'', y_str ''0''] []] []"

lemma trimmed_checkout: "trimmed ''actions/checkout@v4''"
  by (simp add: trimmed_def strip_one_def space_runes_def)

lemma checkout_v4: "isCheckoutUses ''actions/checkout@v4''"
proof -
  have u: "trim_space ''actions/checkout@v4'' = ''actions/checkout@v4''" using trimmed_checkout by simp
  have s: "split_on (CHR ''/'') ''actions/checkout'' = [''actions'', ''checkout'']" by simp
  show ?thesis
    unfolding isCheckoutUses_def u Let_def by (simp add: has_prefix_def cut_prefix_def s)
qed

lemma example_step_facts: "step_wf example_step" "is_checkout example_step"
  by (simp_all add: step_wf_def is_checkout_def example_step_def mappingValue_def checkout_v4)

theorem inject_every_checkout_witness:
  "map_option y_value (step_input (fst (inject_step ''https://forgejo-a'' example_step)) ''github-server-url'')
     = Some ''https://forgejo-a''
   \<and> map_option y_value (step_input (fst (inject_step ''https://forgejo-a'' example_step)) ''fetch-depth'') = Some ''0''"
proof -
  have "map_option y_value (step_input example_step ''fetch-depth'') = Some ''0''"
    by (simp add: example_step_def step_input_def mappingValue_def)
  then show ?thesis
    using inject_every_checkout [OF example_step_facts(1), of "''https://forgejo-a''" example_step "''fetch-depth''" "[]"]
      example_step_facts(2) by simp
qed

section \<open>The placeholders of a server URL\<close>

text \<open>
  What the rewrite of a value promises, without the scanner: the keys by the kind of URL they stand
  for, the placeholders as texts, and the places where one starts.
\<close>

datatype url_kind = ServerURL | ApiURL | RepositoryURL

fun url_keys :: "url_kind \<Rightarrow> string list" where
  "url_keys ServerURL = [''github.server_url'', ''env.GITHUB_SERVER_URL'', ''env.FORGEJO_SERVER_URL'']"
| "url_keys ApiURL = [''github.api_url'', ''env.GITHUB_API_URL'', ''env.FORGEJO_API_URL'']"
| "url_keys RepositoryURL = [''github.repository_url'']"

definition server_expr :: "url_kind \<Rightarrow> string \<Rightarrow> bool" where
  "server_expr kind e \<longleftrightarrow> (\<exists>ws1 key ws2. e = ''${{'' @ ws1 @ key @ ws2 @ ''}}''
     \<and> key \<in> set (url_keys kind) \<and> set (ws1 @ ws2) \<subseteq> {CHR 0x09, CHR 0x0A, CHR 0x0C, CHR 0x0D, CHR '' ''})"

definition occurs_at :: "nat \<Rightarrow> string \<Rightarrow> bool" where
  "occurs_at i v \<longleftrightarrow> (\<exists>kind e. server_expr kind e \<and> prefix e (drop i v))"

text \<open>The text that takes the place of the placeholder \<open>e\<close>.\<close>

fun url_of :: "string \<Rightarrow> string \<Rightarrow> string \<Rightarrow> url_kind \<Rightarrow> string" where
  "url_of u repo e ServerURL = u"
| "url_of u repo e ApiURL = u @ ''/api/v1''"
| "url_of u repo e RepositoryURL = (if repo = [] then e else u @ ''/'' @ repo)"

lemma url_keys_expr: "key \<in> set expr_keys \<longleftrightarrow> (\<exists>kind. key \<in> set (url_keys kind))"
proof -
  have "(\<exists>kind. P kind) \<longleftrightarrow> P ServerURL \<or> P ApiURL \<or> P RepositoryURL" for P
    by (metis url_kind.exhaust)
  then show ?thesis by (auto simp: expr_keys_def)
qed

lemma replacement_url: "key \<in> set (url_keys kind) \<Longrightarrow> replacement u repo key e = url_of u repo e kind"
  by (cases kind) (auto simp: replacement_def)

lemma spaces_re: "set ws \<subseteq> {CHR 0x09, CHR 0x0A, CHR 0x0C, CHR 0x0D, CHR '' ''} \<longleftrightarrow> (\<forall>c\<in>set ws. re_space c)"
  by (auto simp: re_space_def)

lemma match_expr_server:
  assumes "server_expr kind e"
  obtains key where "match_expr (e @ rest) = Some (key, rest)" "key \<in> set (url_keys kind)"
proof -
  obtain ws1 key ws2 where e: "e = ''${{'' @ ws1 @ key @ ws2 @ ''}}''" and k: "key \<in> set (url_keys kind)"
    and ws: "\<forall>c\<in>set (ws1 @ ws2). re_space c"
    using assms unfolding server_expr_def spaces_re by blast
  have "match_expr (e @ rest) = Some (key, rest)"
    using match_expr_literal [OF _ ws, of key rest] k url_keys_expr e by auto
  from that [OF this k] show thesis .
qed

lemma match_expr_sound:
  assumes "match_expr s = Some (key, rest)"
  obtains kind e where "server_expr kind e" "s = e @ rest"
proof -
  obtain r where r: "s = ''${{'' @ r"
    and f: "find (\<lambda>k. has_prefix (dropWhile re_space r) k) expr_keys = Some key"
    and c: "dropWhile re_space (drop (length key) (dropWhile re_space r)) = ''}}'' @ rest"
    using assms by (auto simp: match_expr_def Let_def cut_prefix_Some split: option.splits)
  let ?ws1 = "takeWhile re_space r" and ?t = "drop (length key) (dropWhile re_space r)"
  have key: "key \<in> set expr_keys" "dropWhile re_space r = key @ ?t"
    using f by (auto simp: find_Some_iff has_prefix_iff)
  moreover have "?t = takeWhile re_space ?t @ ''}}'' @ rest"
    using takeWhile_dropWhile_id [of re_space ?t] c by metis
  ultimately have s: "s = (''${{'' @ ?ws1 @ key @ takeWhile re_space ?t @ ''}}'') @ rest"
    using r takeWhile_dropWhile_id [of re_space r] by (metis append.assoc)
  obtain kind where "key \<in> set (url_keys kind)" using key(1) url_keys_expr by blast
  moreover have "\<forall>c\<in>set (?ws1 @ takeWhile re_space ?t). re_space c"
    by (auto dest: set_takeWhileD)
  ultimately have "server_expr kind (''${{'' @ ?ws1 @ key @ takeWhile re_space ?t @ ''}}'')"
    unfolding server_expr_def spaces_re by blast
  then show thesis using s by (rule that)
qed

lemma occurs_at_match: "occurs_at i v \<longleftrightarrow> match_expr (drop i v) \<noteq> None"
proof
  assume "occurs_at i v"
  then obtain kind e rest where "server_expr kind e" "drop i v = e @ rest"
    by (auto simp: occurs_at_def prefix_def)
  then show "match_expr (drop i v) \<noteq> None" by (metis match_expr_server option.distinct(1))
next
  assume "match_expr (drop i v) \<noteq> None"
  then obtain key rest where "match_expr (drop i v) = Some (key, rest)" by auto
  then show "occurs_at i v" unfolding occurs_at_def prefix_def by (metis match_expr_sound)
qed

lemma replace_exprs_skip:
  "\<forall>i<length pre. \<not> occurs_at i (pre @ s) \<Longrightarrow> replace_exprs f (pre @ s) = pre @ replace_exprs f s"
proof (induction pre)
  case Nil
  then show ?case by simp
next
  case (Cons c pre)
  have "\<not> occurs_at 0 (c # pre @ s)" using Cons.prems by fastforce
  then have "match_expr (c # pre @ s) = None" unfolding occurs_at_match by (simp del: not_None_eq)
  moreover have "\<not> occurs_at i (pre @ s)" if "i < length pre" for i
    using Cons.prems [rule_format, of "Suc i"] that by (simp add: occurs_at_def)
  ultimately show ?case using Cons.IH by simp
qed

lemma occurs_at_opening:
  assumes "occurs_at i v"
  shows "i < length v" "prefix ''${{'' (drop i v)" "str_contains v ''${{''"
proof -
  obtain kind e rest where e: "server_expr kind e" "drop i v = e @ rest"
    using assms by (auto simp: occurs_at_def prefix_def)
  then obtain t where t: "drop i v = ''${{'' @ t" by (auto simp: server_expr_def)
  then show "i < length v" by (cases "i < length v") simp_all
  show "prefix ''${{'' (drop i v)" using t by simp
  have "v = take i v @ ''${{'' @ t" using t append_take_drop_id [of i v] by simp
  then show "str_contains v ''${{''" unfolding str_contains_iff by blast
qed

text \<open>The guard of the code only saves work.\<close>

lemma rewrite_value_scan: "rewrite_value u repo v = replace_exprs (replacement u repo) v"
proof (cases "str_contains v ''${{''")
  case True
  then show ?thesis by (simp add: rewrite_value_def)
next
  case False
  then have "\<not> occurs_at i v" for i using occurs_at_opening(3) by blast
  then show ?thesis
    using replace_exprs_skip [of v "[]"] False by (simp add: rewrite_value_def)
qed

text \<open>C34: The rewrite of a value, for every text. A text in which no placeholder of a server URL
  starts anywhere is returned as it is, with all the foreign expressions and dollar signs in it. In
  any other text there is a first placeholder: what stands before it is kept, it is replaced by
  the URL of its kind (\<open>github.repository_url\<close> stays as written while the repository is
  unknown), and the rewrite goes on behind it. Every text is of one of the two forms, so this
  determines the whole result: every placeholder is replaced and the text between them is kept.\<close>

theorem normalize_exact:
  "((\<forall>i. \<not> occurs_at i v) \<longrightarrow> rewrite_value u repo v = v)
   \<and> (v = pre @ e @ post \<and> server_expr kind e \<and> (\<forall>i<length pre. \<not> occurs_at i v) \<longrightarrow>
        rewrite_value u repo v = pre @ url_of u repo e kind @ rewrite_value u repo post)
   \<and> ((\<exists>i. occurs_at i v) \<longrightarrow>
        (\<exists>pre e post kind. v = pre @ e @ post \<and> server_expr kind e \<and> (\<forall>i<length pre. \<not> occurs_at i v)))"
proof (intro conjI impI)
  assume "\<forall>i. \<not> occurs_at i v"
  then show "rewrite_value u repo v = v"
    using replace_exprs_skip [of v "[]"] by (simp add: rewrite_value_scan)
next
  assume h: "v = pre @ e @ post \<and> server_expr kind e \<and> (\<forall>i<length pre. \<not> occurs_at i v)"
  obtain key where m: "match_expr (e @ post) = Some (key, post)" "key \<in> set (url_keys kind)"
    using match_expr_server h by blast
  have t: "take (length (e @ post) - length post) (e @ post) = e" by simp
  have "replace_exprs (replacement u repo) (e @ post)
      = url_of u repo e kind @ replace_exprs (replacement u repo) post"
    unfolding replace_exprs_match [OF m(1)] t replacement_url [OF m(2)] ..
  then show "rewrite_value u repo v = pre @ url_of u repo e kind @ rewrite_value u repo post"
    using h replace_exprs_skip [of pre "e @ post" "replacement u repo"] by (metis rewrite_value_scan)
next
  assume ex: "\<exists>i. occurs_at i v"
  define i where "i = (LEAST i. occurs_at i v)"
  have i: "occurs_at i v" using ex unfolding i_def by (rule LeastI_ex)
  then obtain kind e post where e: "server_expr kind e" "drop i v = e @ post"
    by (auto simp: occurs_at_def prefix_def)
  have "v = take i v @ e @ post" using e(2) append_take_drop_id [of i v] by simp
  moreover have "\<not> occurs_at j v" if "j < length (take i v)" for j
    using that not_less_Least [of j "\<lambda>i. occurs_at i v"] by (simp add: i_def)
  ultimately show "\<exists>pre e post kind. v = pre @ e @ post \<and> server_expr kind e \<and> (\<forall>i<length pre. \<not> occurs_at i v)"
    using e(1) by blast
qed

text \<open>A value with a foreign variable before and a secret behind the placeholder.\<close>

theorem normalize_exact_witness:
  "rewrite_value ''https://f'' [] ''$HOME ${{ github.server_url }}/${{ secrets.X }}''
     = ''$HOME https://f/${{ secrets.X }}''"
proof -
  let ?e = "''${{ github.server_url }}''" and ?post = "''/${{ secrets.X }}''"
  let ?v = "''$HOME '' @ ?e @ ?post"
  have e: "server_expr ServerURL ?e"
    unfolding server_expr_def
    by (rule exI [of _ "'' ''"], rule exI [of _ "''github.server_url''"], rule exI [of _ "'' ''"]) simp
  have pre: "\<forall>i<length ''$HOME ''. \<not> occurs_at i ?v"
    by (auto simp: less_Suc_eq numeral_eq_Suc dest!: occurs_at_opening(2))
  have "match_expr ''${{ secrets.X }}'' = None"
    by (simp add: match_expr_def cut_prefix_def has_prefix_def re_space_def expr_keys_def)
  then have "\<not> occurs_at 1 ?post" by (simp add: occurs_at_match)
  then have "\<not> occurs_at i ?post" if "i < length ?post" for i
    using that by (cases "i = 1") (auto simp: less_Suc_eq numeral_eq_Suc dest!: occurs_at_opening(2))
  then have post: "\<forall>i. \<not> occurs_at i ?post" using occurs_at_opening(1) by blast
  have "rewrite_value ''https://f'' [] ?v = ''$HOME '' @ ''https://f'' @ rewrite_value ''https://f'' [] ?post"
    using normalize_exact [of ?v "''https://f''" "[]" "''$HOME ''" ?e ?post ServerURL] e pre by simp
  moreover have "rewrite_value ''https://f'' [] ?post = ?post"
    using normalize_exact [of ?post "''https://f''" "[]"] post by blast
  ultimately show ?thesis by simp
qed

text \<open>Rewriting values keeps the shape of the document: with all values blanked the tree is the
  same before and after, so kinds, tags, keys, order, comments and styles are untouched; the keys of
  a mapping stay in place, and two passes are one pass of the composed function.\<close>

theorem rewrite_keeps_shape:
  "rewriteScalarValues (\<lambda>_. []) (rewriteScalarValues fn n) = rewriteScalarValues (\<lambda>_. []) n
   \<and> rewriteScalarValues fn (rewriteScalarValues fn n) = rewriteScalarValues (\<lambda>v. fn (fn v)) n
   \<and> y_kind (rewriteScalarValues fn n) = y_kind n
   \<and> length (y_content (rewriteScalarValues fn n)) = length (y_content n)
   \<and> (y_kind n = MappingNode \<longrightarrow>
        (\<forall>i. even i \<and> i < length (y_content n) \<longrightarrow> y_content (rewriteScalarValues fn n) ! i = y_content n ! i))"
proof -
  have len: "length (odd_map g xs) = length xs" for g :: "yaml \<Rightarrow> yaml" and xs
    by (induction g xs rule: odd_map.induct) simp_all
  have nth: "even i \<Longrightarrow> i < length xs \<Longrightarrow> odd_map g xs ! i = xs ! i" for g :: "yaml \<Rightarrow> yaml" and xs i
  proof (induction g xs arbitrary: i rule: odd_map.induct)
    case (1 g k v rest)
    show ?case
    proof (cases "i = 0")
      case False
      with \<open>even i\<close> have "2 \<le> i" by presburger
      then have "i = Suc (Suc (i - 2))" by simp
      moreover from this \<open>even i\<close> have "even (i - 2)" by (metis even_Suc_Suc_iff)
      ultimately show ?thesis using 1 by (metis Suc_less_eq length_Cons nth_Cons_Suc odd_map.simps(1))
    qed simp
  qed simp_all
  have "y_kind (rewriteScalarValues fn n) = y_kind n" by (cases n) simp
  moreover have "length (y_content (rewriteScalarValues fn n)) = length (y_content n)"
    by (cases n) (simp add: len)
  moreover have "y_content (rewriteScalarValues fn n) ! i = y_content n ! i"
    if "y_kind n = MappingNode" "even i" "i < length (y_content n)" for i
    using that by (cases n) (simp add: nth)
  ultimately show ?thesis by (simp add: rewriteScalarValues_fusion)
qed

theorem rewrite_keeps_shape_witness:
  "y_content (rewriteScalarValues (\<lambda>v. ''x'') example_step) ! 0 = y_str ''uses''"
  using rewrite_keeps_shape [of "\<lambda>v. ''x''" example_step] by (simp add: example_step_def)

lemma rewrite_payload_only:
  "\<exists>payload. rewriteWorkflowPayload parse encode task u repo = task\<lparr>vt_WorkflowPayload := payload\<rparr>"
proof -
  have "rewriteWorkflowPayload parse encode task u repo = task
      \<or> (\<exists>p. rewriteWorkflowPayload parse encode task u repo = task\<lparr>vt_WorkflowPayload := p\<rparr>)"
    by (auto simp: rewriteWorkflowPayload_def split: prod.split option.split)
  then show ?thesis
  proof
    assume "rewriteWorkflowPayload parse encode task u repo = task"
    then show ?thesis by (intro exI [of _ "vt_WorkflowPayload task"]) simp
  qed
qed

text \<open>C32: The stored task survives the rewrite: whatever the YAML library does, the result differs from
  the stored task at most in its payload, and it is the stored task itself when the payload does
  not parse, cannot be encoded, or has nothing to rewrite, so the runner always gets a payload that
  is either the original or the output of the encoder.\<close>

theorem payload_rewrite_safe:
  "(\<exists>payload. rewriteWorkflowPayload parse encode task u repo = task\<lparr>vt_WorkflowPayload := payload\<rparr>)
   \<and> (rewriteWorkflowPayload parse encode task u repo = task
      \<or> (\<exists>doc. encode doc = Inr (vt_WorkflowPayload (rewriteWorkflowPayload parse encode task u repo))))
   \<and> ((\<exists>e. parse (vt_WorkflowPayload task) = Inl e) \<or> vt_WorkflowPayload task = [] \<or> u = [] \<longrightarrow>
        rewriteWorkflowPayload parse encode task u repo = task)"
proof -
  have wr: "fst (with_root parse encode f p) = p \<or> (\<exists>doc. encode doc = Inr (fst (with_root parse encode f p)))" for f p
    by (auto simp: with_root_def Let_def split_beta split: sum.splits)
  have pe: "\<exists>e. parse p = Inl e \<Longrightarrow> snd (with_root parse encode f p) \<noteq> None" for f p
    by (auto simp: with_root_def)
  obtain p1 e1 where i: "injectCheckoutServerURL parse encode (vt_WorkflowPayload task) u = (p1, e1)" by fastforce
  obtain p2 e2 where n: "normalizeServerURLs parse encode p1 u repo = (p2, e2)" by fastforce
  have a: "rewriteWorkflowPayload parse encode task u repo = task
      \<or> (rewriteWorkflowPayload parse encode task u repo = task\<lparr>vt_WorkflowPayload := p2\<rparr>
          \<and> p2 \<noteq> vt_WorkflowPayload task \<and> e1 = None)"
    by (auto simp: rewriteWorkflowPayload_def i n split: option.split)
  have "p1 = vt_WorkflowPayload task \<or> (\<exists>doc. encode doc = Inr p1)"
    using wr [of "inject_root u" "vt_WorkflowPayload task"] i by (simp add: injectCheckoutServerURL_def)
  moreover have "p2 = p1 \<or> (\<exists>doc. encode doc = Inr p2)"
    using wr [of "normalize_root u repo" p1] n by (simp add: normalizeServerURLs_def)
  ultimately have b: "rewriteWorkflowPayload parse encode task u repo = task
      \<or> (\<exists>doc. encode doc = Inr (vt_WorkflowPayload (rewriteWorkflowPayload parse encode task u repo)))"
    using a by auto
  have c: "rewriteWorkflowPayload parse encode task u repo = task"
    if "(\<exists>e. parse (vt_WorkflowPayload task) = Inl e) \<or> vt_WorkflowPayload task = [] \<or> u = []"
    using that a pe [of "vt_WorkflowPayload task" "inject_root u"] i
    by (auto simp: injectCheckoutServerURL_def rewriteWorkflowPayload_def)
  show ?thesis using rewrite_payload_only b c by blast
qed

theorem payload_rewrite_safe_witness:
  "rewriteWorkflowPayload (\<lambda>_. Inl ''bad yaml'') (\<lambda>_. Inl []) (\<lparr>vt_Id = 1, vt_WorkflowPayload = ''x: ['', vt_Context = None,
     vt_Secrets = [], vt_rest = []\<rparr>) ''https://f'' [] = \<lparr>vt_Id = 1, vt_WorkflowPayload = ''x: ['', vt_Context = None,
     vt_Secrets = [], vt_rest = []\<rparr>"
  using payload_rewrite_safe [of "\<lambda>_. Inl ''bad yaml''" "\<lambda>_. Inl []" "\<lparr>vt_Id = 1, vt_WorkflowPayload = ''x: ['', vt_Context = None,
     vt_Secrets = [], vt_rest = []\<rparr>" "''https://f''" "[]"] by simp

end
