(* ===== verification/South_Handler.thy ===== *)
theory South_Handler
  imports Run_Task South_Payload
begin

text \<open>
  The RPCs of the internal runner (\<^verbatim>\<open>internal/south/handler.go\<close>).

  Each handler is a function on the world. \<open>interf\<close> is what other goroutines do at the one
  point of a handler where its checks and its effects can be separated: between the lookup of a
  token and the call that relies on it. Theory \<open>South_Requests\<close> cuts the same handlers at every lock,
  and shows that they compute these functions when nothing comes between;
  \<open>registration_outlives_timeout\<close> shows something that can. Forwarding calls are functions on
  the world already. The clock is read once per handler (\<open>now\<close>). Log lines are not modelled.
\<close>

section \<open>Requests\<close>

definition sessionTokenFromRequest :: "req_headers \<Rightarrow> string option" where
  "sessionTokenFromRequest req =
     (if rq_runner_token req \<noteq> [] then Some (rq_runner_token req)
      else if rq_runner_uuid req \<noteq> [] then Some (rq_runner_uuid req)
      else if has_prefix (rq_authorization req) ''Bearer ''
        then Some (trim_prefix (rq_authorization req) ''Bearer '')
      else None)"

definition tokenPreviewLength :: nat where
  "tokenPreviewLength = 8"

definition truncateToken :: "string \<Rightarrow> string" where
  "truncateToken s = (if length s > tokenPreviewLength then take tokenPreviewLength s else s)"

definition isRegTokenExpired :: "time \<Rightarrow> TaskCtx \<Rightarrow> bool" where
  "isRegTokenExpired now tc \<longleftrightarrow> time_sub now (t_CreatedAt tc) > t_RegTokenTTL tc"

definition unauthenticated :: "string \<Rightarrow> go_err" where
  "unauthenticated m = ConnectError CodeUnauthenticated m"

section \<open>State access\<close>

abbreviation w_session :: "'x world \<Rightarrow> sref \<Rightarrow> Session" where
  "w_session w s \<equiv> sm_objs (w_sessions w) s"

abbreviation w_task_of :: "'x world \<Rightarrow> sref \<Rightarrow> TaskCtx" where
  "w_task_of w s \<equiv> w_heap w (s_TaskCtx (w_session w s))"

definition w_set_session :: "sref \<Rightarrow> (Session \<Rightarrow> Session) \<Rightarrow> 'x world \<Rightarrow> 'x world" where
  "w_set_session s f w = w\<lparr>w_sessions := (w_sessions w)\<lparr>sm_objs := (sm_objs (w_sessions w))(s := f (w_session w s))\<rparr>\<rparr>"

definition w_consume :: "string \<Rightarrow> 'x world \<Rightarrow> 'x world \<times> bool" where
  "w_consume tok w = (let (st, ok) = MarkRegTokenConsumed tok (w_store w) in (w\<lparr>w_store := st\<rparr>, ok))"

definition w_touch :: "time \<Rightarrow> string \<Rightarrow> 'x world \<Rightarrow> 'x world \<times> bool" where
  "w_touch now tok w = (let (m, ok) = Touch now tok (w_sessions w) in (w\<lparr>w_sessions := m\<rparr>, ok))"

definition w_create_with_token :: "time \<Rightarrow> tref \<Rightarrow> string \<Rightarrow> string \<Rightarrow> string list \<Rightarrow> 'x world \<Rightarrow> 'x world \<times> sref" where
  "w_create_with_token now r tok name labels w =
     (let ((m, h), s) = CreateWithToken now r tok name labels (w_sessions w, w_heap w)
      in (w\<lparr>w_sessions := m, w_heap := h\<rparr>, s))"

section \<open>Handlers\<close>

text \<open>A panic of \<open>Create\<close> aborts the request; it is the error \<open>panicked\<close>.\<close>

definition panicked :: go_err where
  "panicked = PlainError ''session: failed to generate token''"

definition runner_of :: "'x world \<Rightarrow> sref \<Rightarrow> v1_Runner" where
  "runner_of w s =
     \<lparr>vr_Id = t_ID (w_task_of w s), vr_Uuid = s_SessionToken (w_session w s),
      vr_Token = s_SessionToken (w_session w s), vr_Name = s_RunnerName (w_session w s),
      vr_Ephemeral = True, vr_Labels = s_Labels (w_session w s)\<rparr>"

definition resolveInstance :: "'n Resolver \<Rightarrow> TaskCtx \<Rightarrow> (Instance \<times> 'n Client) option" where
  [simp]: "resolveInstance R taskCtx = Resolve R (t_Instance taskCtx)"

text \<open>The answer of a Register: the name is the one of the request.\<close>

definition register_answer :: "'x world \<Rightarrow> south_RegisterRequest \<Rightarrow> tref \<Rightarrow> sref \<Rightarrow> v1_Runner" where
  "register_answer w req r s =
     \<lparr>vr_Id = t_ID (w_heap w r), vr_Uuid = s_SessionToken (w_session w s),
      vr_Token = s_SessionToken (w_session w s), vr_Name = sr_Name req, vr_Ephemeral = True,
      vr_Labels = s_Labels (w_session w s)\<rparr>"

definition south_Register :: "('x world \<Rightarrow> 'x world) \<Rightarrow> time \<Rightarrow> entropy \<Rightarrow> south_RegisterRequest \<Rightarrow>
    'x world \<Rightarrow> 'x world \<times> (go_err + v1_Runner)" where
  "south_Register interf now rnd req w =
     (let regToken = sr_Token req in
      case GetByRegToken regToken (w_store w) of
        None \<Rightarrow> (w, Inl (unauthenticated ''invalid registration token''))
      | Some r \<Rightarrow>
          if isRegTokenExpired now (w_heap w r)
          then (w, Inl (unauthenticated ''registration token expired''))
          else (case w_consume regToken (interf w) of
              (w1, False) \<Rightarrow> (w1, Inl (unauthenticated ''registration token already consumed''))
            | (w1, True) \<Rightarrow>
                (case Create rnd now r (sr_Name req) (sr_Labels req) (w_sessions w1, w_heap w1) of
                   Inl e \<Rightarrow> (w1, Inl panicked)
                 | Inr ((m, h), s) \<Rightarrow>
                     (let w2 = w_modify r MarkRunnerRegistered (w1\<lparr>w_sessions := m, w_heap := h\<rparr>)
                      in (w2, Inr (register_answer w2 req r s))))))"

definition authenticate :: "('x world \<Rightarrow> 'x world) \<Rightarrow> time \<Rightarrow> req_headers \<Rightarrow> 'x world \<Rightarrow> 'x world \<times> (go_err + sref)" where
  "authenticate interf now req w =
     (case sessionTokenFromRequest req of
        None \<Rightarrow> (w, Inl (unauthenticated ''missing session token''))
      | Some tok \<Rightarrow>
          (case Lookup tok (w_sessions w) of
             Some s \<Rightarrow>
               (case w_touch now tok (interf w) of
                  (w1, False) \<Rightarrow> (w1, Inl (unauthenticated ''invalid session token''))
                | (w1, True) \<Rightarrow> (w1, Inr s))
           | None \<Rightarrow>
               (case GetByRegToken tok (w_store w) of
                  None \<Rightarrow> (w, Inl (unauthenticated ''invalid session token''))
                | Some r \<Rightarrow>
                    if isRegTokenExpired now (w_heap w r)
                    then (w, Inl (unauthenticated ''registration token expired''))
                    else (case w_consume tok (interf w) of
                        (w1, False) \<Rightarrow> (w1, Inl (unauthenticated ''registration token already consumed''))
                      | (w1, True) \<Rightarrow>
                          (let (w2, s) = w_create_with_token now r tok [] [] w1;
                               (w3, _) = w_touch now tok w2
                           in (w_modify r MarkRunnerRegistered w3, Inr s))))))"

text \<open>What each RPC does once it is authenticated.\<close>

definition declare_body :: "south_DeclareRequest \<Rightarrow> sref \<Rightarrow> 'x world \<Rightarrow> 'x world \<times> v1_Runner" where
  "declare_body req s w1 =
     (let w2 = (if sd_Labels req \<noteq> [] then w_set_session s (\<lambda>x. x\<lparr>s_Labels := sd_Labels req\<rparr>) w1 else w1);
          w3 = (if s_RunnerName (w_session w2 s) = []
             then w_set_session s (\<lambda>x. x\<lparr>s_RunnerName := ''one-job-runner''\<rparr>) w2 else w2)
      in (w3, runner_of w3 s))"

definition fetch_body :: "yaml_parse \<Rightarrow> yaml_encode \<Rightarrow> ('x world) Resolver \<Rightarrow> time \<Rightarrow> sref \<Rightarrow>
    'x world \<Rightarrow> 'x world \<times> v1_Task" where
  "fetch_body parse encode R now s w1 =
     (let w2 = w1\<lparr>w_registry := putTaskTokens (w_heap w1) (s_TaskCtx (w_session w1 s))
            (s_SessionToken (w_session w1 s)) now (w_registry w1)\<rparr>;
          task = t_Task (w_task_of w2 s)
      in (w2, case resolveInstance R (w_task_of w2 s) of
             None \<Rightarrow> task
           | Some (inst, _) \<Rightarrow>
               rewriteWorkflowPayload parse encode task (i_ForgejoURL inst) (repositoryFromContext task)))"

definition update_forward :: "('x world) Resolver \<Rightarrow> UpdateTaskRequest \<Rightarrow> sref \<Rightarrow>
    'x world \<Rightarrow> 'x world \<times> (go_err + UpdateTaskResponse)" where
  "update_forward R req s w1 =
     (if GetState_Id req \<noteq> t_ID (w_task_of w1 s)
      then (w1, Inl (ConnectError CodeInvalidArgument ''task_id mismatch''))
      else (case resolveInstance R (w_task_of w1 s) of
          None \<Rightarrow> (w1, Inl (ConnectError CodeInternal ''task belongs to unknown instance''))
        | Some (_, forwarder) \<Rightarrow> ForwardUpdateTask forwarder req w1))"

definition log_forward :: "('x world) Resolver \<Rightarrow> UpdateLogRequest \<Rightarrow> sref \<Rightarrow>
    'x world \<Rightarrow> 'x world \<times> (go_err + UpdateLogResponse)" where
  "log_forward R req s w1 =
     (if ulr_TaskId req \<noteq> t_ID (w_task_of w1 s)
      then (w1, Inl (ConnectError CodeInvalidArgument ''task_id mismatch''))
      else (case resolveInstance R (w_task_of w1 s) of
          None \<Rightarrow> (w1, Inl (ConnectError CodeInternal ''task belongs to unknown instance''))
        | Some (_, forwarder) \<Rightarrow> ForwardUpdateLog forwarder req w1))"

text \<open>The cleanup of a task that reached a terminal state.\<close>

definition terminal_cleanup :: "sref \<Rightarrow> 'x world \<Rightarrow> 'x world" where
  "terminal_cleanup s w =
     (let r = s_TaskCtx (w_session w s);
          w1 = w_modify r (SetStatus StatusTerminal) w;
          w2 = w_modify r MarkDone w1;
          w3 = w_remove_session (s_SessionToken (w_session w2 s)) w2
      in w_remove_task (t_ID (w_heap w3 r)) w3)"

text \<open>The RPCs.\<close>

definition south_Declare :: "('x world \<Rightarrow> 'x world) \<Rightarrow> time \<Rightarrow> req_headers \<Rightarrow> south_DeclareRequest \<Rightarrow>
    'x world \<Rightarrow> 'x world \<times> (go_err + v1_Runner)" where
  "south_Declare interf now hdr req w =
     (case authenticate interf now hdr w of
        (w1, Inl e) \<Rightarrow> (w1, Inl e)
      | (w1, Inr s) \<Rightarrow> (let (w2, runner) = declare_body req s w1 in (w2, Inr runner)))"

definition south_FetchTask :: "yaml_parse \<Rightarrow> yaml_encode \<Rightarrow> ('x world) Resolver \<Rightarrow> ('x world \<Rightarrow> 'x world) \<Rightarrow>
    time \<Rightarrow> req_headers \<Rightarrow> 'x world \<Rightarrow> 'x world \<times> (go_err + v1_Task)" where
  "south_FetchTask parse encode R interf now hdr w =
     (case authenticate interf now hdr w of
        (w1, Inl e) \<Rightarrow> (w1, Inl e)
      | (w1, Inr s) \<Rightarrow> (let (w2, task) = fetch_body parse encode R now s w1 in (w2, Inr task)))"

definition south_UpdateTask :: "('x world) Resolver \<Rightarrow> ('x world \<Rightarrow> 'x world) \<Rightarrow> time \<Rightarrow> req_headers \<Rightarrow>
    UpdateTaskRequest \<Rightarrow> 'x world \<Rightarrow> 'x world \<times> (go_err + UpdateTaskResponse)" where
  "south_UpdateTask R interf now hdr req w =
     (case authenticate interf now hdr w of
        (w1, Inl e) \<Rightarrow> (w1, Inl e)
      | (w1, Inr s) \<Rightarrow>
          (case update_forward R req s w1 of
             (w2, Inl err) \<Rightarrow> (w2, Inl err)
           | (w2, Inr resp) \<Rightarrow>
               ((if GetState_Result req \<noteq> RESULT_UNSPECIFIED then terminal_cleanup s w2 else w2), Inr resp)))"

definition south_UpdateLog :: "('x world) Resolver \<Rightarrow> ('x world \<Rightarrow> 'x world) \<Rightarrow> time \<Rightarrow> req_headers \<Rightarrow>
    UpdateLogRequest \<Rightarrow> 'x world \<Rightarrow> 'x world \<times> (go_err + UpdateLogResponse)" where
  "south_UpdateLog R interf now hdr req w =
     (case authenticate interf now hdr w of
        (w1, Inl e) \<Rightarrow> (w1, Inl e)
      | (w1, Inr s) \<Rightarrow> log_forward R req s w1)"

section \<open>Lemmas\<close>

lemma w_set_session_fields [simp]:
  "w_heap (w_set_session s f w) = w_heap w" "w_store (w_set_session s f w) = w_store w"
  "w_pool (w_set_session s f w) = w_pool w" "w_ext (w_set_session s f w) = w_ext w"
  "Lookup tok (w_sessions (w_set_session s f w)) = Lookup tok (w_sessions w)"
  by (simp_all add: w_set_session_def Lookup_def)

lemma w_consume_cases:
  assumes "w_consume tok w = (w', ok)"
  shows "ok \<longleftrightarrow> mget (ms_byReg (w_store w)) tok \<noteq> None"
    "w_store w' = fst (MarkRegTokenConsumed tok (w_store w))" "w_sessions w' = w_sessions w"
    "w_heap w' = w_heap w" "w_ext w' = w_ext w" "\<not> ok \<Longrightarrow> w' = w"
  using assms by (auto simp: w_consume_def MarkRegTokenConsumed_def Let_def split: option.splits)

lemma w_consume_spent:
  assumes "w_consume tok w = (w', True)"
  shows "GetByRegToken tok (w_store w') = None"
  using w_consume_cases [OF assms] by (simp add: GetByRegToken_consume)

lemma w_touch_cases:
  assumes "w_touch now tok w = (w', ok)"
  shows "ok \<longleftrightarrow> Lookup tok (w_sessions w) \<noteq> None"
    "w_sessions w' = fst (Touch now tok (w_sessions w))" "w_heap w' = w_heap w"
    "w_store w' = w_store w" "w_ext w' = w_ext w" "w_registry w' = w_registry w"
  using assms by (auto simp: w_touch_def Touch_def Lookup_def Let_def split: option.splits prod.splits)

lemma w_create_cases:
  assumes "w_create_with_token now r tok name labels w = (w', s)"
  shows "s = sm_next (w_sessions w)" "w_heap w' = modify r (SetSessionToken tok) (w_heap w)"
    "Lookup tok (w_sessions w') = Some s" "w_session w' s = \<lparr>s_SessionToken = tok, s_TaskCtx = r,
       s_RunnerName = name, s_Labels = labels, s_LastActivity = now\<rparr>"
    "w_store w' = w_store w" "w_ext w' = w_ext w" "sm_ok (w_sessions w) \<Longrightarrow> sm_ok (w_sessions w')"
proof -
  obtain m h where c: "CreateWithToken now r tok name labels (w_sessions w, w_heap w) = ((m, h), s)"
    and w': "w' = w\<lparr>w_sessions := m, w_heap := h\<rparr>"
    using assms by (auto simp: w_create_with_token_def Let_def split: prod.splits)
  note e = CreateWithToken_simps [of now r tok name labels "w_sessions w" "w_heap w", unfolded c]
  show "s = sm_next (w_sessions w)" "w_heap w' = modify r (SetSessionToken tok) (w_heap w)"
    "Lookup tok (w_sessions w') = Some s" "w_session w' s = \<lparr>s_SessionToken = tok, s_TaskCtx = r,
       s_RunnerName = name, s_Labels = labels, s_LastActivity = now\<rparr>"
    "w_store w' = w_store w" "w_ext w' = w_ext w"
    using e by (simp_all add: w' Lookup_def)
  show "sm_ok (w_sessions w) \<Longrightarrow> sm_ok (w_sessions w')"
    using CreateWithToken_ok [of "w_sessions w" now r tok name labels "w_heap w"] c by (simp add: w')
qed

text \<open>The two ways to authenticate.\<close>

lemma authenticate_cases:
  assumes "authenticate interf now hdr w = (w', Inr s)"
  obtains (session) tok where "sessionTokenFromRequest hdr = Some tok" "Lookup tok (w_sessions w) = Some s"
      "w_touch now tok (interf w) = (w', True)"
  | (one_job) tok r w1 w2 w3 where "sessionTokenFromRequest hdr = Some tok" "Lookup tok (w_sessions w) = None"
      "GetByRegToken tok (w_store w) = Some r" "\<not> isRegTokenExpired now (w_heap w r)"
      "w_consume tok (interf w) = (w1, True)" "w_create_with_token now r tok [] [] w1 = (w2, s)"
      "w_touch now tok w2 = (w3, True)" "w' = w_modify r MarkRunnerRegistered w3"
proof (cases "sessionTokenFromRequest hdr")
  case None
  then show ?thesis using assms by (simp add: authenticate_def)
next
  case tok: (Some tok)
  show ?thesis
  proof (cases "Lookup tok (w_sessions w)")
    case (Some s0)
    then show ?thesis
      using assms tok by (auto simp: authenticate_def split: prod.splits bool.splits intro: session)
  next
    case lk: None
    show ?thesis
    proof (cases "GetByRegToken tok (w_store w)")
      case None
      then show ?thesis using assms tok lk by (simp add: authenticate_def)
    next
      case (Some r)
      have ne: "\<not> isRegTokenExpired now (w_heap w r)"
        using assms tok lk Some by (auto simp: authenticate_def split: if_splits)
      obtain w1 ok where c: "w_consume tok (interf w) = (w1, ok)" by fastforce
      have ok: "ok" using assms tok lk Some ne c by (cases ok) (auto simp: authenticate_def)
      obtain w2 s0 where k: "w_create_with_token now r tok [] [] w1 = (w2, s0)" by fastforce
      obtain w3 b where t: "w_touch now tok w2 = (w3, b)" by fastforce
      have "b" using w_touch_cases(1) [OF t] w_create_cases(3) [OF k] by simp
      moreover have "w' = w_modify r MarkRunnerRegistered w3" "s = s0"
        using assms tok lk Some ne c ok k t by (auto simp: authenticate_def Let_def)
      ultimately show ?thesis using tok lk Some ne c ok k t by (intro one_job) auto
    qed
  qed
qed

section \<open>Properties\<close>

text \<open>C16: Only holders of a valid credential get in. A request authenticates only if it presents a
  token that is the token of a registered session, or a live, unexpired registration token, which is
  then spent: the runner of exactly that task counts as registered, and a new session under the
  token is bound to it. In both cases the session has just been touched, so it is not reaped.\<close>

theorem authenticate_sound:
  assumes "authenticate interf now hdr w = (w', Inr s)" and "sm_ok (w_sessions (interf w))"
  shows "\<exists>tok. sessionTokenFromRequest hdr = Some tok
    \<and> seen_at tok (w_sessions w') = Some now
    \<and> (Lookup tok (w_sessions w) = Some s
       \<or> (\<exists>r. GetByRegToken tok (w_store w) = Some r \<and> \<not> isRegTokenExpired now (w_heap w r)
            \<and> GetByRegToken tok (w_store w') = None
            \<and> Lookup tok (w_sessions w') = Some s \<and> s_TaskCtx (w_session w' s) = r
            \<and> registered_fired (w_heap w' r) \<and> Status (w_heap w' r) = StatusRunning
            \<and> SessionToken (w_heap w' r) = tok))"
proof (cases rule: authenticate_cases [OF assms(1)])
  case (1 tok)
  have "seen_at tok (w_sessions w') = Some now"
    using w_touch_cases [OF 1(3)] by (simp add: seen_touch [OF assms(2)])
  with 1 show ?thesis by blast
next
  case (2 tok r w1 w2 w3)
  note c = w_consume_cases [OF 2(5)] and k = w_create_cases [OF 2(6)] and t = w_touch_cases [OF 2(7)]
  have ok: "sm_ok (w_sessions w2)" using k(7) c(3) assms(2) by simp
  have seen: "seen_at tok (w_sessions w') = Some now"
    using t(1,2) by (simp add: 2(8) seen_touch [OF ok])
  have "Lookup tok (w_sessions w') = Some s" using k(3) by (simp add: 2(8) t(2))
  moreover have "s_TaskCtx (w_session w' s) = r"
    using k(3,4) by (simp add: 2(8) t(2) Touch_def Lookup_def)
  moreover have "GetByRegToken tok (w_store w') = None"
    using w_consume_spent [OF 2(5)] by (simp add: 2(8) t(4) k(5))
  moreover have "registered_fired (w_heap w' r) \<and> Status (w_heap w' r) = StatusRunning
      \<and> SessionToken (w_heap w' r) = tok"
    by (simp add: 2(8) t(3) k(2) taskctx_defs)
  ultimately show ?thesis using 2(1,3,4) seen by blast
qed

definition example_hdr :: "string \<Rightarrow> req_headers" where
  "example_hdr tok = \<lparr>rq_runner_token = tok, rq_runner_uuid = [], rq_authorization = []\<rparr>"

lemma example_south:
  "GetByRegToken ''tok-a'' (w_store example_world) = Some 0" "\<not> isRegTokenExpired 5 (w_heap example_world 0)"
  "Lookup tok (w_sessions example_world) = None" "sm_ok (w_sessions example_world)"
  "mget (ms_byReg (w_store example_world)) ''tok-a'' = Some 42"
  by (simp_all add: example_world_def GetByRegToken_def PutPending_def example_heap_def example_ctx_def
      isRegTokenExpired_def time_sub_def sat64_def int64_min_def int64_max_def)
    (simp_all add: NewManager_def Lookup_def)

lemma example_token: "tok \<noteq> [] \<Longrightarrow> sessionTokenFromRequest (example_hdr tok) = Some tok"
  by (simp add: sessionTokenFromRequest_def example_hdr_def)

lemma example_auth: "\<exists>w'. authenticate id 5 (example_hdr ''tok-a'') example_world = (w', Inr 0)"
proof -
  obtain w1 ok where c: "w_consume ''tok-a'' example_world = (w1, ok)" by fastforce
  have ok: "ok" using w_consume_cases(1) [OF c] example_south(5) by simp
  obtain w2 s where k: "w_create_with_token 5 0 ''tok-a'' [] [] w1 = (w2, s)" by fastforce
  have "s = 0"
    using w_create_cases(1) [OF k] w_consume_cases(3) [OF c] by (simp add: example_world_def NewManager_def)
  then show ?thesis
    using c ok k by (simp add: authenticate_def example_token example_south Let_def split_beta)
qed

lemma example_auth_task:
  assumes a: "authenticate id 5 (example_hdr ''tok-a'') example_world = (w1, Inr 0)"
  shows "s_TaskCtx (w_session w1 0) = 0 \<and> t_ID (w_heap w1 0) = 42 \<and> t_Instance (w_heap w1 0) = ''forgejo-a''
    \<and> w_ext w1 = []"
proof (cases rule: authenticate_cases [OF a])
  case (1 tok)
  then show ?thesis using example_south(3) by simp
next
  case (2 tok r u1 u2 u3)
  have r: "r = 0" using 2(1,3) example_south(1) by (simp add: example_token)
  have h: "w_heap u1 = w_heap example_world" "w_ext u1 = []"
    using w_consume_cases(4,5) [OF 2(5)] by (simp_all add: example_world_def)
  have "s_TaskCtx (w_session w1 0) = r"
    using w_create_cases(3,4) [OF 2(6)] by (simp add: 2(8) w_touch_cases(2) [OF 2(7)] Touch_def Lookup_def)
  moreover have "w_heap w1 0 = MarkRunnerRegistered (SetSessionToken tok (w_heap example_world 0))"
    by (simp add: 2(8) w_touch_cases(3) [OF 2(7)] w_create_cases(2) [OF 2(6)] h r)
  moreover have "w_ext w1 = []"
    by (simp add: 2(8) w_touch_cases(5) [OF 2(7)] w_create_cases(6) [OF 2(6)] h)
  ultimately show ?thesis
    using r by (simp add: taskctx_defs example_world_def example_heap_def example_ctx_def)
qed

theorem authenticate_sound_witness:
  "\<exists>w'. authenticate id 5 (example_hdr ''tok-a'') example_world = (w', Inr 0)
     \<and> seen_at ''tok-a'' (w_sessions w') = Some 5"
proof -
  obtain w' where a: "authenticate id 5 (example_hdr ''tok-a'') example_world = (w', Inr 0)"
    using example_auth by blast
  have ok: "sm_ok (w_sessions (id example_world))" using example_south(4) by simp
  show ?thesis using a authenticate_sound [OF a ok] by (auto simp: example_token)
qed

text \<open>C18: One session per registration token, also under races. If the token is spent or its task removed by
  the time a request gets to consume it, whether the request is a Register or a one-job call and
  although its own lookup still found the token, it is refused, no session is created and nothing is
  changed; and a token that is not indexed, or that has outlived its TTL, is refused at once.\<close>

theorem registration_race_loser:
  assumes "mget (ms_byReg (w_store (interf w))) (sr_Token req) = None"
    and "sessionTokenFromRequest hdr = Some (sr_Token req)" and "Lookup (sr_Token req) (w_sessions w) = None"
  shows "(fst (south_Register interf now rnd req w) = w \<or> fst (south_Register interf now rnd req w) = interf w)
    \<and> (\<exists>e. snd (south_Register interf now rnd req w) = Inl e \<and> CodeOf e = CodeUnauthenticated)
    \<and> (fst (authenticate interf now hdr w) = w \<or> fst (authenticate interf now hdr w) = interf w)
    \<and> (\<exists>e. snd (authenticate interf now hdr w) = Inl e \<and> CodeOf e = CodeUnauthenticated)
    \<and> (GetByRegToken (sr_Token req) (w_store w) = None
        \<or> (\<exists>r. GetByRegToken (sr_Token req) (w_store w) = Some r \<and> isRegTokenExpired now (w_heap w r)) \<longrightarrow>
       fst (south_Register other now rnd req w) = w \<and> fst (authenticate other now hdr w) = w)"
proof -
  have c: "w_consume (sr_Token req) (interf w) = (interf w, False)"
    using assms(1) by (simp add: w_consume_def MarkRegTokenConsumed_def Let_def)
  show ?thesis
  proof (cases "GetByRegToken (sr_Token req) (w_store w)")
    case None
    then show ?thesis
      by (simp add: south_Register_def authenticate_def assms(2,3) unauthenticated_def Let_def)
  next
    case (Some r)
    then show ?thesis
      by (cases "isRegTokenExpired now (w_heap w r)")
        (simp_all add: south_Register_def authenticate_def assms(2,3) unauthenticated_def c Let_def)
  qed
qed

theorem registration_race_loser_witness:
  "\<exists>e. snd (south_Register (\<lambda>w. w\<lparr>w_store := fst (MarkRegTokenConsumed ''tok-a'' (w_store w))\<rparr>) 5 None
      \<lparr>sr_Token = ''tok-a'', sr_Name = [], sr_Labels = []\<rparr> example_world) = Inl e"
proof -
  let ?i = "\<lambda>w :: UpdateTaskRequest list world. w\<lparr>w_store := fst (MarkRegTokenConsumed ''tok-a'' (w_store w))\<rparr>"
  let ?req = "\<lparr>sr_Token = ''tok-a'', sr_Name = [], sr_Labels = []\<rparr>"
  have a: "mget (ms_byReg (w_store (?i example_world))) (sr_Token ?req) = None"
    by (simp add: MarkRegTokenConsumed_def split: option.split)
  have b: "sessionTokenFromRequest (example_hdr ''tok-a'') = Some (sr_Token ?req)"
    by (simp add: example_token)
  have c: "Lookup (sr_Token ?req) (w_sessions example_world) = None" by (rule example_south(3))
  show ?thesis using registration_race_loser [where interf = ?i and w = example_world, OF a b c] by blast
qed

text \<open>C17: A successful Register binds a brand-new session to the task of the token: the token was live
  and unexpired and is spent afterwards, the session token is 32 hexadecimal characters and leads to
  a session of exactly that task, the task is Running with its registration signal fired and knows
  the session token, and the runner id returned is the task id that UpdateTask will be checked
  against.\<close>

theorem register_success:
  assumes "south_Register interf now rnd req w = (w', Inr runner)"
  shows "\<exists>r s. GetByRegToken (sr_Token req) (w_store w) = Some r \<and> \<not> isRegTokenExpired now (w_heap w r)
    \<and> GetByRegToken (sr_Token req) (w_store w') = None
    \<and> length (vr_Token runner) = 32 \<and> Lookup (vr_Token runner) (w_sessions w') = Some s
    \<and> s_TaskCtx (w_session w' s) = r \<and> seen_at (vr_Token runner) (w_sessions w') = Some now
    \<and> Status (w_heap w' r) = StatusRunning \<and> registered_fired (w_heap w' r)
    \<and> SessionToken (w_heap w' r) = vr_Token runner
    \<and> vr_Id runner = t_ID (w_heap w' r) \<and> vr_Uuid runner = vr_Token runner"
proof -
  obtain r where g: "GetByRegToken (sr_Token req) (w_store w) = Some r"
    using assms by (cases "GetByRegToken (sr_Token req) (w_store w)") (auto simp: south_Register_def Let_def)
  have ne: "\<not> isRegTokenExpired now (w_heap w r)"
    using assms g by (auto simp: south_Register_def Let_def split: if_splits)
  obtain w1 ok where c: "w_consume (sr_Token req) (interf w) = (w1, ok)" by fastforce
  have ok: "ok" using assms g ne c by (cases ok) (auto simp: south_Register_def Let_def)
  obtain raw where raw: "GenerateBytes rnd 16 = Inr raw"
    using assms g ne c ok by (cases "GenerateBytes rnd 16") (auto simp: south_Register_def Create_def Let_def)
  obtain m h s where k: "CreateWithToken now r (hex_encode raw) (sr_Name req) (sr_Labels req)
      (w_sessions w1, w_heap w1) = ((m, h), s)" using prod_cases3 by (metis prod.collapse)
  note e = CreateWithToken_simps [of now r "hex_encode raw" "sr_Name req" "sr_Labels req"
      "w_sessions w1" "w_heap w1", unfolded k]
  have w': "w' = w_modify r MarkRunnerRegistered (w1\<lparr>w_sessions := m, w_heap := h\<rparr>)" "runner = register_answer w' req r s"
    using assms g ne c ok raw k by (auto simp: south_Register_def Create_def Let_def)
  have len: "length (hex_encode raw) = 32" using GenerateBytes_length [OF raw] by simp
  have sp: "GetByRegToken (sr_Token req) (w_store w1) = None"
    using w_consume_spent c ok by auto
  have "s_TaskCtx (w_session w' s) = r" "s_SessionToken (w_session w' s) = hex_encode raw"
    "Lookup (hex_encode raw) (w_sessions w') = Some s" "seen_at (hex_encode raw) (w_sessions w') = Some now"
    "w_heap w' r = MarkRunnerRegistered (SetSessionToken (hex_encode raw) (w_heap w1 r))"
    using e by (simp_all add: w' Lookup_def seen_at_def)
  then show ?thesis
    using g ne sp len w' by (simp add: register_answer_def taskctx_defs)
qed

theorem register_success_witness:
  "\<exists>w' runner. south_Register id 5 (Some (\<lambda>i. char_of i)) \<lparr>sr_Token = ''tok-a'', sr_Name = ''r'', sr_Labels = []\<rparr>
      example_world = (w', Inr runner) \<and> length (vr_Token runner) = 32"
proof -
  let ?req = "\<lparr>sr_Token = ''tok-a'', sr_Name = ''r'', sr_Labels = []\<rparr>"
  obtain w1 ok where c: "w_consume ''tok-a'' example_world = (w1, ok)" by fastforce
  have ok: "ok" using w_consume_cases(1) [OF c] example_south(5) by simp
  obtain x where x: "south_Register id 5 (Some (\<lambda>i. char_of i)) ?req example_world = x" by blast
  have "\<exists>runner. snd x = Inr runner"
    using c ok x by (auto simp: south_Register_def example_south Create_def GenerateBytes_def Let_def split_beta)
  then obtain w' runner where r: "south_Register id 5 (Some (\<lambda>i. char_of i)) ?req example_world = (w', Inr runner)"
    using x by (metis prod.collapse)
  show ?thesis using r register_success [OF r] by blast
qed

lemma terminal_cleanup_fields:
  assumes "r = s_TaskCtx (w_session w s)"
  shows "w_heap (terminal_cleanup s w) = (w_heap w)(r := MarkDone (SetStatus StatusTerminal (w_heap w r)))"
    "w_store (terminal_cleanup s w) = Remove (t_ID (w_heap w r)) (w_store w)"
    "w_sessions (terminal_cleanup s w) = Remove_session (s_SessionToken (w_session w s)) (w_sessions w)"
    "w_ext (terminal_cleanup s w) = w_ext w" "w_pool (terminal_cleanup s w) = w_pool w"
  by (simp_all add: terminal_cleanup_def Let_def assms [symmetric] fun_eq_iff)
    (simp add: taskctx_defs)

lemma south_UpdateTask_forward:
  assumes "authenticate interf now hdr w = (w1, Inr s)" and "GetState_Id req = t_ID (w_task_of w1 s)"
    and "Resolve R (t_Instance (w_task_of w1 s)) = Some (inst, forwarder)"
    and "ForwardUpdateTask forwarder req w1 = (w2, res)"
  shows "south_UpdateTask R interf now hdr req w =
    (case res of Inl err \<Rightarrow> (w2, Inl err)
     | Inr resp \<Rightarrow> (if GetState_Result req \<noteq> RESULT_UNSPECIFIED then terminal_cleanup s w2 else w2, Inr resp))"
  using assms by (simp add: south_UpdateTask_def update_forward_def split: sum.split)

text \<open>C19: A terminal report ends the task exactly when Forgejo accepted it. After an accepted terminal
  update the task is Terminal with its done signal fired (which lets the handler release the slot),
  its session and store entry are gone, all other sessions and tasks are untouched, and a replay of
  the token is refused; after a rejected or lost one, and after any non-terminal one, nothing of this
  is done, so the runner can report again.\<close>

theorem terminal_update_cleans_up:
  assumes "authenticate interf now hdr w = (w1, Inr s)" and "GetState_Id req = t_ID (w_task_of w1 s)"
    and "Resolve R (t_Instance (w_task_of w1 s)) = Some (inst, forwarder)"
    and "ForwardUpdateTask forwarder req w1 = (w2, res)"
    and "south_UpdateTask R interf now hdr req w = (w', out)"
    and "r = s_TaskCtx (w_session w2 s)" and "tok = s_SessionToken (w_session w2 s)"
  shows "out = res
    \<and> (if (\<exists>resp. res = Inr resp) \<and> GetState_Result req \<noteq> RESULT_UNSPECIFIED
       then Status (w_heap w' r) = StatusTerminal \<and> done_fired (w_heap w' r)
         \<and> mget (ms_tasks (w_store w')) (t_ID (w_heap w' r)) = None
         \<and> Lookup tok (w_sessions w') = None
         \<and> (t \<noteq> tok \<longrightarrow> Lookup t (w_sessions w') = Lookup t (w_sessions w2))
         \<and> (i \<noteq> t_ID (w_heap w' r) \<longrightarrow> mget (ms_tasks (w_store w')) i = mget (ms_tasks (w_store w2)) i)
         \<and> (\<forall>q. q \<noteq> r \<longrightarrow> w_heap w' q = w_heap w2 q)
         \<and> (GetByRegToken tok (w_store w') = None \<and> sessionTokenFromRequest hdr2 = Some tok \<longrightarrow>
              (\<exists>e. authenticate interf2 now2 hdr2 w' = (w', Inl e) \<and> CodeOf e = CodeUnauthenticated))
       else w' = w2)"
proof -
  note f = south_UpdateTask_forward [OF assms(1-4)]
  show ?thesis
  proof (cases "(\<exists>resp. res = Inr resp) \<and> GetState_Result req \<noteq> RESULT_UNSPECIFIED")
    case True
    then obtain resp where res: "res = Inr resp" by blast
    have w': "w' = terminal_cleanup s w2" "out = res"
      using assms(5) f True res by auto
    note t = terminal_cleanup_fields [OF assms(6)]
    have "authenticate interf2 now2 hdr2 w' = (w', Inl (unauthenticated ''invalid session token''))"
      if "GetByRegToken tok (w_store w') = None" "sessionTokenFromRequest hdr2 = Some tok"
    proof -
      have "Lookup tok (w_sessions w') = None" by (simp add: w'(1) t(3) assms(7))
      with that show ?thesis by (simp add: authenticate_def)
    qed
    then have "GetByRegToken tok (w_store w') = None \<and> sessionTokenFromRequest hdr2 = Some tok \<longrightarrow>
        (\<exists>e. authenticate interf2 now2 hdr2 w' = (w', Inl e) \<and> CodeOf e = CodeUnauthenticated)"
      by (auto simp: unauthenticated_def)
    moreover have "t_ID (w_heap w' r) = t_ID (w_heap w2 r)"
      by (simp add: w'(1) t(1) taskctx_defs)
    moreover have "mget (ms_tasks (w_store w')) j =
        (if j = t_ID (w_heap w2 r) then None else mget (ms_tasks (w_store w2)) j)" for j
      by (simp add: w'(1) t(2) Remove_def removeLocked_def)
    moreover have "Status (w_heap w' r) = StatusTerminal \<and> done_fired (w_heap w' r)"
      by (simp add: w'(1) t(1) taskctx_defs)
    ultimately show ?thesis
      using True w'(2) by (simp add: w'(1) t(1,3) assms(7))
  next
    case False
    then have "w' = w2 \<and> out = res"
      using assms(5) f by (cases res) (auto split: if_splits)
    with False show ?thesis by auto
  qed
qed

theorem terminal_update_cleans_up_witness:
  "\<exists>w' resp. south_UpdateTask log_resolver id 5 (example_hdr ''tok-a'') (FailureUpdateRequest 42) example_world
      = (w', Inr resp) \<and> mget (ms_tasks (w_store w')) 42 = None"
proof -
  obtain w1 where a: "authenticate id 5 (example_hdr ''tok-a'') example_world = (w1, Inr 0)"
    using example_auth by blast
  from example_auth_task [OF a]
  have t: "s_TaskCtx (w_session w1 0) = 0" "GetState_Id (FailureUpdateRequest 42) = t_ID (w_task_of w1 0)"
    "Resolve log_resolver (t_Instance (w_task_of w1 0)) = Some (example_instance, log_client)"
    by (simp_all add: FailureUpdateRequest_def GetState_Id_def)
  have f: "ForwardUpdateTask log_client (FailureUpdateRequest 42) w1 =
      (w1\<lparr>w_ext := w_ext w1 @ [FailureUpdateRequest 42]\<rparr>, Inr (UpdateTaskResponse []))" by simp
  obtain w' out where u: "south_UpdateTask log_resolver id 5 (example_hdr ''tok-a'') (FailureUpdateRequest 42) example_world
      = (w', out)" by fastforce
  let ?w2 = "w1\<lparr>w_ext := w_ext w1 @ [FailureUpdateRequest 42]\<rparr>"
  have g: "GetState_Result (FailureUpdateRequest 42) \<noteq> RESULT_UNSPECIFIED"
    by (simp add: FailureUpdateRequest_def GetState_Result_def)
  have s: "0 = s_TaskCtx (w_session ?w2 0)" using t(1) by simp
  from terminal_update_cleans_up [OF a t(2,3) f u s refl] g
  have o: "out = Inr (UpdateTaskResponse [])" "mget (ms_tasks (w_store w')) (t_ID (w_heap w' 0)) = None" by auto
  have "w' = terminal_cleanup 0 ?w2"
    using south_UpdateTask_forward [OF a t(2,3) f] u g by simp
  then have "t_ID (w_heap w' 0) = t_ID (w_heap w1 0)"
    using terminal_cleanup_fields(1) [OF s] by (simp add: taskctx_defs)
  then have "t_ID (w_heap w' 0) = 42" using t(1,2) by (simp add: FailureUpdateRequest_def GetState_Id_def)
  then show ?thesis using u o by auto
qed

text \<open>C20: Reports are relayed unchanged, to the owner only: whatever the request, an UpdateTask or
  UpdateLog that is not refused is the very message handed to the client of the instance that owns
  the session's task, once; a report for another task id than the session's, or for a task of an
  unknown instance, is refused before anything is sent, and the response is relayed unchanged.\<close>

theorem reports_reach_owner:
  assumes "authenticate interf now hdr w = (w1, Inr s)"
  shows "(case Resolve R (t_Instance (w_task_of w1 s)) of
        None \<Rightarrow> w_ext (fst (south_UpdateTask R interf now hdr req w)) = w_ext w1
          \<and> fst (south_UpdateLog R interf now hdr lreq w) = w1
          \<and> isl (snd (south_UpdateTask R interf now hdr req w))
      | Some (inst, client) \<Rightarrow>
          (if GetState_Id req = t_ID (w_task_of w1 s)
           then w_ext (fst (south_UpdateTask R interf now hdr req w)) = w_ext (fst (ForwardUpdateTask client req w1))
             \<and> snd (south_UpdateTask R interf now hdr req w) = snd (ForwardUpdateTask client req w1)
           else fst (south_UpdateTask R interf now hdr req w) = w1
             \<and> snd (south_UpdateTask R interf now hdr req w) = Inl (ConnectError CodeInvalidArgument ''task_id mismatch''))
          \<and> (if ulr_TaskId lreq = t_ID (w_task_of w1 s)
             then south_UpdateLog R interf now hdr lreq w = ForwardUpdateLog client lreq w1
             else fst (south_UpdateLog R interf now hdr lreq w) = w1
               \<and> isl (snd (south_UpdateLog R interf now hdr lreq w))))"
proof (cases "Resolve R (t_Instance (w_task_of w1 s))")
  case None
  then show ?thesis using assms by (simp add: south_UpdateTask_def south_UpdateLog_def update_forward_def log_forward_def)
next
  case (Some p)
  obtain inst client where p: "p = (inst, client)" by fastforce
  obtain w2 res where f: "ForwardUpdateTask client req w1 = (w2, res)" by fastforce
  have "w_ext (fst (south_UpdateTask R interf now hdr req w)) = w_ext (fst (ForwardUpdateTask client req w1))
      \<and> snd (south_UpdateTask R interf now hdr req w) = snd (ForwardUpdateTask client req w1)"
    if "GetState_Id req = t_ID (w_task_of w1 s)"
    using south_UpdateTask_forward [OF assms that Some [unfolded p] f]
    by (cases res) (simp_all add: f terminal_cleanup_fields)
  then show ?thesis
    using assms Some p by (simp add: south_UpdateTask_def south_UpdateLog_def update_forward_def log_forward_def)
qed

theorem reports_reach_owner_witness:
  "w_ext (fst (south_UpdateTask log_resolver id 5 (example_hdr ''tok-a'') (FailureUpdateRequest 42) example_world))
     = [FailureUpdateRequest 42]"
proof -
  obtain w1 where a: "authenticate id 5 (example_hdr ''tok-a'') example_world = (w1, Inr 0)"
    using example_auth by blast
  have "GetState_Id (FailureUpdateRequest 42) = 42" by (simp add: FailureUpdateRequest_def GetState_Id_def)
  then show ?thesis
    using reports_reach_owner [OF a, of log_resolver "FailureUpdateRequest 42"] example_auth_task [OF a] by simp
qed

text \<open>Fetching is read-only for the task. FetchTask hands out the stored task, with at most its
  payload adapted to the owning instance's URL; the task contexts and the store stay as they were
  after authentication, and every runtime token of the task now routes to the owning instance.\<close>

theorem fetch_keeps_task:
  assumes "authenticate interf now hdr w = (w1, Inr s)"
    and "south_FetchTask parse encode R interf now hdr w = (w', Inr task)"
  shows "w_heap w' = w_heap w1 \<and> w_store w' = w_store w1 \<and> w_sessions w' = w_sessions w1
    \<and> (\<exists>payload. task = (t_Task (w_task_of w1 s))\<lparr>vt_WorkflowPayload := payload\<rparr>)
    \<and> (Resolve R (t_Instance (w_task_of w1 s)) = None \<longrightarrow> task = t_Task (w_task_of w1 s))
    \<and> (\<forall>tok\<in>set (runtimeTaskTokens (t_Task (w_task_of w1 s))).
         \<exists>e. mget (w_registry w') tok = Some e \<and> te_instance e = t_Instance (w_task_of w1 s)
           \<and> te_sessionToken e = s_SessionToken (w_session w1 s) \<and> te_expireAt e = now + proxyEntryTTL)"
proof -
  have w': "w' = w1\<lparr>w_registry := putTaskTokens (w_heap w1) (s_TaskCtx (w_session w1 s))
      (s_SessionToken (w_session w1 s)) now (w_registry w1)\<rparr>"
    using assms by (simp add: south_FetchTask_def fetch_body_def Let_def)
  have "task = (case Resolve R (t_Instance (w_task_of w1 s)) of
      None \<Rightarrow> t_Task (w_task_of w1 s)
    | Some (inst, _) \<Rightarrow> rewriteWorkflowPayload parse encode (t_Task (w_task_of w1 s)) (i_ForgejoURL inst)
        (repositoryFromContext (t_Task (w_task_of w1 s))))"
    using assms by (cases "Resolve R (t_Instance (w_task_of w1 s))") (auto simp: south_FetchTask_def fetch_body_def Let_def)
  moreover have "\<exists>payload. rewriteWorkflowPayload parse encode t u rp = t\<lparr>vt_WorkflowPayload := payload\<rparr>" for t u rp
    by (rule rewrite_payload_only)
  moreover have "\<exists>payload. t = t\<lparr>vt_WorkflowPayload := payload\<rparr>" for t :: v1_Task
    by (intro exI [of _ "vt_WorkflowPayload t"]) simp
  ultimately have "\<exists>payload. task = (t_Task (w_task_of w1 s))\<lparr>vt_WorkflowPayload := payload\<rparr>"
    "Resolve R (t_Instance (w_task_of w1 s)) = None \<longrightarrow> task = t_Task (w_task_of w1 s)"
    by (auto split: option.splits)
  then show ?thesis by (simp add: w' putTaskTokens_get)
qed

theorem fetch_keeps_task_witness:
  "\<exists>w1 w' task. authenticate id 5 (example_hdr ''tok-a'') example_world = (w1, Inr 0)
     \<and> south_FetchTask (\<lambda>_. Inl []) (\<lambda>_. Inl []) log_resolver id 5 (example_hdr ''tok-a'') example_world = (w', Inr task)
     \<and> w_store w' = w_store w1"
proof -
  obtain w1 where a: "authenticate id 5 (example_hdr ''tok-a'') example_world = (w1, Inr 0)"
    using example_auth by blast
  then obtain w' task where f: "south_FetchTask (\<lambda>_. Inl []) (\<lambda>_. Inl []) log_resolver id 5 (example_hdr ''tok-a'') example_world
      = (w', Inr task)" by (simp add: south_FetchTask_def fetch_body_def Let_def)
  show ?thesis using a f fetch_keeps_task [OF a f] by blast
qed

text \<open>A runner that registers at the moment its startup timeout fires. \<open>Register\<close> claims the token,
  the handler of the task then reports the failure and removes task and session, and \<open>Register\<close> goes
  on: it hands out a session for a task that is gone and was reported as failed. The session lives
  until the runner reports or the GC loop notices its silence.\<close>

theorem registration_outlives_timeout:
  assumes "w_consume tok w = (w1, True)" and "handle_wait1 client ReadyTimeout r w1 = (v, closing ops)"
    and "w2 = run_exit ops r v"
    and "CreateWithToken now r tok' name labels (w_sessions w2, w_heap w2) = ((m, h), s)"
    and "w3 = w_modify r MarkRunnerRegistered (w2\<lparr>w_sessions := m, w_heap := h\<rparr>)"
  shows "w2 = (let u = report_failure client r w1
          in drop_task r (w_release (w_remove_session (SessionToken (w_heap u r)) u)))
    \<and> Lookup tok' (w_sessions w3) = Some s \<and> s_TaskCtx (w_session w3 s) = r
    \<and> registered_fired (w_heap w3 r) \<and> mget (ms_tasks (w_store w3)) (t_ID (w_heap w3 r)) = None"
proof -
  note e = CreateWithToken_simps [of now r tok' name labels "w_sessions w2" "w_heap w2", unfolded assms(4), simplified]
  let ?u = "report_failure client r w1"
  let ?v = "w_release (w_remove_session (SessionToken (w_heap ?u r)) ?u)"
  have w2: "w2 = drop_task r ?v"
    using assms(2,3) by (auto simp: handle_wait1_def closing_def)
  have "w_store w2 = Remove (t_ID (w_heap ?v r)) (w_store ?v)" "w_heap w2 = w_heap ?v"
    by (simp_all add: w2 drop_task_def)
  then have "mget (ms_tasks (w_store w3)) (t_ID (w_heap w3 r)) = None"
    by (simp add: assms(5) e taskctx_defs Remove_def removeLocked_def)
  moreover have "registered_fired (w_heap w3 r)" by (simp add: assms(5) taskctx_defs)
  ultimately show ?thesis using w2 by (simp add: assms(5) e Lookup_def Let_def)
qed

end
