(* ===== verification/South_Proxy.thy ===== *)
theory South_Proxy
  imports South_Registry North_API Go_Encoding
begin

text \<open>
  The reverse proxy for git, API and artifact requests (\<^verbatim>\<open>internal/south/proxy.go\<close>): which
  paths it serves, how it finds the task token, and to which instance it forwards. The registry is
  in \<open>South_Registry\<close>. \<^verbatim>\<open>url.Parse\<close> is an argument. Of \<^verbatim>\<open>httputil.ReverseProxy\<close> the
  model has what it makes of the request line and of the headers that matter here (Host,
  Authorization and the forwarding headers); hop-by-hop headers and bodies are not modelled.
\<close>

section \<open>Paths\<close>

definition gitEndpoints :: "string list" where
  "gitEndpoints = [''/info/refs'', ''/git-upload-pack'', ''/git-receive-pack'', ''/git-upload-archive'', ''/HEAD'']"

definition matchGitEndpoint :: "string \<Rightarrow> bool" where
  "matchGitEndpoint rest \<longleftrightarrow> rest \<in> set gitEndpoints \<or> has_prefix rest ''/objects/''"

definition repo_char :: "char \<Rightarrow> bool" where
  "repo_char c \<longleftrightarrow> (CHR ''a'' \<le> c \<and> c \<le> CHR ''z'') \<or> (CHR ''A'' \<le> c \<and> c \<le> CHR ''Z'')
     \<or> (CHR ''0'' \<le> c \<and> c \<le> CHR ''9'') \<or> c = CHR ''-'' \<or> c = CHR ''_'' \<or> c = CHR ''.''"

definition validRepoName :: "string \<Rightarrow> bool" where
  "validRepoName s \<longleftrightarrow> \<not> (s = [] \<or> s = ''.'' \<or> s = ''..'') \<and> list_all repo_char s"

definition matchGitPath :: "string \<Rightarrow> (string \<times> string) option" where
  "matchGitPath p =
     (let rest = trim_prefix p ''/''; (owner, rest1, ok) = cut (CHR ''/'') rest in
      if \<not> ok \<or> \<not> validRepoName owner then None
      else (let (repo0, tail, ok1) = cut (CHR ''/'') rest1 in
        if \<not> ok1 then None
        else (let repo = trim_suffix repo0 ''.git'' in
          if \<not> validRepoName repo then None
          else if \<not> matchGitEndpoint (''/'' @ tail) then None
          else Some (owner, repo))))"

definition isProxiedPath :: "string \<Rightarrow> bool" where
  "isProxiedPath path =
     (if matchGitPath path \<noteq> None then True
      else has_prefix path ''/api/v1/repos/'' \<or> has_prefix path ''/api/actions_pipeline/'')"

section \<open>Tokens\<close>

definition proxyToken :: "string \<Rightarrow> string option" where
  "proxyToken auth0 =
     (let auth = trim_space auth0;
          (scheme, rest0, _) = cut (CHR '' '') auth;
          rest = trim_space rest0;
          kind = to_lower scheme
      in if kind = ''basic'' then
           (case b64_decode rest of
              None \<Rightarrow> None
            | Some raw \<Rightarrow>
                (let (user, pass, ok) = cut (CHR '':'') raw in
                 if \<not> ok \<or> user = [] then None
                 else if pass \<noteq> [] \<and> pass \<noteq> ''x-oauth-basic'' then Some pass
                 else Some user))
         else if kind = ''bearer'' then (if rest \<noteq> [] then Some rest else None)
         else if kind = ''token'' then (if rest \<noteq> [] then Some rest else None)
         else None)"

section \<open>Serving\<close>

record url =
  u_Scheme :: string
  u_Host :: string
  u_Path :: string
  u_RawQuery :: string

record proxy_request =
  px_method :: string
  px_path :: string
  px_query :: string
  px_authorization :: string
  px_host :: string
  px_xff :: "string list"
  px_client :: "string option"
  px_tls :: bool

datatype proxy_outcome =
    NotFound
  | ProxyError nat string
  | Forwarded url bool proxy_request

text \<open>
  The request that leaves for the target: what \<^verbatim>\<open>httputil.ReverseProxy\<close> makes of a request with
  this \<^verbatim>\<open>Rewrite\<close>. It drops the forwarding headers of the client and re-encodes a query it
  cannot parse (\<open>reencode\<close>); \<^verbatim>\<open>SetURL\<close> replaces scheme and host and joins the paths and
  the queries; \<^verbatim>\<open>SetXForwarded\<close> names the client's address, if it has one, and the request's own
  host and protocol.
\<close>

record proxied =
  pd_method :: string
  pd_scheme :: string
  pd_host :: string
  pd_path :: string
  pd_query :: string
  pd_authorization :: string
  pd_xff :: "string option"
  pd_xf_host :: string
  pd_xf_proto :: string

definition singleJoiningSlash :: "string \<Rightarrow> string \<Rightarrow> string" where
  "singleJoiningSlash a b =
     (if has_suffix a ''/'' \<and> has_prefix b ''/'' then a @ tl b
      else if \<not> has_suffix a ''/'' \<and> \<not> has_prefix b ''/'' then a @ ''/'' @ b
      else a @ b)"

definition hex_digit :: "char \<Rightarrow> bool" where
  "hex_digit c \<longleftrightarrow> (CHR ''0'' \<le> c \<and> c \<le> CHR ''9'') \<or> (CHR ''a'' \<le> c \<and> c \<le> CHR ''f'')
     \<or> (CHR ''A'' \<le> c \<and> c \<le> CHR ''F'')"

fun bad_query :: "string \<Rightarrow> bool" where
  "bad_query [] = False"
| "bad_query (c # s) =
     (if c = CHR '';'' then True
      else if c = CHR ''%'' then
        (case s of a # b # rest \<Rightarrow> \<not> hex_digit a \<or> \<not> hex_digit b \<or> bad_query rest | _ \<Rightarrow> True)
      else bad_query s)"

definition proxy_outbound :: "(string \<Rightarrow> string) \<Rightarrow> url \<Rightarrow> proxy_request \<Rightarrow> proxied" where
  "proxy_outbound reencode target req =
     (let q = (if bad_query (px_query req) then reencode (px_query req) else px_query req) in
      \<lparr>pd_method = px_method req, pd_scheme = u_Scheme target, pd_host = u_Host target,
       pd_path = singleJoiningSlash (u_Path target) (px_path req),
       pd_query = (if u_RawQuery target = [] \<or> q = [] then u_RawQuery target @ q
         else u_RawQuery target @ ''&'' @ q),
       pd_authorization = px_authorization req,
       pd_xff = px_client req, pd_xf_host = px_host req,
       pd_xf_proto = (if px_tls req then ''https'' else ''http'')\<rparr>)"

text \<open>
  The answer. \<open>upstream\<close> is the round trip over a transport. The messages of \<open>writeProxyError\<close> are
  literals without quotes, backslashes or control characters, which \<^verbatim>\<open>strconv.Quote\<close> only puts
  between quotes.
\<close>

datatype 'r proxy_answer = PageNotFound | JSONError nat string | Relayed 'r

definition writeProxyError :: "nat \<Rightarrow> string \<Rightarrow> 'r proxy_answer" where
  "writeProxyError status msg =
     JSONError status (''{\"error\":\"'' @ msg @ ''\"}'' @ [CHR 0x0A])"

definition proxy_answer :: "(bool \<Rightarrow> proxied \<Rightarrow> string + 'r) \<Rightarrow> (string \<Rightarrow> string) \<Rightarrow> proxy_outcome \<Rightarrow> 'r proxy_answer" where
  "proxy_answer upstream reencode out =
     (case out of
        NotFound \<Rightarrow> PageNotFound
      | ProxyError status msg \<Rightarrow> writeProxyError status msg
      | Forwarded target tls req \<Rightarrow>
          (case upstream tls (proxy_outbound reencode target req) of
             Inl err \<Rightarrow> writeProxyError 502 ''bad gateway''
           | Inr resp \<Rightarrow> Relayed resp))"

text \<open>The transports by instance name; all that matters of one is whether it skips TLS checks.\<close>

type_synonym transports = "(string, bool) gomap"

definition proxy_transport :: "Instance \<Rightarrow> transports \<Rightarrow> transports \<times> bool" where
  "proxy_transport inst ts =
     (case mget ts (i_Name inst) of
        Some t \<Rightarrow> (ts, t)
      | None \<Rightarrow> (let t = i_TLSInsecureSkipVerify inst in (mput (i_Name inst) t ts, t)))"

definition ServeHTTP :: "(string \<Rightarrow> url option) \<Rightarrow> 'n Resolver \<Rightarrow> theap \<Rightarrow> Manager \<Rightarrow> time \<Rightarrow>
    proxy_request \<Rightarrow> tokenRegistry \<times> transports \<Rightarrow> (tokenRegistry \<times> transports) \<times> proxy_outcome" where
  "ServeHTTP parse R h sessions now req st =
     (let (reg, ts) = st in
      if \<not> isProxiedPath (px_path req) then ((reg, ts), NotFound)
      else (case proxyToken (px_authorization req) of
          None \<Rightarrow> ((reg, ts), ProxyError 401 ''missing task token'')
        | Some tok \<Rightarrow>
            (let (reg1, found) = registry_lookup h sessions tok now reg;
                 owner = (case found of Some i \<Rightarrow> Some i | None \<Rightarrow> OnlyInstance R)
             in (case owner of
                   None \<Rightarrow> ((reg1, ts), ProxyError 401 ''unknown task token'')
                 | Some name \<Rightarrow>
                     (case Resolve R name of
                        None \<Rightarrow> ((reg1, ts), ProxyError 502 ''unknown instance'')
                      | Some (inst, _) \<Rightarrow>
                          (case parse (i_ForgejoURL inst) of
                             None \<Rightarrow> ((reg1, ts), ProxyError 502 ''invalid instance URL'')
                           | Some target \<Rightarrow>
                               if (u_Scheme target \<noteq> ''http'' \<and> u_Scheme target \<noteq> ''https'') \<or> u_Host target = []
                               then ((reg1, ts), ProxyError 502 ''invalid instance URL'')
                               else (let (ts1, tls) = proxy_transport inst ts
                                     in ((reg1, ts1), Forwarded target tls req))))))))"

text \<open>
  A new handler shares the registry and has no transports yet. The transports it can have after any
  number of requests, whatever happened to the registry, the tasks and the sessions in between.
\<close>

definition newProxyHandler :: "tokenRegistry \<Rightarrow> tokenRegistry \<times> transports" where
  "newProxyHandler reg = (reg, [])"

inductive proxy_reach :: "(string \<Rightarrow> url option) \<Rightarrow> 'n Resolver \<Rightarrow> transports \<Rightarrow> bool" for parse R where
  new_handler: "newProxyHandler reg = (reg', ts) \<Longrightarrow> proxy_reach parse R ts"
| served: "proxy_reach parse R ts \<Longrightarrow>
    ServeHTTP parse R h sessions now req (reg, ts) = ((reg', ts'), out) \<Longrightarrow> proxy_reach parse R ts'"

text \<open>
  The patterns of \<open>NewServer\<close>: subtrees, the longest of which wins; a request for the root of a
  subtree without its slash is redirected. \<open>svc\<close> is the subtree of the generated service handler.
\<close>

datatype south_route = RunnerService string | Redirect string | ToProxy

definition south_subtrees :: "string \<Rightarrow> string list" where
  "south_subtrees svc = [svc, ''/api/actions/'', ''/api/v1/repos/'', ''/api/actions_pipeline/'']"

definition NewServer :: "string \<Rightarrow> string \<Rightarrow> south_route" where
  "NewServer svc path =
     (if has_prefix path svc then RunnerService path
      else if has_prefix path ''/api/actions/'' then RunnerService (trim_prefix path ''/api/actions'')
      else if path @ ''/'' \<in> set (south_subtrees svc) then Redirect (path @ ''/'')
      else ToProxy)"

section \<open>Lemmas\<close>

lemma valid_no_slash: "validRepoName s \<Longrightarrow> CHR ''/'' \<notin> set s"
  by (auto simp: validRepoName_def list_all_iff repo_char_def less_eq_char_def)

lemma valid_cons: "validRepoName s \<Longrightarrow> s \<noteq> []"
  by (simp add: validRepoName_def)

lemma trim_suffix_split: "has_suffix s t \<Longrightarrow> s = trim_suffix s t @ t"
proof -
  assume "has_suffix s t"
  then obtain r where "rev s = rev t @ r" by (auto simp: has_suffix_def prefix_def)
  then have "s = rev r @ t" by (metis rev_append rev_rev_ident)
  then show ?thesis by (simp add: trim_suffix_append)
qed

lemma trim_slash [simp]: "trim_prefix (CHR ''/'' # s) ''/'' = s"
  by (simp add: trim_prefix_def has_prefix_def)

text \<open>The scan of a well-formed path.\<close>

lemma matchGitPath_parts:
  assumes "CHR ''/'' \<notin> set owner" "CHR ''/'' \<notin> set repo0"
  shows "matchGitPath (''/'' @ owner @ ''/'' @ repo0 @ ''/'' @ tail) =
    (if validRepoName owner \<and> validRepoName (trim_suffix repo0 ''.git'') \<and> matchGitEndpoint (''/'' @ tail)
     then Some (owner, trim_suffix repo0 ''.git'') else None)"
  using assms by (simp add: matchGitPath_def Let_def)

lemma matchGitPath_Some:
  assumes "matchGitPath p = Some (owner, repo)"
  obtains repo0 tail where "trim_prefix p ''/'' = owner @ ''/'' @ repo0 @ ''/'' @ tail"
    "repo = trim_suffix repo0 ''.git''" "validRepoName owner" "validRepoName repo" "matchGitEndpoint (''/'' @ tail)"
proof -
  obtain o1 r1 k1 where c1: "cut (CHR ''/'') (trim_prefix p ''/'') = (o1, r1, k1)" using prod_cases3 by blast
  obtain o2 r2 k2 where c2: "cut (CHR ''/'') r1 = (o2, r2, k2)" using prod_cases3 by blast
  have k: "k1" "k2" "o1 = owner" "repo = trim_suffix o2 ''.git''" "validRepoName owner" "validRepoName repo"
    "matchGitEndpoint (''/'' @ r2)"
    using assms c1 c2 by (auto simp: matchGitPath_def Let_def split: if_splits)
  have "trim_prefix p ''/'' = owner @ CHR ''/'' # r1" "r1 = o2 @ CHR ''/'' # r2"
    using c1 c2 k(1-3) cut_True_iff [of "CHR ''/''" "trim_prefix p ''/''" owner r1]
      cut_True_iff [of "CHR ''/''" r1 o2 r2] by simp_all
  then show thesis using k by (intro that [of o2 r2]) simp_all
qed

lemma b64_plain:
  assumes "c \<in> set (b64_encode s)"
  shows "c \<notin> space_heads \<and> c \<noteq> CHR '' ''"
proof -
  have "\<forall>c\<in>set b64_alphabet \<union> {b64_pad}. c \<notin> space_heads \<and> c \<noteq> CHR '' ''"
    by (simp add: b64_alphabet_def space_heads_def space_runes_def)
  then show ?thesis using assms b64_encode_chars by blast
qed

lemma b64_nonempty: "s \<noteq> [] \<Longrightarrow> b64_encode s \<noteq> []"
  by (cases s rule: b64_encode.cases) simp_all

lemma b64_trimmed: "s \<noteq> [] \<Longrightarrow> trimmed (b64_encode s)"
  using b64_nonempty [of s] b64_plain [of _ s] by (intro trimmed_ends) auto

section \<open>Schemes\<close>

lemma lower_byte_space: "lower_byte CHR '' '' = CHR '' ''"
  by (simp add: lower_byte_def less_eq_char_def)

lemma space_lower: "CHR '' '' \<in> set s \<Longrightarrow> CHR '' '' \<in> set (to_lower s)"
proof (induction s rule: to_lower.induct)
  case (2 c s)
  consider (k) t where "c = CHR 0xE2" "s = CHR 0x84 # CHR 0xAA # t"
    | (i) t where "c = CHR 0xC4" "s = CHR 0xB0 # t"
    | (o) "\<not> prefix [CHR 0xE2, CHR 0x84, CHR 0xAA] (c # s)" "\<not> prefix [CHR 0xC4, CHR 0xB0] (c # s)"
    by (auto simp: prefix_def)
  then show ?case
  proof cases
    case k then show ?thesis using 2 by simp
  next
    case i then show ?thesis using 2 by simp
  next
    case o then show ?thesis using 2 lower_byte_space by (auto split: if_splits)
  qed
qed simp

definition letter :: "char \<Rightarrow> bool" where
  "letter c \<longleftrightarrow> CHR ''A'' \<le> c \<and> c \<le> CHR ''z''"

lemma letter_not_space: "letter c \<Longrightarrow> c \<notin> space_heads"
  by (auto simp: letter_def space_heads_def space_runes_def less_eq_char_def)

lemma lower_byte_letter: "lower_byte c = d \<Longrightarrow> letter d \<Longrightarrow> letter c"
  by (auto simp: letter_def lower_byte_def less_eq_char_def split: if_splits)

lemma lower_head_letter:
  assumes "to_lower s = d # t" "letter d" "d \<noteq> CHR ''k''" "d \<noteq> CHR ''i''"
  shows "\<exists>c u. s = c # u \<and> letter c"
proof (cases s)
  case (Cons c u)
  then have "lower_byte c = d" using assms by (auto split: if_splits)
  then show ?thesis using Cons assms(2) lower_byte_letter by blast
qed (use assms in simp)

text \<open>The schemes the proxy knows, in any mixture of upper and lower case.\<close>

lemma scheme_facts:
  assumes "to_lower s \<in> {''basic'', ''bearer'', ''token''}"
  shows "CHR '' '' \<notin> set s" "s \<noteq> []" "hd s \<notin> space_heads"
proof -
  show "CHR '' '' \<notin> set s" using assms space_lower [of s] by auto
  have "\<exists>c u. s = c # u \<and> letter c"
    using assms lower_head_letter [of s "CHR ''b''"] lower_head_letter [of s "CHR ''t''"]
    by (auto simp: letter_def less_eq_char_def)
  then show "s \<noteq> []" "hd s \<notin> space_heads" using letter_not_space by auto
qed

text \<open>A header made of a scheme, a space and a credential that does not end in white space.\<close>

lemma proxyToken_parts:
  assumes "to_lower s \<in> {''basic'', ''bearer'', ''token''}" "r \<noteq> []" "hd r \<notin> space_heads" "last r \<notin> space_heads"
  shows "trim_space (s @ '' '' @ r) = s @ '' '' @ r" "cut (CHR '' '') (s @ '' '' @ r) = (s, r, True)" "trim_space r = r"
proof -
  note f = scheme_facts [OF assms(1)]
  show "trim_space (s @ '' '' @ r) = s @ '' '' @ r"
    using f assms by (intro trim_space_trimmed trimmed_ends) auto
  show "cut (CHR '' '') (s @ '' '' @ r) = (s, r, True)" using f by simp
  show "trim_space r = r" using assms by (intro trim_space_trimmed trimmed_ends) auto
qed

section \<open>Serving\<close>

text \<open>The cached transports agree with the configuration.\<close>

definition transports_ok :: "'n instanceResolver \<Rightarrow> transports \<Rightarrow> bool" where
  "transports_ok r ts \<longleftrightarrow> (\<forall>name inst c t. app_Resolve r name = Some (inst, c) \<longrightarrow>
     i_Name inst = name \<and> (mget ts name = Some t \<longrightarrow> t = i_TLSInsecureSkipVerify inst))"

lemma proxy_transport_ok:
  assumes "transports_ok r ts" "app_Resolve r name = Some (inst, c)"
  shows "snd (proxy_transport inst ts) = i_TLSInsecureSkipVerify inst"
    "transports_ok r (fst (proxy_transport inst ts))"
proof -
  have n: "i_Name inst = name" using assms by (auto simp: transports_ok_def)
  show "snd (proxy_transport inst ts) = i_TLSInsecureSkipVerify inst"
    using assms n by (auto simp: transports_ok_def proxy_transport_def Let_def split: option.split)
  show "transports_ok r (fst (proxy_transport inst ts))"
  proof (cases "mget ts (i_Name inst)")
    case None
    then have "fst (proxy_transport inst ts) = mput name (i_TLSInsecureSkipVerify inst) ts"
      using n by (simp add: proxy_transport_def Let_def)
    then show ?thesis using assms unfolding transports_ok_def by (auto simp: mget_mput)
  qed (use assms in \<open>simp add: proxy_transport_def\<close>)
qed

lemma ServeHTTP_transports:
  assumes "ServeHTTP parse (app_resolver r) h sessions now req (reg, ts) = ((reg', ts'), out)" "transports_ok r ts"
  shows "transports_ok r ts'"
  using assms proxy_transport_ok(2) [OF assms(2)]
  by (auto simp: ServeHTTP_def Let_def app_resolver_def split_beta split: if_splits option.splits)

lemma proxy_reach_ok:
  assumes "\<forall>name inst c. app_Resolve r name = Some (inst, c) \<longrightarrow> i_Name inst = name"
  shows "proxy_reach parse (app_resolver r) ts \<Longrightarrow> transports_ok r ts"
proof (induction rule: proxy_reach.induct)
  case (new_handler reg reg' ts)
  then show ?case using assms by (simp add: newProxyHandler_def transports_ok_def)
next
  case (served ts h sessions now req reg reg' ts' out)
  then show ?case by (blast intro: ServeHTTP_transports)
qed

text \<open>A target without a base path and query of its own gets the request line as it came.\<close>

lemma proxy_outbound_same:
  assumes "u_Path target \<in> {[], ''/''}" "u_RawQuery target = []" "has_prefix (px_path req) ''/''" "\<not> bad_query (px_query req)"
  shows "pd_path (proxy_outbound reencode target req) = px_path req
    \<and> pd_query (proxy_outbound reencode target req) = px_query req"
  using assms by (cases "px_path req") (auto simp: proxy_outbound_def singleJoiningSlash_def has_prefix_def has_suffix_def)

definition http_target :: "url \<Rightarrow> bool" where
  "http_target t \<longleftrightarrow> (u_Scheme t = ''http'' \<or> u_Scheme t = ''https'') \<and> u_Host t \<noteq> []"

lemma app_resolver_simps [simp]:
  "Resolve (app_resolver r) = app_Resolve r" "OnlyInstance (app_resolver r) = app_OnlyInstance r"
  by (simp_all add: app_resolver_def)

lemma ServeHTTP_Some:
  assumes "isProxiedPath (px_path req)" "proxyToken (px_authorization req) = Some tok"
    "registry_lookup h sessions tok now reg = (reg1, found)"
    "(case found of Some i \<Rightarrow> Some i | None \<Rightarrow> OnlyInstance R) = Some name"
    "Resolve R name = Some (inst, c)" "parse (i_ForgejoURL inst) = Some target" "http_target target"
  shows "ServeHTTP parse R h sessions now req (reg, ts) =
    ((reg1, fst (proxy_transport inst ts)), Forwarded target (snd (proxy_transport inst ts)) req)"
  using assms by (simp add: ServeHTTP_def Let_def http_target_def split_beta)

lemma ServeHTTP_Forwarded:
  assumes "ServeHTTP parse R h sessions now req (reg, ts) = ((reg2, ts2), Forwarded target tls fwd)"
  obtains tok reg1 found name inst and c :: "'n Client"
  where "isProxiedPath (px_path req)" "proxyToken (px_authorization req) = Some tok"
    "registry_lookup h sessions tok now reg = (reg1, found)"
    "(case found of Some i \<Rightarrow> Some i | None \<Rightarrow> OnlyInstance R) = Some name"
    "Resolve R name = Some (inst, c)" "parse (i_ForgejoURL inst) = Some target" "http_target target"
    "ts2 = fst (proxy_transport inst ts)" "tls = snd (proxy_transport inst ts)" "fwd = req"
proof -
  obtain reg1 found where l: "registry_lookup h sessions (the (proxyToken (px_authorization req))) now reg = (reg1, found)"
    by (rule prod.exhaust)
  show thesis
    using assms l
    by (auto simp: ServeHTTP_def Let_def http_target_def split_beta split: if_splits option.splits
        intro!: that [of _ reg1 found])
qed

section \<open>Routing\<close>

text \<open>Both mount points of the runner service see the same paths.\<close>

lemma NewServer_mounts:
  assumes "svc = CHR ''/'' # s" "\<not> has_prefix (''/api/actions'' @ svc @ m) svc"
  shows "NewServer svc (svc @ m) = RunnerService (svc @ m)"
    "NewServer svc (''/api/actions'' @ svc @ m) = RunnerService (svc @ m)"
  using assms by (simp_all add: NewServer_def has_prefix_def trim_prefix_def)

section \<open>Properties\<close>

lemma trim_git [simp]: "trim_suffix (r @ ''.git'') ''.git'' = r"
  by (rule trim_suffix_append)

lemma git_repo_cases:
  "trim_suffix s ''.git'' = r \<longleftrightarrow> s = r @ ''.git'' \<or> (\<not> has_suffix s ''.git'' \<and> s = r)"
proof (cases "has_suffix s ''.git''")
  case True
  then show ?thesis using trim_suffix_split [OF True] by auto
next
  case False
  then have "s \<noteq> r @ ''.git''" by (auto simp: has_suffix_def)
  then show ?thesis using False by (simp add: trim_suffix_def)
qed

text \<open>C35: The git paths that the proxy serves are exactly those of the form owner/repo[.git]/endpoint
  with two valid names and one of the git endpoints behind them, with at most one leading slash; the
  clone suffix is stripped once, and the parsed names are free of slashes and path traversal.\<close>

theorem git_path_exact:
  "matchGitPath p = Some (owner, repo) \<longleftrightarrow>
     validRepoName owner \<and> validRepoName repo \<and>
     (\<exists>tail. matchGitEndpoint (''/'' @ tail) \<and>
        (trim_prefix p ''/'' = owner @ ''/'' @ repo @ ''.git/'' @ tail
         \<or> \<not> has_suffix repo ''.git'' \<and> trim_prefix p ''/'' = owner @ ''/'' @ repo @ ''/'' @ tail))"
proof
  assume "matchGitPath p = Some (owner, repo)"
  then obtain repo0 tail where f: "trim_prefix p ''/'' = owner @ ''/'' @ repo0 @ ''/'' @ tail"
    "repo = trim_suffix repo0 ''.git''" "validRepoName owner" "validRepoName repo" "matchGitEndpoint (''/'' @ tail)"
    by (rule matchGitPath_Some)
  have "repo0 = repo @ ''.git'' \<or> (\<not> has_suffix repo0 ''.git'' \<and> repo0 = repo)"
    using f(2) git_repo_cases [of repo0 repo] by simp
  then show "validRepoName owner \<and> validRepoName repo \<and>
     (\<exists>tail. matchGitEndpoint (''/'' @ tail) \<and>
        (trim_prefix p ''/'' = owner @ ''/'' @ repo @ ''.git/'' @ tail
         \<or> \<not> has_suffix repo ''.git'' \<and> trim_prefix p ''/'' = owner @ ''/'' @ repo @ ''/'' @ tail))"
    using f by (intro conjI exI [of _ tail]) auto
next
  assume r: "validRepoName owner \<and> validRepoName repo \<and>
     (\<exists>tail. matchGitEndpoint (''/'' @ tail) \<and>
        (trim_prefix p ''/'' = owner @ ''/'' @ repo @ ''.git/'' @ tail
         \<or> \<not> has_suffix repo ''.git'' \<and> trim_prefix p ''/'' = owner @ ''/'' @ repo @ ''/'' @ tail))"
  then obtain tail repo0 where t: "matchGitEndpoint (''/'' @ tail)"
    "trim_prefix p ''/'' = owner @ ''/'' @ repo0 @ ''/'' @ tail" "repo0 = repo @ ''.git'' \<or> \<not> has_suffix repo ''.git'' \<and> repo0 = repo"
    by (elim conjE exE disjE) (rule that, (simp; fail)+)+
  then have e: "trim_suffix repo0 ''.git'' = repo" using git_repo_cases [of repo0 repo] by auto
  have "CHR ''/'' \<notin> set owner" "CHR ''/'' \<notin> set repo0" using r t(3) valid_no_slash by auto
  then have "matchGitPath (''/'' @ owner @ ''/'' @ repo0 @ ''/'' @ tail) = Some (owner, repo)"
    using matchGitPath_parts r t(1) e by simp
  then show "matchGitPath p = Some (owner, repo)" using t(2) by (simp add: matchGitPath_def)
qed

theorem git_path_exact_witness:
  "matchGitPath ''/alice/site.git/info/refs'' = Some (''alice'', ''site'')"
proof -
  have "validRepoName ''alice''" "validRepoName ''site''" "matchGitEndpoint (''/'' @ ''info/refs'')"
    by (simp_all add: validRepoName_def repo_char_def less_eq_char_def matchGitEndpoint_def gitEndpoints_def)
  then show ?thesis unfolding git_path_exact by (intro conjI exI [of _ "''info/refs''"]) simp_all
qed

text \<open>C36: The proxy reads back the token a client put into its Authorization header, in any casing of
  the scheme: from basic credentials user:password the password, or the user where the password is
  empty or the sentinel x-oauth-basic; from a bearer or token header the token itself. A header
  without a user name yields nothing.\<close>

theorem proxy_token_roundtrip:
  assumes "to_lower basic = ''basic''" "to_lower bearer \<in> {''bearer'', ''token''}"
    "CHR '':'' \<notin> set user" "tok \<noteq> []" "hd tok \<notin> space_heads" "last tok \<notin> space_heads"
  shows "proxyToken (basic @ '' '' @ b64_encode (user @ '':'' @ pass)) =
      (if user = [] then None else if pass = [] \<or> pass = ''x-oauth-basic'' then Some user else Some pass)
    \<and> proxyToken (bearer @ '' '' @ tok) = Some tok"
proof
  let ?r = "b64_encode (user @ '':'' @ pass)"
  have ne: "?r \<noteq> []" by (rule b64_nonempty) simp
  have h: "hd ?r \<notin> space_heads" "last ?r \<notin> space_heads" using ne b64_plain [of _ "user @ '':'' @ pass"] by auto
  show "proxyToken (basic @ '' '' @ ?r) =
      (if user = [] then None else if pass = [] \<or> pass = ''x-oauth-basic'' then Some user else Some pass)"
    using proxyToken_parts [of basic ?r] assms(1,3) ne h unfolding proxyToken_def Let_def by simp
  show "proxyToken (bearer @ '' '' @ tok) = Some tok"
    using proxyToken_parts [of bearer tok] assms(2,4-6) unfolding proxyToken_def Let_def by auto
qed

theorem proxy_token_roundtrip_witness:
  "proxyToken (''Basic '' @ b64_encode ''x-access-token:ghs_1'') = Some ''ghs_1''"
proof -
  have l: "to_lower ''Basic'' = ''basic''" "to_lower ''token'' \<in> {''bearer'', ''token''}" by code_simp+
  show ?thesis
    using proxy_token_roundtrip [OF l, of "''x-access-token''" "''ghs_1''" "''ghs_1''"]
    by (simp add: space_heads_def space_runes_def)
qed

text \<open>C22: The proxy never sends a request anywhere but to a configured Forgejo instance, and never on
  behalf of an unknown token when there is a choice: after any number of requests, what it forwards is
  the request as it came, on a proxied path, with a token, to the parsed http(s) URL of an instance
  that a live registry entry of the token names or that is the only one configured, over a transport
  with that instance's own TLS setting. The request that leaves goes to the target's host with the
  Authorization header unchanged and with forwarding headers that the client cannot forge; its path
  and query are the client's if the target has none of its own and the query is well formed.\<close>

theorem proxy_sound:
  assumes "ServeHTTP parse (app_resolver r) h sessions now req (reg, ts) = ((reg', ts'), Forwarded target tls fwd)"
    and "proxy_reach parse (app_resolver r) ts"
    and "\<forall>name inst c. app_Resolve r name = Some (inst, c) \<longrightarrow> i_Name inst = name"
  shows "fwd = req \<and> isProxiedPath (px_path req) \<and> http_target target
    \<and> (\<exists>tok name inst c. proxyToken (px_authorization req) = Some tok
        \<and> app_Resolve r name = Some (inst, c) \<and> parse (i_ForgejoURL inst) = Some target
        \<and> tls = i_TLSInsecureSkipVerify inst
        \<and> ((\<exists>e. mget reg tok = Some e \<and> entry_live h sessions now e \<and> te_instance e = name)
           \<or> r = [(name, inst, c)]))
    \<and> (let out = proxy_outbound reencode target fwd in
        pd_scheme out = u_Scheme target \<and> pd_host out = u_Host target
        \<and> pd_authorization out = px_authorization req
        \<and> proxy_outbound reencode target (req\<lparr>px_xff := forged\<rparr>) = out
        \<and> (u_Path target \<in> {[], ''/''} \<and> u_RawQuery target = [] \<and> has_prefix (px_path req) ''/''
             \<and> \<not> bad_query (px_query req) \<longrightarrow> pd_path out = px_path req \<and> pd_query out = px_query req))"
proof -
  obtain tok reg1 found name inst and c :: "'a Client"
    where f: "isProxiedPath (px_path req)" "proxyToken (px_authorization req) = Some tok"
    "registry_lookup h sessions tok now reg = (reg1, found)"
    "(case found of Some i \<Rightarrow> Some i | None \<Rightarrow> OnlyInstance (app_resolver r)) = Some name"
    "Resolve (app_resolver r) name = Some (inst, c)" "parse (i_ForgejoURL inst) = Some target" "http_target target"
    "ts' = fst (proxy_transport inst ts)" "tls = snd (proxy_transport inst ts)" "fwd = req"
    by (rule ServeHTTP_Forwarded [OF assms(1)])
  have a: "app_Resolve r name = Some (inst, c)" using f(5) by simp
  have "(\<exists>e. mget reg tok = Some e \<and> entry_live h sessions now e \<and> te_instance e = name) \<or> r = [(name, inst, c)]"
  proof (cases found)
    case None
    then have "app_OnlyInstance r = Some name" using f(4) by simp
    then show ?thesis using a by (auto simp: app_OnlyInstance_Some app_Resolve_def mget_Cons)
  next
    case (Some i)
    then show ?thesis using f(3,4) by (auto simp: registry_lookup_conv split: option.splits if_splits)
  qed
  moreover have "tls = i_TLSInsecureSkipVerify inst"
    using f(9) proxy_transport_ok(1) [OF proxy_reach_ok [OF assms(3,2)] a] by simp
  moreover have "let out = proxy_outbound reencode target fwd in
      pd_scheme out = u_Scheme target \<and> pd_host out = u_Host target \<and> pd_authorization out = px_authorization req
      \<and> proxy_outbound reencode target (req\<lparr>px_xff := forged\<rparr>) = out
      \<and> (u_Path target \<in> {[], ''/''} \<and> u_RawQuery target = [] \<and> has_prefix (px_path req) ''/''
           \<and> \<not> bad_query (px_query req) \<longrightarrow> pd_path out = px_path req \<and> pd_query out = px_query req)"
    using proxy_outbound_same [of target req reencode] unfolding f(10) Let_def by (auto simp: proxy_outbound_def Let_def)
  ultimately show ?thesis using f(1,2,6,7,10) a by blast
qed

definition example_target :: url where
  "example_target = \<lparr>u_Scheme = ''https'', u_Host = ''forgejo.example.com'', u_Path = [], u_RawQuery = []\<rparr>"

definition example_proxy_request :: proxy_request where
  "example_proxy_request = \<lparr>px_method = ''GET'', px_path = ''/alice/site.git/info/refs'',
     px_query = ''service=git-upload-pack'', px_authorization = ''token ghs_1'',
     px_host = ''forgery.example.com'', px_xff = [''10.0.0.1''], px_client = Some ''192.0.2.7'', px_tls = True\<rparr>"

definition example_resolver :: "unit instanceResolver" where
  "example_resolver = [(''forgejo-a'', (example_instance\<lparr>i_Name := ''forgejo-a''\<rparr>,
     \<lparr>ForwardUpdateTask = \<lambda>_ n. (n, Inr (UpdateTaskResponse [])),
      ForwardUpdateLog = \<lambda>_ n. (n, Inr (UpdateLogResponse [])), HeartbeatTick = \<lambda>_ n. n\<rparr>))]"

lemma example_proxied: "isProxiedPath (px_path example_proxy_request)"
  "proxyToken (px_authorization example_proxy_request) = Some ''ghs_1''"
  "http_target example_target" "proxy_reach parse R []"
  subgoal by (simp add: example_proxy_request_def) code_simp
  subgoal by (simp add: example_proxy_request_def) code_simp
  subgoal by (simp add: http_target_def example_target_def)
  subgoal by (rule new_handler [of "[]"]) (simp add: newProxyHandler_def)
  done

lemma example_names:
  "\<forall>name inst c. app_Resolve example_resolver name = Some (inst, c) \<longrightarrow> i_Name inst = name"
  by (simp add: example_resolver_def app_Resolve_def mget_Cons)

theorem proxy_sound_witness:
  "\<exists>st' fwd. ServeHTTP (\<lambda>_. Some example_target) (app_resolver example_resolver) (\<lambda>_. example_ctx ''forgejo-a'' ''tok-a'')
       NewManager 0 example_proxy_request ([], []) = (st', Forwarded example_target False fwd)
     \<and> fwd = example_proxy_request
     \<and> pd_query (proxy_outbound (\<lambda>q. q) example_target fwd) = ''service=git-upload-pack''"
proof -
  have i: "app_Resolve example_resolver ''forgejo-a'' =
      Some (example_instance\<lparr>i_Name := ''forgejo-a''\<rparr>, snd (snd (example_resolver ! 0)))"
    by (simp add: example_resolver_def app_Resolve_def mget_Cons)
  have o: "OnlyInstance (app_resolver example_resolver) = Some ''forgejo-a''"
    by (simp add: app_OnlyInstance_Some example_resolver_def)
  have t: "i_TLSInsecureSkipVerify (example_instance\<lparr>i_Name := ''forgejo-a''\<rparr>) = False"
    by (simp add: example_instance_def zero_Instance_def)
  have l: "registry_lookup (\<lambda>_. example_ctx ''forgejo-a'' ''tok-a'') NewManager ''ghs_1'' 0 [] = (mdel ''ghs_1'' [], None)"
    by (simp add: registry_lookup_def)
  note s = ServeHTTP_Some [where parse = "\<lambda>_. Some example_target" and name = "''forgejo-a''" and ts = "[]" and R = "app_resolver example_resolver",
      OF example_proxied(1,2) l _ _ _ example_proxied(3), simplified, OF o [simplified] i]
  obtain reg' ts' where s': "ServeHTTP (\<lambda>_. Some example_target) (app_resolver example_resolver)
      (\<lambda>_. example_ctx ''forgejo-a'' ''tok-a'') NewManager 0 example_proxy_request ([], []) =
      ((reg', ts'), Forwarded example_target False example_proxy_request)"
    using s t by (simp add: proxy_transport_def)
  have "\<not> bad_query (px_query example_proxy_request)" by (simp add: example_proxy_request_def)
  then show ?thesis
    using s' proxy_sound [OF s' example_proxied(4) example_names, of "\<lambda>q. q" "[]"]
    by (simp add: Let_def example_target_def example_proxy_request_def has_prefix_def)
qed

text \<open>C21: A runner that presents one of its task's runtime tokens on a proxied path is forwarded to the
  Forgejo instance the task came from, whichever other instances are configured, as long as the task
  runs, its session exists and the token was registered within the last 24 hours; with several
  instances configured an unregistered token is refused with 401.\<close>

theorem task_token_reaches_own_forgejo:
  assumes "isProxiedPath (px_path req)" "proxyToken (px_authorization req) = Some tok"
    and "app_Resolve r (t_Instance (h tc)) = Some (inst, c)" "proxy_reach parse (app_resolver r) ts"
    and "\<forall>name inst c. app_Resolve r name = Some (inst, c) \<longrightarrow> i_Name inst = name"
    and "parse (i_ForgejoURL inst) = Some target" "http_target target"
    and "Status (h' tc) \<noteq> StatusTerminal" "Lookup st sessions \<noteq> None" "now' - now < 24 * hour"
  shows "(tok \<in> set (runtimeTaskTokens (t_Task (h tc))) \<longrightarrow>
      snd (ServeHTTP parse (app_resolver r) h' sessions now' req (putTaskTokens h tc st now reg, ts)) =
        Forwarded target (i_TLSInsecureSkipVerify inst) req)
    \<and> (app_Resolve r other \<noteq> None \<and> other \<noteq> t_Instance (h tc) \<and> mget reg tok = None \<longrightarrow>
      snd (ServeHTTP parse (app_resolver r) h' sessions now' req (reg, ts)) = ProxyError 401 ''unknown task token'')"
proof
  show "tok \<in> set (runtimeTaskTokens (t_Task (h tc))) \<longrightarrow>
      snd (ServeHTTP parse (app_resolver r) h' sessions now' req (putTaskTokens h tc st now reg, ts)) =
        Forwarded target (i_TLSInsecureSkipVerify inst) req"
  proof
    let ?reg = "putTaskTokens h tc st now reg"
    assume "tok \<in> set (runtimeTaskTokens (t_Task (h tc)))"
    then have "registry_lookup h' sessions tok now' ?reg = (?reg, Some (t_Instance (h tc)))"
      using assms(8-10)
      by (simp add: registry_lookup_conv putTaskTokens_get entry_live_def proxyEntryTTL_def algebra_simps)
    then show "snd (ServeHTTP parse (app_resolver r) h' sessions now' req (?reg, ts)) =
        Forwarded target (i_TLSInsecureSkipVerify inst) req"
      using assms(1-3,6,7) proxy_transport_ok(1) [OF proxy_reach_ok [OF assms(5,4)] assms(3)] by (simp add: ServeHTTP_Some)
  qed
  show "app_Resolve r other \<noteq> None \<and> other \<noteq> t_Instance (h tc) \<and> mget reg tok = None \<longrightarrow>
      snd (ServeHTTP parse (app_resolver r) h' sessions now' req (reg, ts)) = ProxyError 401 ''unknown task token''"
  proof
    assume o: "app_Resolve r other \<noteq> None \<and> other \<noteq> t_Instance (h tc) \<and> mget reg tok = None"
    then have "app_OnlyInstance r = None" using app.only_two [of r other "t_Instance (h tc)"] assms(3) by simp
    then show "snd (ServeHTTP parse (app_resolver r) h' sessions now' req (reg, ts)) = ProxyError 401 ''unknown task token''"
      using assms(1,2) o by (simp add: ServeHTTP_def Let_def registry_lookup_conv)
  qed
qed

definition example_two :: "unit instanceResolver" where
  "example_two = [(''forgejo-b'', (example_instance\<lparr>i_Name := ''forgejo-b''\<rparr>, snd (snd (example_resolver ! 0)))),
     hd example_resolver]"

theorem task_token_reaches_own_forgejo_witness:
  "snd (ServeHTTP (\<lambda>_. Some example_target) (app_resolver example_two) example_token_heap example_manager (23 * hour)
     example_proxy_request (putTaskTokens example_token_heap 7 ''tok'' 0 [], [])) =
     Forwarded example_target False example_proxy_request
   \<and> snd (ServeHTTP (\<lambda>_. Some example_target) (app_resolver example_two) example_token_heap example_manager (23 * hour)
     example_proxy_request ([], [])) = ProxyError 401 ''unknown task token''"
proof -
  have s: "Status (example_token_heap 7) \<noteq> StatusTerminal" "t_Instance (example_token_heap 7) = ''forgejo-a''"
    by (simp_all add: Status_def example_token_heap_def example_ctx_def)
  have r: "app_Resolve example_two (t_Instance (example_token_heap 7)) =
      Some (example_instance\<lparr>i_Name := ''forgejo-a''\<rparr>, snd (snd (example_resolver ! 0)))"
    "app_Resolve example_two ''forgejo-b'' \<noteq> None"
    "\<forall>name inst c. app_Resolve example_two name = Some (inst, c) \<longrightarrow> i_Name inst = name"
    unfolding s(2) by (auto simp: example_two_def example_resolver_def app_Resolve_def mget_Cons)
  have t: "i_TLSInsecureSkipVerify (example_instance\<lparr>i_Name := ''forgejo-a''\<rparr>) = False"
    by (simp add: example_instance_def zero_Instance_def)
  note p = task_token_reaches_own_forgejo [where h = example_token_heap and tc = 7 and parse = "\<lambda>_. Some example_target"
      and st = "''tok''" and now = 0 and now' = "23 * hour" and h' = example_token_heap and sessions = example_manager
      and target = example_target,
      OF example_proxied(1,2) r(1) example_proxied(4) r(3) refl example_proxied(3) s(1)]
  show ?thesis
    using p [of "[]" "''forgejo-b''"] example_manager_simps(1) example_token_mem(1) [of 7] r(2) s(2) t
    by simp
qed

end
