(* ===== verification/Observability.thy ===== *)
theory Observability
  imports Go_Strings
begin

text \<open>
  Logger set-up and the health probe (\<^verbatim>\<open>internal/observability\<close>). A logger is its level and
  its output format; writing log lines is not modelled. A response is its status, content type and
  body.
\<close>

section \<open>Logging\<close>

datatype slog_Level = LevelDebug | LevelInfo | LevelWarn | LevelError

datatype slog_Format = TextHandler | JSONHandler

record logger =
  lg_level :: slog_Level
  lg_format :: slog_Format

definition newLogger :: "string \<Rightarrow> string \<Rightarrow> logger" where
  "newLogger level format =
     \<lparr>lg_level = (let l = to_lower level in
        if l = ''debug'' then LevelDebug
        else if l = ''warn'' then LevelWarn
        else if l = ''error'' then LevelError
        else LevelInfo),
      lg_format = (if to_lower format = ''text'' then TextHandler else JSONHandler)\<rparr>"

text \<open>The numeric levels of \<^verbatim>\<open>log/slog\<close>, and which records a handler lets through.\<close>

fun slog_value :: "slog_Level \<Rightarrow> int" where
  "slog_value LevelDebug = -4"
| "slog_value LevelInfo = 0"
| "slog_value LevelWarn = 4"
| "slog_value LevelError = 8"

definition log_enabled :: "logger \<Rightarrow> slog_Level \<Rightarrow> bool" where
  "log_enabled lg l \<longleftrightarrow> slog_value (lg_level lg) \<le> slog_value l"

section \<open>Health probe\<close>

record http_response =
  ps_status :: nat
  ps_content_type :: string
  ps_body :: string

text \<open>\<^verbatim>\<open>json.Encoder\<close> ends the value with a newline.\<close>

definition probe :: http_response where
  "probe = \<lparr>ps_status = 200, ps_content_type = ''application/json'',
     ps_body = ''{'' @ [CHR 0x22] @ ''status'' @ [CHR 0x22] @ '':'' @ [CHR 0x22] @ ''ok'' @ [CHR 0x22] @ ''}'' @ [CHR 0x0A]\<rparr>"

text \<open>The mux of the probe: two exact patterns, and \<open>None\<close> for its own 404.\<close>

definition health_Handler :: "string \<Rightarrow> http_response option" where
  "health_Handler path = (if path = ''/healthz'' \<or> path = ''/readyz'' then Some probe else None)"

text \<open>\<open>listen\<close> is \<^verbatim>\<open>net.Listen\<close>: the error, if any. The result is whether a server runs, or the error.\<close>

definition StartHealthServer :: "(string \<Rightarrow> string option) \<Rightarrow> string \<Rightarrow> string + bool" where
  "StartHealthServer listen addr =
     (if addr = [] then Inr False
      else (case listen addr of
              Some e \<Rightarrow> Inl (''health: listen on '' @ addr @ '': '' @ e)
            | None \<Rightarrow> Inr True))"

section \<open>Lemmas\<close>

lemma log_enabled_error: "log_enabled lg LevelError"
  by (cases "lg_level lg") (simp_all add: log_enabled_def)

lemma newLogger_debug: "log_enabled (newLogger level format) LevelDebug \<longleftrightarrow> to_lower level = ''debug''"
  by (simp add: log_enabled_def newLogger_def Let_def)

lemma StartHealthServer_error: "StartHealthServer listen addr = Inl e \<longleftrightarrow>
    addr \<noteq> [] \<and> (\<exists>m. listen addr = Some m \<and> e = ''health: listen on '' @ addr @ '': '' @ m)"
  by (auto simp: StartHealthServer_def split: option.splits)

end
