(* ===== verification/App_Daemon.thy ===== *)
theory App_Daemon
  imports Run_Task North_Client Observability
begin

text \<open>
  The daemon's life (\<^verbatim>\<open>internal/app/app.go\<close>): registration of every instance at startup, the
  garbage collection pass, the drain at shutdown and the order in which \<^verbatim>\<open>Run\<close> does all this.
  The goroutines that run in between are the theory \<open>Daemon\<close>. The HTTP servers appear
  only as the outcome of binding their addresses; signals and logging are not modelled.
\<close>

section \<open>Startup\<close>

datatype startup_err = RegistrationFailed go_err | DeclarationFailed go_err

text \<open>
  The per-RPC timeout is part of the RPC's outcome. Nothing else uses the client at startup, so
  nobody interferes with its \<open>Declare\<close>.
\<close>

definition registerInstance :: "'n north_env \<Rightarrow> 'n north \<Rightarrow> 'n north \<times> startup_err option" where
  "registerInstance E w =
     (let (w1, failed) =
        (if HasIdentity (nw_client w) then (w, None)
         else (case client_Register E w of
             (w1, Some err) \<Rightarrow> (w1, Some (RegistrationFailed err))
           | (w1, None) \<Rightarrow> (w1, None)))
      in (case failed of
            Some e \<Rightarrow> (w1, Some e)
          | None \<Rightarrow>
              (case client_Declare E (\<lambda>w. w) w1 of
                 (w2, Inl err) \<Rightarrow> (w2, Some (DeclarationFailed err))
               | (w2, Inr _) \<Rightarrow> (w2, None))))"

datatype run_err =
    NorthInit string state_err
  | InstanceFailed string startup_err
  | ListenFailed string string
  | HealthFailed string
  | DrainTimeout nat
  | TickerPanic
  | MakeChanPanic

type_synonym clients = "(string, Instance \<times> client) gomap"

text \<open>The loop over the configured instances; identity file and outside world are shared.\<close>

fun start_instances :: "'n north_env \<Rightarrow> Instance list \<Rightarrow> clients \<Rightarrow> fs \<times> 'n \<Rightarrow> (fs \<times> 'n) \<times> (run_err + clients)" where
  "start_instances E [] r (s, n) = ((s, n), Inr r)"
| "start_instances E (inst # rest) r (s, n) =
     (case north_New inst s of
        Inl e \<Rightarrow> ((s, n), Inl (NorthInit (i_Name inst) e))
      | Inr c \<Rightarrow>
          (case registerInstance E \<lparr>nw_client = c, nw_fs = s, nw_ext = n\<rparr> of
             (w, Some e) \<Rightarrow> ((nw_fs w, nw_ext w), Inl (InstanceFailed (i_Name inst) e))
           | (w, None) \<Rightarrow>
               start_instances E rest (mput (i_Name inst) (inst, nw_client w) r) (nw_fs w, nw_ext w)))"

section \<open>Durations\<close>

definition maxGAStartupTimeout :: "Config \<Rightarrow> duration" where
  "maxGAStartupTimeout cfg =
     fold (\<lambda>inst mx. if i_GAStartupTimeout inst > mx then i_GAStartupTimeout inst else mx) (c_Instances cfg) 0"

definition sessionMaxAge :: "Config \<Rightarrow> duration" where
  "sessionMaxAge cfg = wrap64 (2 * maxGAStartupTimeout cfg)"

definition drainPollInterval :: duration where
  "drainPollInterval = 1 * second"

definition gcInterval :: duration where
  "gcInterval = 1 * minute"

definition tokenPrefix :: "string \<Rightarrow> string" where
  "tokenPrefix tok = (if length tok > 8 then take 8 tok else tok)"

section \<open>Garbage collection\<close>

definition gc_report :: "('x world) Resolver \<Rightarrow> sref \<Rightarrow> 'x world \<Rightarrow> 'x world" where
  "gc_report R s w =
     (let taskCtx = s_TaskCtx (sm_objs (w_sessions w) s)
      in case Resolve R (t_Instance (w_heap w taskCtx)) of
           Some (_, client) \<Rightarrow>
             fst (ForwardUpdateTask client (FailureUpdateRequest (t_ID (w_heap w taskCtx))) w)
         | None \<Rightarrow> w)"

definition gc_orphan :: "('x world) Resolver \<Rightarrow> sref \<Rightarrow> 'x world \<Rightarrow> 'x world" where
  "gc_orphan R s w =
     (let taskCtx = s_TaskCtx (sm_objs (w_sessions w) s);
          w1 = gc_report R s w;
          w2 = w_modify taskCtx MarkDone w1
      in w_remove_task (t_ID (w_heap w2 taskCtx)) w2)"

definition gcOnce :: "time \<Rightarrow> ('x world) Resolver \<Rightarrow> duration \<Rightarrow> 'x world \<Rightarrow> 'x world" where
  "gcOnce now R maxAge w =
     (let w1 = w\<lparr>w_store := GC (w_heap w) now (w_store w)\<rparr>;
          (m, expired) = Expire now maxAge (w_sessions w1)
      in fold (gc_orphan R) expired (w1\<lparr>w_sessions := m\<rparr>))"

text \<open>\<open>gcLoop\<close> over the choices of its select: a tick with its time, or the cancelled context.\<close>

datatype gc_event = GcTick time | GcCtxDone

fun gcLoop :: "('x world) Resolver \<Rightarrow> duration \<Rightarrow> gc_event list \<Rightarrow> 'x world \<Rightarrow> 'x world" where
  "gcLoop R maxAge [] w = w"
| "gcLoop R maxAge (GcCtxDone # _) w = w"
| "gcLoop R maxAge (GcTick now # es) w = gcLoop R maxAge es (gcOnce now R maxAge w)"

section \<open>Shutdown\<close>

text \<open>
  \<open>active k\<close> is the task count seen at the \<open>k\<close>-th poll, made \<open>k\<close> ticks after the start. The
  \<open>k\<close>-th select waits for the next tick and for the deadline; if both come at once the choice is
  \<open>prefer_ctx k\<close>.
\<close>

function drain_loop :: "(nat \<Rightarrow> nat) \<Rightarrow> (nat \<Rightarrow> bool) \<Rightarrow> duration \<Rightarrow> duration \<Rightarrow> nat \<Rightarrow> run_err option" where
  "drain_loop active prefer_ctx timeout pollInterval k =
     (if active k = 0 then None
      else (let tick = int (Suc k) * pollInterval in
        if 0 < pollInterval \<and> (tick < timeout \<or> tick = timeout \<and> \<not> prefer_ctx k)
        then drain_loop active prefer_ctx timeout pollInterval (Suc k)
        else Some (DrainTimeout (active k))))"
  by pat_completeness auto

termination
proof (relation "measure (\<lambda>(active, prefer_ctx, timeout, pollInterval, k). nat (timeout - int k * pollInterval + 1))")
  fix active :: "nat \<Rightarrow> nat" and prefer_ctx :: "nat \<Rightarrow> bool" and timeout poll :: int and k :: nat and tick :: int
  assume "tick = int (Suc k) * poll" "0 < poll \<and> (tick < timeout \<or> tick = timeout \<and> \<not> prefer_ctx k)"
  moreover have t: "int (Suc k) * poll = int k * poll + poll" by (simp add: distrib_right)
  ultimately have "timeout - int (Suc k) * poll < timeout - int k * poll" "0 \<le> timeout - int (Suc k) * poll"
    by auto
  then show "((active, prefer_ctx, timeout, poll, Suc k), active, prefer_ctx, timeout, poll, k)
      \<in> measure (\<lambda>(active, prefer_ctx, timeout, poll, k). nat (timeout - int k * poll + 1))"
    by (simp only: in_measure prod.case)
qed simp

declare drain_loop.simps [simp del]

definition drainTasks :: "(nat \<Rightarrow> nat) \<Rightarrow> (nat \<Rightarrow> bool) \<Rightarrow> duration \<Rightarrow> duration \<Rightarrow> run_err option" where
  "drainTasks active prefer_ctx timeout pollInterval =
     (if pollInterval \<le> 0 then Some TickerPanic
      else drain_loop active prefer_ctx timeout pollInterval 0)"

section \<open>Run\<close>

text \<open>\<open>NewDispatcher\<close> gets the global GitHub settings.\<close>

definition run_GitHub :: "Global \<Rightarrow> GitHub" where
  "run_GitHub g =
     \<lparr>gh_Token = g_GitHubToken g, gh_Repo = g_GitHubRepo g, gh_WorkflowID = g_GitHubWorkflowID g,
      gh_Ref = g_GitHubRef g, gh_APIURL = g_GitHubAPIURL g, gh_PublicURL = g_PublicURL g\<rparr>"

text \<open>What \<^verbatim>\<open>Run\<close> has put together when it waits for a signal.\<close>

record assembly =
  as_clients :: clients
  as_pool :: pool
  as_dispatcher :: Dispatcher
  as_maxAge :: duration
  as_health :: bool

text \<open>
  \<open>listen\<close> is \<^verbatim>\<open>net.Listen\<close> on an address. A negative pool size panics (the elements of that
  channel have no size, so nothing else does). The task channel, whose elements are pointers, is made
  after the south listener is bound: \<open>max_chan\<close> is the largest capacity that the Go runtime can
  give it, and a larger one crashes the process (a panic, or out of memory). The health server is
  bound last, when the goroutines run already.
\<close>

definition assemble :: "'n north_env \<Rightarrow> int \<Rightarrow> (string \<Rightarrow> string option) \<Rightarrow> Config \<Rightarrow> fs \<times> 'n \<Rightarrow>
    (fs \<times> 'n) \<times> (run_err + assembly)" where
  "assemble E max_chan listen cfg st =
     (let g = c_Global cfg in
      case New_pool (g_MaxParallelTasks g) of
        None \<Rightarrow> (st, Inl MakeChanPanic)
      | Some p \<Rightarrow>
          (case start_instances E (c_Instances cfg) [] st of
             (st1, Inl e) \<Rightarrow> (st1, Inl e)
           | (st1, Inr r) \<Rightarrow>
               (case listen (g_ListenAddr g) of
                  Some e \<Rightarrow> (st1, Inl (ListenFailed (g_ListenAddr g) e))
                | None \<Rightarrow>
                    if max_chan < g_MaxParallelTasks g then (st1, Inl MakeChanPanic)
                    else (case StartHealthServer listen (g_HealthAddr g) of
                       Inl e \<Rightarrow> (st1, Inl (HealthFailed e))
                     | Inr h \<Rightarrow>
                         (st1, Inr \<lparr>as_clients = r, as_pool = p, as_dispatcher = NewDispatcher (run_GitHub g),
                           as_maxAge = sessionMaxAge cfg, as_health = h\<rparr>)))))"

text \<open>
  A signal before \<^verbatim>\<open>Run\<close> has installed its handler kills the process: \<open>early\<close> is then the state it
  leaves behind. After the first signal that the handler takes, \<^verbatim>\<open>Run\<close> drains and returns an error
  or nil: failures of the HTTP shutdown are only logged. \<open>forced\<close> says whether another signal
  arrives once the handler is armed again and before the process ends; the goroutine that waits for it
  ends the process at once.
\<close>

datatype run_outcome = Returned "run_err option" | Exited nat | KilledBySignal

definition Run :: "'n north_env \<Rightarrow> int \<Rightarrow> (string \<Rightarrow> string option) \<Rightarrow> (nat \<Rightarrow> nat) \<Rightarrow> (nat \<Rightarrow> bool) \<Rightarrow>
    (fs \<times> 'n) option \<Rightarrow> bool \<Rightarrow> Config \<Rightarrow> fs \<times> 'n \<Rightarrow> (fs \<times> 'n) \<times> run_outcome" where
  "Run E max_chan listen active prefer_ctx early forced cfg st =
     (case early of
        Some st1 \<Rightarrow> (st1, KilledBySignal)
      | None \<Rightarrow>
          (case assemble E max_chan listen cfg st of
             (st1, Inl e) \<Rightarrow> (st1, Returned (Some e))
           | (st1, Inr a) \<Rightarrow>
               if forced then (st1, Exited 1)
               else (st1, Returned (drainTasks active prefer_ctx (maxGAStartupTimeout cfg) drainPollInterval))))"

section \<open>Lemmas\<close>

lemma fold_max:
  "fold (\<lambda>inst mx. if f inst > mx then f inst else mx) xs (d :: int) = Max (insert d (set (map f xs)))"
proof (induction xs arbitrary: d)
  case (Cons x xs)
  have "Max (insert (max d (f x)) (set (map f xs))) = Max (insert d (insert (f x) (set (map f xs))))"
    by (cases "set (map f xs) = {}") (simp_all add: max.assoc)
  moreover have "(if f x > d then f x else d) = max d (f x)" by (simp add: max_def)
  ultimately show ?case using Cons.IH by simp
qed simp

lemma maxGAStartupTimeout_Max:
  "maxGAStartupTimeout cfg = Max (insert 0 (set (map i_GAStartupTimeout (c_Instances cfg))))"
  unfolding maxGAStartupTimeout_def by (rule fold_max)

lemma drain_step:
  assumes "0 < poll"
  shows "drain_loop active prefer_ctx timeout poll k =
     (if active k = 0 then None
      else if int (Suc k) * poll < timeout \<or> int (Suc k) * poll = timeout \<and> \<not> prefer_ctx k
        then drain_loop active prefer_ctx timeout poll (Suc k)
        else Some (DrainTimeout (active k)))"
  using assms by (subst drain_loop.simps) (simp add: Let_def)

text \<open>The loop decides at the first poll that sees no task or that is the last before the deadline.\<close>

lemma drain_loop_cases:
  assumes "0 < poll"
  shows "\<exists>j\<ge>k. (\<forall>i. k \<le> i \<and> i < j \<longrightarrow> active i \<noteq> 0 \<and> int (Suc i) * poll \<le> timeout) \<and>
    (active j = 0 \<and> drain_loop active prefer_ctx timeout poll k = None
     \<or> active j \<noteq> 0 \<and> timeout \<le> int (Suc j) * poll
       \<and> drain_loop active prefer_ctx timeout poll k = Some (DrainTimeout (active j)))"
  using assms
proof (induction active prefer_ctx timeout poll k rule: drain_loop.induct)
  case (1 active prefer_ctx timeout poll k)
  consider (drained) "active k = 0"
    | (tick) "active k \<noteq> 0" "int (Suc k) * poll < timeout \<or> int (Suc k) * poll = timeout \<and> \<not> prefer_ctx k"
    | (deadline) "active k \<noteq> 0" "\<not> (int (Suc k) * poll < timeout \<or> int (Suc k) * poll = timeout \<and> \<not> prefer_ctx k)"
    by blast
  then show ?case
  proof cases
    case drained
    then show ?thesis by (intro exI [of _ k]) (simp add: drain_step [OF 1(2)])
  next
    case tick
    obtain j where j: "Suc k \<le> j" "\<forall>i. Suc k \<le> i \<and> i < j \<longrightarrow> active i \<noteq> 0 \<and> int (Suc i) * poll \<le> timeout"
      "active j = 0 \<and> drain_loop active prefer_ctx timeout poll (Suc k) = None
       \<or> active j \<noteq> 0 \<and> timeout \<le> int (Suc j) * poll
         \<and> drain_loop active prefer_ctx timeout poll (Suc k) = Some (DrainTimeout (active j))"
      using 1(1) [OF tick(1) refl] tick(2) 1(2) by blast
    have "active i \<noteq> 0 \<and> int (Suc i) * poll \<le> timeout" if "k \<le> i" "i < j" for i
    proof (cases "i = k")
      case True
      then show ?thesis using tick by auto
    next
      case False
      then show ?thesis using j(2) that by simp
    qed
    then have pre: "\<forall>i. k \<le> i \<and> i < j \<longrightarrow> active i \<noteq> 0 \<and> int (Suc i) * poll \<le> timeout" by blast
    have e: "drain_loop active prefer_ctx timeout poll k = drain_loop active prefer_ctx timeout poll (Suc k)"
      using drain_step [OF 1(2), of active prefer_ctx timeout k] tick by argo
    have "k \<le> j" using j(1) by simp
    then show ?thesis unfolding e using pre j(3) by (intro exI [of _ j] conjI)
  next
    case deadline
    then have "drain_loop active prefer_ctx timeout poll k = Some (DrainTimeout (active k))"
      using drain_step [OF 1(2), of active prefer_ctx timeout k] by argo
    moreover have "timeout \<le> int (Suc k) * poll" using deadline(2) by linarith
    ultimately show ?thesis using deadline(1) by (intro exI [of _ k]) simp
  qed
qed

text \<open>Startup of one instance, and the identity on disk.\<close>

lemma client_Register_inst:
  assumes "client_Register E w = (w', res)"
  shows "nc_inst (nw_client w') = nc_inst (nw_client w)"
proof -
  obtain n resp where call: "register_call E w = (n, resp)" by fastforce
  show ?thesis
    using assms by (auto simp: client_Register_def call Let_def setIdentity_def resetBackoff_def
        split: sum.splits option.splits prod.splits)
qed

definition persisted :: "'n north \<Rightarrow> bool" where
  "persisted w \<longleftrightarrow> (HasIdentity (nw_client w) \<longrightarrow>
     Load_identity (i_ForgejoURL (nc_inst (nw_client w))) (nw_fs w) = Inr (Some (client_Identity (nw_client w))))"

lemma client_Register_persisted:
  assumes "client_Register E w = (w', None)"
  shows "persisted w'"
proof -
  obtain n and runner :: v1_Runner and s where
    w': "w' = \<lparr>nw_client = resetBackoff ((setIdentity (vr_Uuid runner) (vr_Token runner) (nw_client w))
        \<lparr>nc_gen := nc_gen (nw_client w) + 1\<rparr>), nw_fs = s, nw_ext = n\<rparr>"
    and sv: "Save_identity (ne_save_fails E n) (i_ForgejoURL (nc_inst (nw_client w)))
       \<lparr>id_UUID = vr_Uuid runner, id_Token = vr_Token runner\<rparr> (nw_fs w) = (s, None)"
    by (rule client_Register_None [OF assms])
  show ?thesis
    using Save_success [OF sv, of "i_ForgejoURL (nc_inst (nw_client w))"]
    by (simp add: w' persisted_def resetBackoff_def setIdentity_def client_Identity_def currentIdentity_def)
qed

lemma call_rpc_keeps:
  "nw_client (fst (call_rpc E m f w)) = nw_client w" "nw_fs (fst (call_rpc E m f w)) = nw_fs w"
  by (simp_all add: call_rpc_def split_beta Let_def)

lemma retry_persisted:
  assumes "retryOnAuth E (\<lambda>w. w) fn w = (w', Inr a)"
    and fn: "\<And>w. nw_client (fst (fn w)) = nw_client w \<and> nw_fs (fst (fn w)) = nw_fs w"
    and "persisted w"
  shows "persisted w' \<and> nc_inst (nw_client w') = nc_inst (nw_client w)"
proof -
  have k: "persisted (fst (fn w)) = persisted w" for w using fn [of w] by (simp add: persisted_def)
  obtain w1 r where f: "fn w = (w1, r)" by fastforce
  have w1: "nw_client w1 = nw_client w" "nw_fs w1 = nw_fs w" using fn [of w] f by auto
  show ?thesis
  proof (cases r)
    case (Inr b)
    then show ?thesis using assms f w1 by (auto simp: retryOnAuth_def persisted_def)
  next
    case (Inl err)
    then obtain w3 where reg: "client_Register E w1 = (w3, None)" "fn w3 = (w', Inr a)"
      using assms(1) f w1 by (auto simp: retryOnAuth_def Let_def split: if_splits prod.splits option.splits)
    have "persisted w'" using client_Register_persisted [OF reg(1)] k [of w3] reg(2) by simp
    moreover have "nc_inst (nw_client w') = nc_inst (nw_client w)"
      using fn [of w3] reg(2) client_Register_inst [OF reg(1)] w1 by simp
    ultimately show ?thesis by blast
  qed
qed

lemma client_Declare_keeps:
  assumes "client_Declare E (\<lambda>w. w) w = (w', Inr a)" "persisted w"
  shows "persisted w' \<and> nc_inst (nw_client w') = nc_inst (nw_client w)"
  by (rule retry_persisted [OF assms(1) [unfolded client_Declare_def] _ assms(2)]) (simp add: call_rpc_keeps)

lemma registerInstance_None:
  assumes "registerInstance E w = (w', None)" "persisted w"
  shows "persisted w' \<and> nc_inst (nw_client w') = nc_inst (nw_client w)"
proof (cases "HasIdentity (nw_client w)")
  case True
  then obtain a where "client_Declare E (\<lambda>w. w) w = (w', Inr a)"
    using assms(1) by (auto simp: registerInstance_def split: prod.splits sum.splits)
  then show ?thesis using client_Declare_keeps assms(2) by blast
next
  case False
  then obtain w1 a where "client_Register E w = (w1, None)" "client_Declare E (\<lambda>w. w) w1 = (w', Inr a)"
    using assms(1) by (auto simp: registerInstance_def split: prod.splits sum.splits option.splits)
  then show ?thesis
    using client_Declare_keeps [of E w1 w' a] client_Register_persisted [of E w w1]
      client_Register_inst [of E w w1] by simp
qed

lemma north_New_persisted:
  assumes "north_New inst s = Inr c"
  shows "nc_inst c = inst" "persisted \<lparr>nw_client = c, nw_fs = s, nw_ext = n\<rparr>"
  using assms
  by (auto simp: north_New_def Let_def persisted_def setIdentity_def HasIdentity_def client_Identity_def
      currentIdentity_def split: sum.splits option.splits)

lemma start_instances_append:
  "start_instances E (a @ b) r st =
     (case start_instances E a r st of (st1, Inl e) \<Rightarrow> (st1, Inl e) | (st1, Inr r1) \<Rightarrow> start_instances E b r1 st1)"
proof (induction a arbitrary: r st)
  case Nil
  then show ?case by (cases st) simp
next
  case (Cons inst a)
  obtain s n where st: "st = (s, n)" by fastforce
  show ?case
  proof (cases "north_New inst s")
    case (Inl e)
    then show ?thesis by (simp add: st)
  next
    case (Inr c)
    obtain w e where reg: "registerInstance E \<lparr>nw_client = c, nw_fs = s, nw_ext = n\<rparr> = (w, e)" by fastforce
    then show ?thesis using Inr Cons by (cases e) (simp_all add: st)
  qed
qed

lemma start_instances_Inr:
  assumes "start_instances E insts r st = (st', Inr r')" "gomap_ok r"
    "distinct (map i_Name insts)" "set (map i_Name insts) \<inter> set (mkeys r) = {}"
  shows "gomap_ok r' \<and> set (mkeys r') = set (mkeys r) \<union> set (map i_Name insts)
    \<and> (\<forall>inst\<in>set insts. \<exists>c. mget r' (i_Name inst) = Some (inst, c) \<and> nc_inst c = inst)
    \<and> (\<forall>k\<in>set (mkeys r). mget r' k = mget r k)"
  using assms
proof (induction insts arbitrary: r st)
  case Nil
  then show ?case by (cases st) simp
next
  case (Cons inst insts)
  obtain s n where st: "st = (s, n)" by fastforce
  obtain c where c: "north_New inst s = Inr c" using Cons.prems(1) by (auto simp: st split: sum.splits)
  obtain w where w: "registerInstance E \<lparr>nw_client = c, nw_fs = s, nw_ext = n\<rparr> = (w, None)"
    using Cons.prems(1) c by (auto simp: st split: prod.splits option.splits)
  let ?r = "mput (i_Name inst) (inst, nw_client w) r"
  have k: "set (mkeys ?r) = insert (i_Name inst) (set (mkeys r))" by (simp add: mkeys_mput)
  have "nc_inst (nw_client w) = inst"
    using registerInstance_None [OF w north_New_persisted(2) [OF c]] north_New_persisted(1) [OF c] by simp
  moreover have "gomap_ok r' \<and> set (mkeys r') = set (mkeys ?r) \<union> set (map i_Name insts)
    \<and> (\<forall>inst\<in>set insts. \<exists>c. mget r' (i_Name inst) = Some (inst, c) \<and> nc_inst c = inst)
    \<and> (\<forall>k\<in>set (mkeys ?r). mget r' k = mget ?r k)"
  proof (rule Cons.IH)
    show "start_instances E insts ?r (nw_fs w, nw_ext w) = (st', Inr r')" using Cons.prems(1) c w by (simp add: st)
    show "gomap_ok ?r" using Cons.prems(2) by simp
    show "distinct (map i_Name insts)" using Cons.prems(3) by simp
    show "set (map i_Name insts) \<inter> set (mkeys ?r) = {}" using Cons.prems(3,4) k by auto
  qed
  ultimately show ?case using Cons.prems(4) unfolding k by auto
qed

section \<open>Properties\<close>

text \<open>C30: Shutdown cannot hang and cannot lie. The drain always returns: with success exactly when a
  poll saw no active task, every earlier poll having seen some; and with the timeout error only if
  every poll saw one, the error naming the positive count seen at the last poll, which lies less than
  one interval before the deadline. A task set that becomes empty more than one interval before the
  deadline is always noticed.\<close>

theorem drain_exact:
  assumes "0 < pollInterval"
  shows "\<exists>j. (\<forall>i<j. active i \<noteq> 0 \<and> int (Suc i) * pollInterval \<le> timeout)
    \<and> (drainTasks active prefer_ctx timeout pollInterval = None \<and> active j = 0
       \<or> drainTasks active prefer_ctx timeout pollInterval = Some (DrainTimeout (active j)) \<and> 0 < active j
         \<and> timeout \<le> int (Suc j) * pollInterval)
    \<and> (\<forall>i. active i = 0 \<and> int (Suc i) * pollInterval < timeout \<longrightarrow>
         drainTasks active prefer_ctx timeout pollInterval = None)"
proof -
  have d: "drainTasks active prefer_ctx timeout pollInterval = drain_loop active prefer_ctx timeout pollInterval 0"
    using assms by (simp add: drainTasks_def)
  obtain j where j: "\<forall>i. i < j \<longrightarrow> active i \<noteq> 0 \<and> int (Suc i) * pollInterval \<le> timeout"
    "active j = 0 \<and> drain_loop active prefer_ctx timeout pollInterval 0 = None
     \<or> active j \<noteq> 0 \<and> timeout \<le> int (Suc j) * pollInterval
       \<and> drain_loop active prefer_ctx timeout pollInterval 0 = Some (DrainTimeout (active j))"
    using drain_loop_cases [OF assms, of 0 active timeout prefer_ctx] by auto
  have "drainTasks active prefer_ctx timeout pollInterval = None"
    if i: "active i = 0" "int (Suc i) * pollInterval < timeout" for i
  proof (rule ccontr)
    assume "drainTasks active prefer_ctx timeout pollInterval \<noteq> None"
    then have f: "active j \<noteq> 0" "timeout \<le> int (Suc j) * pollInterval" using j(2) d by auto
    have "\<not> i < j" using j(1) i(1) by blast
    then have "int (Suc j) * pollInterval \<le> int (Suc i) * pollInterval"
      using assms by (intro mult_right_mono) auto
    then show False using f i by linarith
  qed
  then show ?thesis using j d by (intro exI [of _ j]) auto
qed

theorem drain_exact_witness:
  "drainTasks (\<lambda>k. 3 - k) (\<lambda>_. False) (5 * minute) drainPollInterval = None"
proof -
  have "0 < drainPollInterval" "int (Suc 3) * drainPollInterval < 5 * minute"
    by (simp_all add: drainPollInterval_def)
  from drain_exact [OF this(1), where active = "\<lambda>k. 3 - k" and prefer_ctx = "\<lambda>_. False" and timeout = "5 * minute"] this(2)
  show ?thesis by (metis diff_self_eq_0)
qed

text \<open>Startup is fail-fast and the resolver is exact. If the loop over the instances succeeds, the
  resolver knows exactly the configured names, and each name leads to its own instance with a client
  for that instance; if it fails on some instance, the instances after it are never contacted, so the
  outcome does not depend on them.\<close>

theorem startup_resolver_exact:
  assumes "distinct (map i_Name insts)"
  shows "(case start_instances E insts [] st of
      (st', Inr r) \<Rightarrow> set (mkeys r) = set (map i_Name insts)
        \<and> (\<forall>inst\<in>set insts. \<exists>c. mget r (i_Name inst) = Some (inst, c) \<and> nc_inst c = inst)
        \<and> start_instances E (insts @ rest) [] st = start_instances E rest r st'
    | (st', Inl e) \<Rightarrow> start_instances E (insts @ rest) [] st = (st', Inl e))"
proof -
  obtain st' res where st: "start_instances E insts [] st = (st', res)" by fastforce
  show ?thesis
  proof (cases res)
    case (Inl e)
    then show ?thesis using st by (simp add: start_instances_append)
  next
    case (Inr r)
    then show ?thesis
      using st start_instances_Inr [of E insts "[]" st st' r] assms
      by (simp add: start_instances_append mkeys_def)
  qed
qed

theorem startup_resolver_exact_witness:
  "case start_instances example_north [example_instance] [] (no_file, (0, 0)) of
     (st', Inr r) \<Rightarrow> set (mkeys r) = {i_Name example_instance}
   | (st', Inl e) \<Rightarrow> start_instances example_north [example_instance, example_instance] [] (no_file, (0, 0)) = (st', Inl e)"
  using startup_resolver_exact [where insts = "[example_instance]" and E = example_north and
      st = "(no_file, (0, 0))" and rest = "[example_instance]"]
  by (auto split: prod.splits sum.splits)

text \<open>C28: A restart keeps the runner's identity. If an instance was started successfully and has an
  identity, the identity file as startup left it gives a new process the same identity, which then
  only declares itself and does not register again; without an identity startup registers first, and
  a failed registration is reported as such.\<close>

theorem restart_keeps_identity:
  assumes "north_New inst s = Inr c"
    and "registerInstance E \<lparr>nw_client = c, nw_fs = s, nw_ext = n\<rparr> = (w', None)"
    and "HasIdentity (nw_client w')"
  shows "\<exists>c'. north_New inst (nw_fs w') = Inr c' \<and> client_Identity c' = client_Identity (nw_client w')
    \<and> registerInstance E \<lparr>nw_client = c', nw_fs = nw_fs w', nw_ext = n'\<rparr> =
        (case client_Declare E (\<lambda>w. w) \<lparr>nw_client = c', nw_fs = nw_fs w', nw_ext = n'\<rparr> of
           (w2, Inl err) \<Rightarrow> (w2, Some (DeclarationFailed err))
         | (w2, Inr _) \<Rightarrow> (w2, None))
    \<and> (HasIdentity c \<or> snd (client_Register E \<lparr>nw_client = c, nw_fs = s, nw_ext = n\<rparr>) = None)"
proof -
  let ?w = "\<lparr>nw_client = c, nw_fs = s, nw_ext = n\<rparr>"
  have p: "persisted w'" "nc_inst (nw_client w') = inst"
    using registerInstance_None [OF assms(2) north_New_persisted(2) [OF assms(1)]]
      north_New_persisted(1) [OF assms(1)] by simp_all
  have l: "Load_identity (i_ForgejoURL inst) (nw_fs w') = Inr (Some (client_Identity (nw_client w')))"
    using p assms(3) by (simp add: persisted_def)
  then obtain c' where c': "north_New inst (nw_fs w') = Inr c'"
    "client_Identity c' = client_Identity (nw_client w')"
    by (auto simp: north_New_def Let_def client_Identity_def currentIdentity_def setIdentity_def)
  then have "HasIdentity c'"
    using assms(3) by (simp add: HasIdentity_def client_Identity_def currentIdentity_def)
  then have "registerInstance E \<lparr>nw_client = c', nw_fs = nw_fs w', nw_ext = n'\<rparr> =
        (case client_Declare E (\<lambda>w. w) \<lparr>nw_client = c', nw_fs = nw_fs w', nw_ext = n'\<rparr> of
           (w2, Inl err) \<Rightarrow> (w2, Some (DeclarationFailed err))
         | (w2, Inr _) \<Rightarrow> (w2, None))"
    by (simp add: registerInstance_def)
  moreover have "HasIdentity c \<or> snd (client_Register E ?w) = None"
    using assms(2) by (auto simp: registerInstance_def split: prod.splits option.splits if_splits)
  ultimately show ?thesis using c' by blast
qed

theorem restart_keeps_identity_witness:
  "\<exists>c'. north_New example_instance no_file = Inr c' \<and> \<not> HasIdentity c'
     \<and> (\<exists>w' c2. registerInstance example_north \<lparr>nw_client = c', nw_fs = no_file, nw_ext = (0, 0)\<rparr> = (w', None)
          \<and> north_New example_instance (nw_fs w') = Inr c2 \<and> HasIdentity c2)"
proof -
  let ?c = "\<lparr>nc_inst = example_instance, nc_UUID = [], nc_Token = [], nc_gen = 0, nc_backoffNext = None,
        nc_backoffWait = 0\<rparr>"
  let ?w = "\<lparr>nw_client = ?c, nw_fs = no_file, nw_ext = (0, 0)\<rparr> :: (nat \<times> time) north"
  have c: "north_New example_instance no_file = Inr ?c" "\<not> HasIdentity ?c"
    by (simp_all add: north_New_def no_file_def Load_identity_def state_read_def HasIdentity_def currentIdentity_def)
  have call: "register_call example_north ?w = ((1, 0), Inr (Some example_runner))"
    by (simp add: register_call_def example_north_def Let_def)
  obtain s where sv: "Save_identity (\<lambda>_. None) (i_ForgejoURL example_instance)
      \<lparr>id_UUID = ''u2'', id_Token = ''t2''\<rparr> no_file = (s, None)"
    using Save_no_file by blast
  have f: "ne_save_fails example_north k = (\<lambda>_. None)" for k by (simp add: example_north_def)
  obtain w3 where r: "client_Register example_north ?w = (w3, None)" "nc_UUID (nw_client w3) = ''u2''"
    "nc_Token (nw_client w3) = ''t2''"
    using sv by (auto simp: client_Register_def call f example_runner_def setIdentity_def resetBackoff_def)
  have d: "client_Declare example_north (\<lambda>w. w) w3 = (w3, Inr ())"
    by (simp add: client_Declare_def retryOnAuth_def call_rpc_def example_north_def)
  have i: "registerInstance example_north ?w = (w3, None)" using r c(2) d by (simp add: registerInstance_def)
  have h: "HasIdentity (nw_client w3)" using r by (simp add: HasIdentity_def currentIdentity_def)
  obtain c2 where c2: "north_New example_instance (nw_fs w3) = Inr c2"
    "client_Identity c2 = client_Identity (nw_client w3)"
    using restart_keeps_identity [OF c(1) i h] by blast
  moreover have "HasIdentity c2"
    using h c2(2) by (simp add: HasIdentity_def client_Identity_def currentIdentity_def)
  ultimately show ?thesis using c i by (intro exI [of _ ?c] conjI exI [of _ w3] exI [of _ c2])
qed

text \<open>Without integer overflow the session age limit is twice the largest startup timeout, so every
  instance's timeout has elapsed twice before one of its sessions can be reaped, and the drain waits
  for the slowest instance.\<close>

theorem sessionMaxAge_covers:
  assumes "\<forall>inst\<in>set (c_Instances cfg). 0 < i_GAStartupTimeout inst \<and> i_GAStartupTimeout inst < 2 ^ 62"
    and "inst \<in> set (c_Instances cfg)"
  shows "2 * i_GAStartupTimeout inst \<le> sessionMaxAge cfg \<and> i_GAStartupTimeout inst \<le> maxGAStartupTimeout cfg
    \<and> sessionMaxAge cfg = 2 * maxGAStartupTimeout cfg
    \<and> (\<exists>i\<in>set (c_Instances cfg). maxGAStartupTimeout cfg = i_GAStartupTimeout i)"
proof -
  let ?S = "set (map i_GAStartupTimeout (c_Instances cfg))"
  have m: "maxGAStartupTimeout cfg = Max (insert 0 ?S)" by (rule maxGAStartupTimeout_Max)
  have "i_GAStartupTimeout inst \<le> maxGAStartupTimeout cfg" unfolding m using assms(2) by (intro Max_ge) auto
  moreover have "maxGAStartupTimeout cfg \<in> insert 0 ?S" unfolding m by (rule Max_in) auto
  moreover have "0 < i_GAStartupTimeout inst" using assms by blast
  ultimately have i: "\<exists>i\<in>set (c_Instances cfg). maxGAStartupTimeout cfg = i_GAStartupTimeout i"
    "i_GAStartupTimeout inst \<le> maxGAStartupTimeout cfg" by auto
  then have "0 < maxGAStartupTimeout cfg \<and> maxGAStartupTimeout cfg < 2 ^ 62" using assms(1) by auto
  then have "sessionMaxAge cfg = 2 * maxGAStartupTimeout cfg"
    unfolding sessionMaxAge_def by (intro wrap64_id) (simp add: in_int64_def int64_min_def int64_max_def)
  then show ?thesis using i by simp
qed

theorem sessionMaxAge_covers_witness:
  "sessionMaxAge (example_config\<lparr>c_Instances := [example_instance\<lparr>i_GAStartupTimeout := 5 * minute\<rparr>]\<rparr>) = 10 * minute"
proof -
  let ?i = "example_instance\<lparr>i_GAStartupTimeout := 5 * minute\<rparr>"
  let ?c = "example_config\<lparr>c_Instances := [?i]\<rparr>"
  have "\<forall>inst\<in>set (c_Instances ?c). 0 < i_GAStartupTimeout inst \<and> i_GAStartupTimeout inst < 2 ^ 62" "?i \<in> set (c_Instances ?c)"
    by simp_all
  from sessionMaxAge_covers [OF this] show ?thesis by simp
qed

section \<open>Garbage collection\<close>

text \<open>Calls that change nothing but the world outside while they run.\<close>

definition local_calls :: "('x world) Resolver \<Rightarrow> bool" where
  "local_calls R \<longleftrightarrow> (\<forall>name inst client req w. Resolve R name = Some (inst, client) \<longrightarrow>
     fst (ForwardUpdateTask client req w) = w\<lparr>w_ext := w_ext (fst (ForwardUpdateTask client req w))\<rparr>)"

definition orphan_task :: "'x world \<Rightarrow> sref \<Rightarrow> tref" where
  "orphan_task w s = s_TaskCtx (sm_objs (w_sessions w) s)"

lemma gc_orphan_local:
  assumes "local_calls R"
  obtains n where "gc_orphan R s w = w_remove_task (t_ID (w_heap w (orphan_task w s)))
      (w_modify (orphan_task w s) MarkDone (w\<lparr>w_ext := n\<rparr>))"
proof -
  let ?r = "orphan_task w s"
  have id: "t_ID (MarkDone t) = t_ID t" for t by (simp add: taskctx_defs)
  show thesis
  proof (cases "Resolve R (t_Instance (w_heap w ?r))")
    case None
    have "w = w\<lparr>w_ext := w_ext w\<rparr>" by simp
    with None show ?thesis
      by (intro that [of "w_ext w"]) (simp add: gc_orphan_def gc_report_def orphan_task_def Let_def id)
  next
    case (Some p)
    obtain inst client where p: "p = (inst, client)" by fastforce
    let ?w = "fst (ForwardUpdateTask client (FailureUpdateRequest (t_ID (w_heap w ?r))) w)"
    have "?w = w\<lparr>w_ext := w_ext ?w\<rparr>" using assms Some p unfolding local_calls_def by blast
    then obtain n where "?w = w\<lparr>w_ext := n\<rparr>" by blast
    then show ?thesis
      using Some p by (intro that [of n]) (simp add: gc_orphan_def gc_report_def orphan_task_def Let_def id)
  qed
qed

lemma gc_orphans:
  assumes "local_calls R" "ms_ok (w_store w)"
  shows "w_sessions (fold (gc_orphan R) ss w) = w_sessions w
    \<and> w_pool (fold (gc_orphan R) ss w) = w_pool w \<and> w_chan (fold (gc_orphan R) ss w) = w_chan w
    \<and> (\<forall>r. t_ID (w_heap (fold (gc_orphan R) ss w) r) = t_ID (w_heap w r))
    \<and> (\<forall>r. done_fired (w_heap (fold (gc_orphan R) ss w) r) \<longleftrightarrow> done_fired (w_heap w r) \<or> r \<in> orphan_task w ` set ss)
    \<and> ms_ok (w_store (fold (gc_orphan R) ss w))
    \<and> (\<forall>i. mget (ms_tasks (w_store (fold (gc_orphan R) ss w))) i =
         (if i \<in> (\<lambda>s. t_ID (w_heap w (orphan_task w s))) ` set ss then None else mget (ms_tasks (w_store w)) i))"
  using assms(2)
proof (induction ss arbitrary: w)
  case Nil
  then show ?case by simp
next
  case (Cons s ss)
  let ?r = "orphan_task w s"
  obtain n where n: "gc_orphan R s w = w_remove_task (t_ID (w_heap w ?r)) (w_modify ?r MarkDone (w\<lparr>w_ext := n\<rparr>))"
    by (rule gc_orphan_local [OF assms(1)])
  let ?w = "gc_orphan R s w"
  have f: "w_sessions ?w = w_sessions w" "w_pool ?w = w_pool w" "w_chan ?w = w_chan w"
    "ms_ok (w_store ?w)" "orphan_task ?w = orphan_task w"
    "mget (ms_tasks (w_store ?w)) i = (if i = t_ID (w_heap w ?r) then None else mget (ms_tasks (w_store w)) i)" for i
    using Cons.prems by (simp_all add: n orphan_task_def fun_eq_iff Remove_def removeLocked_lookup)
  have h: "t_ID (w_heap ?w r) = t_ID (w_heap w r)"
    "done_fired (w_heap ?w r) \<longleftrightarrow> done_fired (w_heap w r) \<or> r = ?r" for r
    by (simp_all add: n taskctx_defs)
  show ?case
    using Cons.IH [of ?w] f h by (simp add: fun_eq_iff)
qed

definition orphaned :: "time \<Rightarrow> duration \<Rightarrow> 'x world \<Rightarrow> tref set" where
  "orphaned now maxAge w = {orphan_task w s |tok s. Lookup tok (w_sessions w) = Some s
     \<and> time_sub now (s_LastActivity (sm_objs (w_sessions w) s)) > maxAge}"

lemma orphaned_expired:
  assumes "sm_ok (w_sessions w)"
  shows "orphan_task w ` set (snd (Expire now maxAge (w_sessions w))) = orphaned now maxAge w"
proof -
  have "set (snd (Expire now maxAge (w_sessions w))) = {s. (\<exists>tok. Lookup tok (w_sessions w) = Some s)
     \<and> time_sub now (s_LastActivity (sm_objs (w_sessions w) s)) > maxAge}"
    using Expire_returned [OF assms, of _ now maxAge] by (auto simp: expire_due_def)
  then show ?thesis unfolding orphaned_def by blast
qed

text \<open>C24: One garbage collection pass does exactly this, whatever the failure reports return: it removes
  the Pending tasks past their TTL and the tasks of the sessions silent for longer than the age
  limit; it fires the Done signal of the latter, so that a waiting handler gives its slot back; it
  removes exactly those sessions; and it touches no other task, session or slot.\<close>

theorem gcOnce_exact:
  assumes "local_calls R" and "sm_ok (w_sessions w)" and "ms_ok (w_store w)"
  shows "Lookup tok (w_sessions (gcOnce now R maxAge w)) = Option.bind (Lookup tok (w_sessions w))
      (\<lambda>s. if time_sub now (s_LastActivity (sm_objs (w_sessions w) s)) > maxAge then None else Some s)
    \<and> (done_fired (w_heap (gcOnce now R maxAge w) r) \<longleftrightarrow> done_fired (w_heap w r) \<or> r \<in> orphaned now maxAge w)
    \<and> mget (ms_tasks (w_store (gcOnce now R maxAge w))) i = Option.bind (mget (ms_tasks (w_store w)) i)
      (\<lambda>t. if gc_due now (w_heap w t) \<or> i \<in> (\<lambda>r. t_ID (w_heap w r)) ` orphaned now maxAge w then None else Some t)
    \<and> w_pool (gcOnce now R maxAge w) = w_pool w \<and> w_chan (gcOnce now R maxAge w) = w_chan w"
proof -
  let ?m = "fst (Expire now maxAge (w_sessions w))" and ?ss = "snd (Expire now maxAge (w_sessions w))"
  let ?w1 = "w\<lparr>w_store := GC (w_heap w) now (w_store w), w_sessions := ?m\<rparr>"
  have g: "gcOnce now R maxAge w = fold (gc_orphan R) ?ss ?w1"
    by (simp add: gcOnce_def Let_def split_beta)
  have o: "orphan_task ?w1 = orphan_task w" by (simp add: orphan_task_def fun_eq_iff)
  have ids: "(\<lambda>s. t_ID (w_heap ?w1 (orphan_task ?w1 s))) ` set ?ss = (\<lambda>r. t_ID (w_heap w r)) ` orphaned now maxAge w"
    unfolding orphaned_expired [OF assms(2), of now maxAge, symmetric] o image_image by simp
  have ok: "ms_ok (w_store ?w1)" using assms(3) by simp
  note k = gc_orphans [OF assms(1) ok, of ?ss]
  have k6: "mget (ms_tasks (w_store (fold (gc_orphan R) ?ss ?w1))) i =
      (if i \<in> (\<lambda>r. t_ID (w_heap w r)) ` orphaned now maxAge w then None else mget (ms_tasks (w_store ?w1)) i)"
    using k unfolding ids by blast
  have t: "mget (ms_tasks (w_store ?w1)) i = Option.bind (mget (ms_tasks (w_store w)) i)
      (\<lambda>t. if gc_due now (w_heap w t) then None else Some t)"
    using gc_candidates_iff [OF assms(3), of i "w_heap w" now]
    by (auto simp: GC_def gc_remove_def fold_removeLocked_lookup(1) [OF assms(3)] split: Option.bind_split)
  have "Lookup tok (w_sessions (gcOnce now R maxAge w)) = Option.bind (Lookup tok (w_sessions w))
      (\<lambda>s. if time_sub now (s_LastActivity (sm_objs (w_sessions w) s)) > maxAge then None else Some s)"
    using k Expire_lookup [OF assms(2), of tok now maxAge] by (simp add: g expire_due_def)
  moreover have "done_fired (w_heap (gcOnce now R maxAge w) r) \<longleftrightarrow> done_fired (w_heap w r) \<or> r \<in> orphaned now maxAge w"
    using k orphaned_expired [OF assms(2), of now maxAge] by (simp add: g o)
  moreover have "mget (ms_tasks (w_store (gcOnce now R maxAge w))) i = Option.bind (mget (ms_tasks (w_store w)) i)
      (\<lambda>t. if gc_due now (w_heap w t) \<or> i \<in> (\<lambda>r. t_ID (w_heap w r)) ` orphaned now maxAge w then None else Some t)"
    unfolding g k6 t by (simp split: Option.bind_split)
  moreover have "w_pool (gcOnce now R maxAge w) = w_pool w \<and> w_chan (gcOnce now R maxAge w) = w_chan w"
    using k by (simp add: g)
  ultimately show ?thesis by blast
qed

theorem gcOnce_exact_witness:
  "done_fired (w_heap (gcOnce 11 log_resolver 10 (example_world\<lparr>w_sessions := example_manager\<rparr>)) 7)
   \<and> Lookup ''tok'' (w_sessions (gcOnce 11 log_resolver 10 (example_world\<lparr>w_sessions := example_manager\<rparr>))) = None"
proof -
  let ?w = "example_world\<lparr>w_sessions := example_manager\<rparr>"
  have l: "local_calls log_resolver"
    by (auto simp: local_calls_def log_resolver_def app_resolver_def app_Resolve_def mget_Cons log_client_def
        split: if_splits)
  have ok: "sm_ok (w_sessions ?w)" "ms_ok (w_store ?w)" by (simp_all add: example_manager_ok example_world_def)
  have "time_sub 11 (s_LastActivity (sm_objs (w_sessions ?w) 0)) > 10"
    by (simp add: example_manager_simps time_sub_def sat64_def int64_min_def int64_max_def)
  moreover have "orphan_task ?w 0 = 7"
    by (simp add: orphan_task_def example_manager_def create_session_def CreateWithToken_simps NewManager_def)
  ultimately have "7 \<in> orphaned 11 10 ?w"
    using example_manager_simps(1) unfolding orphaned_def by force
  then show ?thesis
    using gcOnce_exact [OF l ok, of "''tok''" 11 10 7] example_manager_simps
      \<open>time_sub 11 (s_LastActivity (sm_objs (w_sessions ?w) 0)) > 10\<close> by simp
qed

section \<open>The result of Run\<close>

lemma drainTasks_range:
  assumes "0 < pollInterval" "drainTasks active prefer_ctx timeout pollInterval = Some e"
  shows "\<exists>j. e = DrainTimeout (active j) \<and> active j \<noteq> 0"
  using drain_loop_cases [OF assms(1), of 0 active timeout prefer_ctx] assms by (auto simp: drainTasks_def)

lemma start_instances_errors:
  "start_instances E insts r st = (st', Inl e) \<Longrightarrow>
     \<exists>inst\<in>set insts. (\<exists>x. e = NorthInit (i_Name inst) x) \<or> (\<exists>x. e = InstanceFailed (i_Name inst) x)"
proof (induction insts arbitrary: r st)
  case Nil
  then show ?case by (cases st) simp
next
  case (Cons inst insts)
  obtain s n where st: "st = (s, n)" by fastforce
  show ?case
  proof (cases "north_New inst s")
    case (Inl x)
    then show ?thesis using Cons.prems by (auto simp add: st)
  next
    case (Inr c)
    obtain w y where "registerInstance E \<lparr>nw_client = c, nw_fs = s, nw_ext = n\<rparr> = (w, y)" by fastforce
    then show ?thesis using Inr Cons by (cases y) (auto simp: st)
  qed
qed

text \<open>The process exits cleanly only after a clean drain, and otherwise says why. With a validated
  configuration the only panic of \<open>Run\<close> is a task channel that is too large to be made; it returns nil exactly if startup succeeded and a poll of the
  drain saw no active task; its error names a configured instance that could not be initialised,
  registered or declared, an address that could not be bound, or the positive number of tasks left at
  the deadline.\<close>

theorem Run_result:
  assumes "0 < g_MaxParallelTasks (c_Global cfg)"
  shows "case snd (Run E max_chan listen active prefer_ctx early forced cfg st) of
      KilledBySignal \<Rightarrow> early \<noteq> None
    | Exited status \<Rightarrow> status = 1 \<and> forced
    | Returned None \<Rightarrow> (\<exists>st' a j. assemble E max_chan listen cfg st = (st', Inr a) \<and> active j = 0
        \<and> pool_cap (as_pool a) = nat (g_MaxParallelTasks (c_Global cfg)) \<and> pool_sem (as_pool a) = 0)
    | Returned (Some (NorthInit n e)) \<Rightarrow> n \<in> set (map i_Name (c_Instances cfg))
    | Returned (Some (InstanceFailed n e)) \<Rightarrow> n \<in> set (map i_Name (c_Instances cfg))
    | Returned (Some (ListenFailed addr e)) \<Rightarrow> addr = g_ListenAddr (c_Global cfg) \<and> listen addr = Some e
    | Returned (Some (HealthFailed e)) \<Rightarrow> g_HealthAddr (c_Global cfg) \<noteq> [] \<and> listen (g_HealthAddr (c_Global cfg)) \<noteq> None
    | Returned (Some (DrainTimeout n)) \<Rightarrow> 0 < n
    | Returned (Some TickerPanic) \<Rightarrow> False
    | Returned (Some MakeChanPanic) \<Rightarrow> max_chan < g_MaxParallelTasks (c_Global cfg)"
proof (cases early)
  case (Some s)
  then show ?thesis by (simp add: Run_def)
next
  case early: None
  let ?g = "c_Global cfg"
  have p: "New_pool (g_MaxParallelTasks ?g) = Some \<lparr>pool_cap = nat (g_MaxParallelTasks ?g), pool_sem = 0\<rparr>"
    using assms by (simp add: New_pool_def)
  obtain st1 res where r: "start_instances E (c_Instances cfg) [] st = (st1, res)" by fastforce
  show ?thesis
  proof (cases res)
    case (Inl e)
    then show ?thesis
      using start_instances_errors [of E "c_Instances cfg" "[]" st st1 e] r p
      by (auto simp: Run_def early assemble_def Let_def)
  next
    case (Inr cl)
    show ?thesis
    proof (cases "listen (g_ListenAddr ?g)")
      case (Some e)
      then show ?thesis using Inr r p by (simp add: Run_def early assemble_def Let_def)
    next
      case listen: None
      show ?thesis
      proof (cases "max_chan < g_MaxParallelTasks ?g")
        case True
        then show ?thesis using Inr listen r p by (simp add: Run_def early assemble_def Let_def)
      next
        case chan: False
        show ?thesis
        proof (cases "StartHealthServer listen (g_HealthAddr ?g)")
          case (Inl e)
          then show ?thesis
            using \<open>res = Inr cl\<close> listen chan r p StartHealthServer_error [of listen "g_HealthAddr ?g" e]
            by (auto simp: Run_def early assemble_def Let_def)
        next
          case h: (Inr h)
          obtain a where a: "assemble E max_chan listen cfg st = (st1, Inr a)" "pool_cap (as_pool a) = nat (g_MaxParallelTasks ?g)"
            "pool_sem (as_pool a) = 0"
            using \<open>res = Inr cl\<close> listen chan r p h by (simp add: assemble_def Let_def)
          let ?d = "drainTasks active prefer_ctx (maxGAStartupTimeout cfg) drainPollInterval"
          have i: "0 < drainPollInterval" by (simp add: drainPollInterval_def)
          show ?thesis
          proof (cases ?d)
            case None
            then have "drain_loop active prefer_ctx (maxGAStartupTimeout cfg) drainPollInterval 0 = None"
              using i by (simp add: drainTasks_def)
            then obtain j where "active j = 0"
              using drain_loop_cases [OF i, of 0 active "maxGAStartupTimeout cfg" prefer_ctx] by auto
            then show ?thesis using a None by (auto simp: Run_def early)
          next
            case (Some e)
            then show ?thesis using a drainTasks_range [OF i Some] by (auto simp: Run_def early)
          qed
        qed
      qed
    qed
  qed
qed

definition example_run_config :: Config where
  "example_run_config = \<lparr>c_Global = (c_Global example_config)\<lparr>g_MaxParallelTasks := 5\<rparr>, c_Instances = []\<rparr>"

theorem Run_result_witness:
  "\<exists>st' a. assemble example_north 1000 (\<lambda>_. None) example_run_config (no_file, (0, 0)) = (st', Inr a)
     \<and> pool_cap (as_pool a) = 5"
proof -
  let ?c = example_run_config
  have m: "0 < g_MaxParallelTasks (c_Global ?c)" by (simp add: example_run_config_def)
  have "snd (Run example_north 1000 (\<lambda>_. None) (\<lambda>_. 0) (\<lambda>_. False) None False ?c (no_file, (0, 0))) = Returned None"
    by (simp add: Run_def assemble_def example_run_config_def Let_def New_pool_def StartHealthServer_def
        drainTasks_def drainPollInterval_def drain_loop.simps [of "\<lambda>_. 0"])
  then show ?thesis
    using Run_result [OF m, where E = example_north and max_chan = 1000 and early = None and listen = "\<lambda>_. None" and active = "\<lambda>_. 0"
        and prefer_ctx = "\<lambda>_. False" and forced = False and st = "(no_file, (0, 0))"]
    by (auto simp: example_run_config_def)
qed

end
