(* ===== verification/South_Requests.thy ===== *)
theory South_Requests
  imports South_Handler
begin

text \<open>
  The RPCs of the internal runner cut at every lock. Theory \<open>South_Handler\<close> has each handler as one
  function; here the same handler is a machine that takes one lock section, one call or one write
  per step (Declare's writes to the session, which take no lock, are one), so that everything else can
  happen between any two of them. A request that runs
  undisturbed computes what the function computes.
\<close>

section \<open>Steps\<close>

fun call_headers :: "south_call \<Rightarrow> req_headers option" where
  "call_headers (CallRegister req) = None"
| "call_headers (CallDeclare hdr req) = Some hdr"
| "call_headers (CallFetchTask hdr) = Some hdr"
| "call_headers (CallUpdateTask hdr req) = Some hdr"
| "call_headers (CallUpdateLog hdr req) = Some hdr"

definition refused :: "string \<Rightarrow> request_pc" where
  "refused m = ReqDone (Inl (unauthenticated m))"

text \<open>The lookup of a registration token, whose deadline is a constant of the task.\<close>

definition request_lookup :: "time \<Rightarrow> string \<Rightarrow> string \<Rightarrow> 'x world \<Rightarrow> request_pc" where
  "request_lookup now unknown tok w =
     (case GetByRegToken tok (w_store w) of
        None \<Rightarrow> refused unknown
      | Some r \<Rightarrow> if isRegTokenExpired now (w_heap w r) then refused ''registration token expired'' else ReqSeen tok r)"

definition request_start :: "time \<Rightarrow> south_call \<Rightarrow> 'x world \<Rightarrow> request_pc" where
  "request_start now c w =
     (case c of
        CallRegister req \<Rightarrow> request_lookup now ''invalid registration token'' (sr_Token req) w
      | _ \<Rightarrow> (case sessionTokenFromRequest (the (call_headers c)) of
            None \<Rightarrow> refused ''missing session token''
          | Some tok \<Rightarrow> (case Lookup tok (w_sessions w) of Some s \<Rightarrow> ReqFound tok s | None \<Rightarrow> ReqMissed tok)))"

text \<open>The two halves of the creation of a session; the token of a Register is drawn first.\<close>

definition request_publish :: "entropy \<Rightarrow> time \<Rightarrow> south_call \<Rightarrow> string \<Rightarrow> tref \<Rightarrow> 'x world \<Rightarrow> 'x world \<times> request_pc" where
  "request_publish rnd now c tok r w =
     (case c of
        CallRegister req \<Rightarrow>
          (case GenerateBytes rnd 16 of
             Inl e \<Rightarrow> (w, ReqDone (Inl panicked))
           | Inr raw \<Rightarrow>
               (let (m, s) = PublishSession now r (hex_encode raw) (sr_Name req) (sr_Labels req) (w_sessions w)
                in (w\<lparr>w_sessions := m\<rparr>, ReqPublished tok r s)))
      | _ \<Rightarrow> (let (m, s) = PublishSession now r tok [] [] (w_sessions w)
             in (w\<lparr>w_sessions := m\<rparr>, ReqPublished tok r s)))"

definition request_link :: "south_call \<Rightarrow> string \<Rightarrow> tref \<Rightarrow> sref \<Rightarrow> 'x world \<Rightarrow> 'x world \<times> request_pc" where
  "request_link c tok r s w =
     (w_modify r (SetSessionToken (s_SessionToken (w_session w s))) w,
      case c of CallRegister req \<Rightarrow> ReqTouched r s | _ \<Rightarrow> ReqOpened tok r s)"

definition request_mark :: "south_call \<Rightarrow> tref \<Rightarrow> sref \<Rightarrow> 'x world \<Rightarrow> 'x world \<times> request_pc" where
  "request_mark c r s w =
     (let w1 = w_modify r MarkRunnerRegistered w
      in (w1, case c of
          CallRegister req \<Rightarrow> ReqDone (Inr (RunnerResponse (register_answer w1 req r s)))
        | _ \<Rightarrow> ReqAuth s))"

definition request_body :: "yaml_parse \<Rightarrow> yaml_encode \<Rightarrow> ('x world) Resolver \<Rightarrow> time \<Rightarrow> south_call \<Rightarrow> sref \<Rightarrow>
    'x world \<Rightarrow> 'x world \<times> request_pc" where
  "request_body parse encode R now c s w =
     (case c of
        CallRegister req \<Rightarrow> (w, ReqDone (Inl panicked))
      | CallDeclare hdr req \<Rightarrow> (let (w1, runner) = declare_body req s w in (w1, ReqDone (Inr (RunnerResponse runner))))
      | CallFetchTask hdr \<Rightarrow> (let (w1, task) = fetch_body parse encode R now s w in (w1, ReqDone (Inr (TaskResponse task))))
      | CallUpdateTask hdr req \<Rightarrow>
          (case update_forward R req s w of
             (w1, Inl e) \<Rightarrow> (w1, ReqDone (Inl e))
           | (w1, Inr resp) \<Rightarrow>
               (w1, if GetState_Result req \<noteq> RESULT_UNSPECIFIED then ReqReported s resp
                    else ReqDone (Inr (UpdateResponse resp))))
      | CallUpdateLog hdr req \<Rightarrow> (let (w1, res) = log_forward R req s w in (w1, ReqDone (map_sum (\<lambda>e. e) LogResponse res))))"

text \<open>A Register never reaches its body: it is answered when the task is marked.\<close>

definition request_step :: "yaml_parse \<Rightarrow> yaml_encode \<Rightarrow> ('x world) Resolver \<Rightarrow> time \<Rightarrow> entropy \<Rightarrow> south_call \<Rightarrow>
    request_pc \<Rightarrow> 'x world \<Rightarrow> 'x world \<times> request_pc" where
  "request_step parse encode R now rnd c pc w =
     (case pc of
        ReqStart \<Rightarrow> (w, request_start now c w)
      | ReqFound tok s \<Rightarrow>
          (let (w1, ok) = w_touch now tok w in (w1, if ok then ReqAuth s else refused ''invalid session token''))
      | ReqMissed tok \<Rightarrow> (w, request_lookup now ''invalid session token'' tok w)
      | ReqSeen tok r \<Rightarrow>
          (let (w1, ok) = w_consume tok w
           in (w1, if ok then ReqClaimed tok r else refused ''registration token already consumed''))
      | ReqClaimed tok r \<Rightarrow> request_publish rnd now c tok r w
      | ReqPublished tok r s \<Rightarrow> request_link c tok r s w
      | ReqOpened tok r s \<Rightarrow> (fst (w_touch now tok w), ReqTouched r s)
      | ReqTouched r s \<Rightarrow> request_mark c r s w
      | ReqAuth s \<Rightarrow> request_body parse encode R now c s w
      | ReqReported s resp \<Rightarrow> (w_modify (s_TaskCtx (w_session w s)) (SetStatus StatusTerminal) w, ReqSettled s resp)
      | ReqSettled s resp \<Rightarrow> (w_modify (s_TaskCtx (w_session w s)) MarkDone w, ReqEnded s resp)
      | ReqEnded s resp \<Rightarrow> (w_remove_session (s_SessionToken (w_session w s)) w, ReqDropped s resp)
      | ReqDropped s resp \<Rightarrow>
          (w_remove_task (t_ID (w_task_of w s)) w, ReqDone (Inr (UpdateResponse resp)))
      | ReqDone res \<Rightarrow> (w, ReqDone res))"

section \<open>Running alone\<close>

text \<open>What the functions of \<open>South_Handler\<close> compute when nothing comes between.\<close>

definition request_result :: "yaml_parse \<Rightarrow> yaml_encode \<Rightarrow> ('x world) Resolver \<Rightarrow> time \<Rightarrow> entropy \<Rightarrow> south_call \<Rightarrow>
    'x world \<Rightarrow> 'x world \<times> (go_err + south_response)" where
  "request_result parse encode R now rnd c w =
     (case c of
        CallRegister req \<Rightarrow> apsnd (map_sum (\<lambda>e. e) RunnerResponse) (south_Register (\<lambda>w. w) now rnd req w)
      | CallDeclare hdr req \<Rightarrow> apsnd (map_sum (\<lambda>e. e) RunnerResponse) (south_Declare (\<lambda>w. w) now hdr req w)
      | CallFetchTask hdr \<Rightarrow> apsnd (map_sum (\<lambda>e. e) TaskResponse) (south_FetchTask parse encode R (\<lambda>w. w) now hdr w)
      | CallUpdateTask hdr req \<Rightarrow> apsnd (map_sum (\<lambda>e. e) UpdateResponse) (south_UpdateTask R (\<lambda>w. w) now hdr req w)
      | CallUpdateLog hdr req \<Rightarrow> apsnd (map_sum (\<lambda>e. e) LogResponse) (south_UpdateLog R (\<lambda>w. w) now hdr req w))"

fun request_run :: "nat \<Rightarrow> yaml_parse \<Rightarrow> yaml_encode \<Rightarrow> ('x world) Resolver \<Rightarrow> time \<Rightarrow> entropy \<Rightarrow> south_call \<Rightarrow>
    request_pc \<Rightarrow> 'x world \<Rightarrow> 'x world \<times> request_pc" where
  "request_run 0 parse encode R now rnd c pc w = (w, pc)"
| "request_run (Suc n) parse encode R now rnd c pc w =
     (case request_step parse encode R now rnd c pc w of (w1, pc1) \<Rightarrow> request_run n parse encode R now rnd c pc1 w1)"

text \<open>The number of steps that are left at most; every step but the last goes down.\<close>

fun request_rank :: "request_pc \<Rightarrow> nat" where
  "request_rank ReqStart = 12"
| "request_rank (ReqMissed tok) = 11"
| "request_rank (ReqSeen tok r) = 10"
| "request_rank (ReqClaimed tok r) = 9"
| "request_rank (ReqPublished tok r s) = 8"
| "request_rank (ReqOpened tok r s) = 7"
| "request_rank (ReqFound tok s) = 6"
| "request_rank (ReqTouched r s) = 6"
| "request_rank (ReqAuth s) = 5"
| "request_rank (ReqReported s resp) = 4"
| "request_rank (ReqSettled s resp) = 3"
| "request_rank (ReqEnded s resp) = 2"
| "request_rank (ReqDropped s resp) = 1"
| "request_rank (ReqDone res) = 0"

lemma request_rank_0: "request_rank pc = 0 \<longleftrightarrow> (\<exists>res. pc = ReqDone res)"
  by (cases pc) simp_all

lemma request_lookup_rank: "request_rank (request_lookup now m tok w) \<le> 10"
  by (simp add: request_lookup_def refused_def split: option.split)

lemma request_step_rank:
  assumes "request_step parse encode R now rnd c pc w = (w', pc')" "request_rank pc \<noteq> 0"
  shows "request_rank pc' < request_rank pc"
proof (cases pc)
  case ReqStart
  have "request_rank (request_lookup now m tok w) < 12" for m tok using request_lookup_rank [of now m tok w] by simp
  then have "request_rank (request_start now c w) < 12"
    by (auto simp: request_start_def refused_def split: south_call.split option.split)
  then show ?thesis using assms(1) ReqStart by (auto simp: request_step_def)
next
  case (ReqMissed tok)
  then show ?thesis
    using assms(1) request_lookup_rank [of now "''invalid session token''" tok w] by (auto simp: request_step_def)
next
  case (ReqClaimed tok r)
  then show ?thesis
    using assms(1) by (auto simp: request_step_def request_publish_def Let_def split: south_call.splits sum.splits prod.splits)
next
  case (ReqPublished tok r s)
  then show ?thesis using assms(1) by (auto simp: request_step_def request_link_def split: south_call.splits)
next
  case (ReqTouched r s)
  then show ?thesis using assms(1) by (auto simp: request_step_def request_mark_def Let_def split: south_call.splits)
next
  case (ReqAuth s)
  then show ?thesis
    using assms(1)
    by (auto simp: request_step_def request_body_def Let_def split: south_call.splits sum.splits prod.splits if_splits)
qed (use assms in \<open>auto simp: request_step_def refused_def Let_def split: prod.splits if_splits\<close>)

lemma request_run_done: "request_run n parse encode R now rnd c (ReqDone res) w = (w, ReqDone res)"
  by (induction n) (simp_all add: request_step_def)

lemma request_run_add:
  "request_run (m + n) parse encode R now rnd c pc w =
     (case request_run m parse encode R now rnd c pc w of (w1, pc1) \<Rightarrow> request_run n parse encode R now rnd c pc1 w1)"
  by (induction m arbitrary: pc w) (simp_all split: prod.split)

lemma request_run_ends:
  assumes "request_run m parse encode R now rnd c pc w = (w', ReqDone res)" "m \<le> n"
  shows "request_run n parse encode R now rnd c pc w = (w', ReqDone res)"
  using request_run_add [of m "n - m" parse encode R now rnd c pc w] assms by (simp add: request_run_done)

text \<open>The two steps that create a session.\<close>

lemma create_alone:
  assumes "call_headers c = Some hdr" "w_create_with_token now r tok [] [] w = (w1, s)"
  shows "request_run (Suc (Suc 0)) parse encode R now rnd c (ReqClaimed tok r) w = (w1, ReqOpened tok r s)"
proof -
  obtain m where p: "PublishSession now r tok [] [] (w_sessions w) = (m, s)"
    and w1: "w1 = w\<lparr>w_sessions := m, w_heap := modify r (SetSessionToken tok) (w_heap w)\<rparr>"
    using assms(2) by (auto simp: w_create_with_token_def CreateWithToken_def split_beta prod_eq_iff)
  have "s_SessionToken (sm_objs m s) = tok"
    using PublishSession_simps(2,4) [of now r tok "[]" "[]" "w_sessions w"] by (simp add: p)
  then show ?thesis
    using assms(1) p by (cases c) (simp_all add: request_step_def request_publish_def request_link_def w1 w_modify_def)
qed

lemma register_alone:
  "request_run (Suc (Suc 0)) parse encode R now rnd (CallRegister req) (ReqClaimed tok r) w =
    (case Create rnd now r (sr_Name req) (sr_Labels req) (w_sessions w, w_heap w) of
       Inl e \<Rightarrow> (w, ReqDone (Inl panicked))
     | Inr ((m, h), s) \<Rightarrow> (w\<lparr>w_sessions := m, w_heap := h\<rparr>, ReqTouched r s))"
proof (cases "GenerateBytes rnd 16")
  case (Inl e)
  then show ?thesis by (simp add: request_step_def request_publish_def Create_def)
next
  case (Inr raw)
  obtain m s where p: "PublishSession now r (hex_encode raw) (sr_Name req) (sr_Labels req) (w_sessions w) = (m, s)" by fastforce
  have "s_SessionToken (sm_objs m s) = hex_encode raw"
    using PublishSession_simps(2,4) [of now r "hex_encode raw" "sr_Name req" "sr_Labels req" "w_sessions w"] by (simp add: p)
  then show ?thesis
    using Inr p
    by (simp add: request_step_def request_publish_def request_link_def Create_def CreateWithToken_def w_modify_def)
qed

text \<open>The part before the body.\<close>

definition auth_pc :: "go_err + sref \<Rightarrow> request_pc" where
  "auth_pc res = (case res of Inl e \<Rightarrow> ReqDone (Inl e) | Inr s \<Rightarrow> ReqAuth s)"

lemma request_auth_alone:
  assumes "call_headers c = Some hdr" "authenticate (\<lambda>w. w) now hdr w = (w1, res)"
  shows "\<exists>n\<le>7. request_run n parse encode R now rnd c ReqStart w = (w1, auth_pc res)"
proof -
  let ?run = "\<lambda>n. request_run n parse encode R now rnd c"
  have start: "request_start now c w = (case sessionTokenFromRequest hdr of
      None \<Rightarrow> refused ''missing session token''
    | Some tok \<Rightarrow> (case Lookup tok (w_sessions w) of Some s \<Rightarrow> ReqFound tok s | None \<Rightarrow> ReqMissed tok))"
    using assms(1) by (cases c) (simp_all add: request_start_def)
  have reg: "\<And>req. c \<noteq> CallRegister req" using assms(1) by auto
  have mark: "request_mark c r s v = (w_modify r MarkRunnerRegistered v, ReqAuth s)" for r s v
    using reg by (cases c; simp add: request_mark_def)+
  show ?thesis
  proof (cases "sessionTokenFromRequest hdr")
    case None
    then show ?thesis
      using assms(2) start
      by (intro exI [of _ "Suc 0"]) (auto simp: authenticate_def request_step_def refused_def auth_pc_def)
  next
    case tok: (Some tok)
    show ?thesis
    proof (cases "Lookup tok (w_sessions w)")
      case (Some s)
      then show ?thesis
        using assms(2) start tok
        by (intro exI [of _ "Suc (Suc 0)"])
          (auto simp: authenticate_def request_step_def refused_def auth_pc_def Let_def split: prod.splits bool.splits)
    next
      case lk: None
      show ?thesis
      proof (cases "\<exists>r. GetByRegToken tok (w_store w) = Some r \<and> \<not> isRegTokenExpired now (w_heap w r)")
        case False
        then show ?thesis
          using assms(2) start tok lk
          by (intro exI [of _ "Suc (Suc 0)"])
            (auto simp: authenticate_def request_step_def request_lookup_def refused_def auth_pc_def split: option.splits)
      next
        case True
        then obtain r where r: "GetByRegToken tok (w_store w) = Some r" "\<not> isRegTokenExpired now (w_heap w r)" by blast
        obtain v ok where c: "w_consume tok w = (v, ok)" by fastforce
        show ?thesis
        proof (cases ok)
          case False
          then show ?thesis
            using assms(2) start tok lk r c
            by (intro exI [of _ "Suc (Suc (Suc 0))"])
              (auto simp: authenticate_def request_step_def request_lookup_def refused_def auth_pc_def)
        next
          case True
          obtain v1 s where k: "w_create_with_token now r tok [] [] v = (v1, s)" by fastforce
          have a: "request_run (Suc (Suc (Suc 0))) parse encode R now rnd c ReqStart w = (v, ReqClaimed tok r)"
            using start tok lk r c True by (simp add: request_step_def request_lookup_def)
          have b: "request_run (Suc (Suc 0)) parse encode R now rnd c (ReqOpened tok r s) v1 = (w1, auth_pc res)"
            using assms(2) tok lk r c True k
            by (auto simp: authenticate_def request_step_def auth_pc_def mark Let_def split: prod.splits)
          show ?thesis
            using a create_alone [OF assms(1) k, of parse encode R rnd] b
            by (intro exI [of _ "Suc (Suc (Suc 0)) + (Suc (Suc 0) + Suc (Suc 0))"])
              (simp add: request_run_add del: request_run.simps add_Suc add_Suc_right)
        qed
      qed
    qed
  qed
qed

text \<open>The body, and the whole.\<close>

definition body_result :: "yaml_parse \<Rightarrow> yaml_encode \<Rightarrow> ('x world) Resolver \<Rightarrow> time \<Rightarrow> south_call \<Rightarrow> sref \<Rightarrow>
    'x world \<Rightarrow> 'x world \<times> (go_err + south_response)" where
  "body_result parse encode R now c s w =
     (case c of
        CallRegister req \<Rightarrow> (w, Inl panicked)
      | CallDeclare hdr req \<Rightarrow> apsnd (\<lambda>x. Inr (RunnerResponse x)) (declare_body req s w)
      | CallFetchTask hdr \<Rightarrow> apsnd (\<lambda>x. Inr (TaskResponse x)) (fetch_body parse encode R now s w)
      | CallUpdateTask hdr req \<Rightarrow>
          (case update_forward R req s w of
             (w1, Inl e) \<Rightarrow> (w1, Inl e)
           | (w1, Inr resp) \<Rightarrow>
               ((if GetState_Result req \<noteq> RESULT_UNSPECIFIED then terminal_cleanup s w1 else w1), Inr (UpdateResponse resp)))
      | CallUpdateLog hdr req \<Rightarrow> apsnd (map_sum (\<lambda>e. e) LogResponse) (log_forward R req s w))"

lemma cleanup_alone:
  "request_run (Suc (Suc (Suc (Suc 0)))) parse encode R now rnd c (ReqReported s resp) w =
     (terminal_cleanup s w, ReqDone (Inr (UpdateResponse resp)))"
  by (simp add: request_step_def terminal_cleanup_def Let_def Remove_session_def)

lemma body_alone:
  "\<exists>n\<le>5. request_run n parse encode R now rnd c (ReqAuth s) w = apsnd ReqDone (body_result parse encode R now c s w)"
proof -
  let ?run = "\<lambda>n. request_run n parse encode R now rnd c"
  have one: "?run (Suc n) (ReqAuth s) w = (case request_body parse encode R now c s w of (w1, pc1) \<Rightarrow> ?run n pc1 w1)" for n
    by (simp add: request_step_def)
  show ?thesis
  proof (cases "\<exists>hdr req w1 resp. c = CallUpdateTask hdr req \<and> update_forward R req s w = (w1, Inr resp)
      \<and> GetState_Result req \<noteq> RESULT_UNSPECIFIED")
    case True
    then obtain hdr req w1 resp where u: "c = CallUpdateTask hdr req" "update_forward R req s w = (w1, Inr resp)"
      "GetState_Result req \<noteq> RESULT_UNSPECIFIED" by blast
    then have "request_body parse encode R now c s w = (w1, ReqReported s resp)" by (simp add: request_body_def)
    then have "?run (Suc (Suc (Suc (Suc (Suc 0))))) (ReqAuth s) w = (terminal_cleanup s w1, ReqDone (Inr (UpdateResponse resp)))"
      unfolding one by (simp only: prod.case cleanup_alone)
    then show ?thesis using u by (intro exI [of _ "Suc (Suc (Suc (Suc (Suc 0))))"]) (simp add: body_result_def)
  next
    case False
    then have "request_body parse encode R now c s w = apsnd ReqDone (body_result parse encode R now c s w)"
      by (cases c) (auto simp: request_body_def body_result_def apsnd_def map_prod_def Let_def split: prod.splits sum.splits)
    then show ?thesis by (intro exI [of _ "Suc 0"]) (simp add: one split_beta del: request_run.simps(2))
  qed
qed

lemma request_result_auth:
  assumes "call_headers c = Some hdr"
  shows "request_result parse encode R now rnd c w =
    (case authenticate (\<lambda>w. w) now hdr w of
       (w1, Inl e) \<Rightarrow> (w1, Inl e)
     | (w1, Inr s) \<Rightarrow> body_result parse encode R now c s w1)"
  using assms
  by (cases c) (auto simp: request_result_def body_result_def south_Declare_def south_FetchTask_def south_UpdateTask_def
      south_UpdateLog_def apsnd_def map_prod_def Let_def split: prod.splits sum.splits)

lemma request_alone:
  "\<exists>n\<le>12. request_run n parse encode R now rnd c ReqStart w = apsnd ReqDone (request_result parse encode R now rnd c w)"
proof (cases "call_headers c")
  case None
  then obtain req where c: "c = CallRegister req" by (cases c) auto
  have "request_run (Suc (Suc (Suc (Suc (Suc 0))))) parse encode R now rnd c ReqStart w
      = apsnd ReqDone (request_result parse encode R now rnd c w)"
  proof (cases "\<exists>r v. GetByRegToken (sr_Token req) (w_store w) = Some r \<and> \<not> isRegTokenExpired now (w_heap w r)
      \<and> w_consume (sr_Token req) w = (v, True)")
    case True
    then obtain r v where r: "GetByRegToken (sr_Token req) (w_store w) = Some r" "\<not> isRegTokenExpired now (w_heap w r)"
      "w_consume (sr_Token req) w = (v, True)" by blast
    have "request_run (Suc (Suc 0)) parse encode R now rnd c ReqStart w = (v, ReqClaimed (sr_Token req) r)"
      using r by (simp add: c request_step_def request_start_def request_lookup_def)
    then have "request_run (Suc (Suc 0) + (Suc (Suc 0) + Suc 0)) parse encode R now rnd c ReqStart w
        = apsnd ReqDone (request_result parse encode R now rnd c w)"
      using r
      by (simp only: request_run_add prod.case)
        (auto simp: c register_alone request_step_def request_mark_def request_result_def south_Register_def Let_def
          split: sum.split simp del: request_run.simps(2) simp add: request_run.simps(2) [of 0])
    then show ?thesis by simp
  next
    case False
    then show ?thesis
      unfolding c
      by (auto simp: request_step_def request_start_def request_lookup_def request_result_def
          south_Register_def refused_def Let_def split: option.splits prod.splits bool.splits)
  qed
  then show ?thesis by (intro exI [of _ "Suc (Suc (Suc (Suc (Suc 0))))"]) simp
next
  case (Some hdr)
  obtain w1 res where a: "authenticate (\<lambda>w. w) now hdr w = (w1, res)" by fastforce
  obtain m where m: "m \<le> 7" "request_run m parse encode R now rnd c ReqStart w = (w1, auth_pc res)"
    using request_auth_alone [OF Some a] by blast
  show ?thesis
  proof (cases res)
    case (Inl e)
    then show ?thesis using m a by (intro exI [of _ m]) (simp add: request_result_auth [OF Some] auth_pc_def)
  next
    case (Inr s)
    obtain n where n: "n \<le> 5" "request_run n parse encode R now rnd c (ReqAuth s) w1
        = apsnd ReqDone (body_result parse encode R now c s w1)" using body_alone by blast
    show ?thesis
      using m n a Inr by (intro exI [of _ "m + n"]) (simp add: request_run_add request_result_auth [OF Some] auth_pc_def)
  qed
qed

section \<open>A claim across two tasks\<close>

text \<open>
  The lookup of a registration token and its claim are two lock sections, and the claim asks only for
  the token. If a task of another instance takes over the task id in between, the token leads to that
  task, but the request that looked it up before claims it and goes on with the displaced task, which
  is in no store any more; the other task keeps its own token.
\<close>

lemma displaced_task_admitted:
  assumes "mget (ms_byReg (w_store w)) tok = Some (t_ID (h r2))" "mget (ms_tasks (w_store w)) (t_ID (h r2)) = Some r1"
    and "t_RegToken (h r2) \<noteq> tok" and "w' = w\<lparr>w_heap := h, w_store := PutPending h r2 (w_store w)\<rparr>"
  shows "GetByRegToken tok (w_store w) = Some r1 \<and> GetByRegToken tok (w_store w') = Some r2
    \<and> (\<exists>w2. request_step parse encode R now rnd c (ReqSeen tok r1) w' = (w2, ReqClaimed tok r1)
         \<and> mget (ms_tasks (w_store w2)) (t_ID (h r2)) = Some r2
         \<and> GetByRegToken (t_RegToken (h r2)) (w_store w2) = Some r2)"
proof -
  have g: "GetByRegToken tok (w_store w) = Some r1" "GetByRegToken tok (w_store w') = Some r2"
    "GetByRegToken (t_RegToken (h r2)) (w_store w') = Some r2"
    using assms(1,2) by (simp_all add: GetByRegToken_Some PutPending_def assms(3,4) not_sym [OF assms(3)])
  obtain w2 ok where c: "w_consume tok w' = (w2, ok)" by fastforce
  note c1 = w_consume_cases(1,2) [OF c]
  have ok using c1(1) g(2) by (auto simp: GetByRegToken_Some)
  then have "request_step parse encode R now rnd c (ReqSeen tok r1) w' = (w2, ReqClaimed tok r1)"
    using c by (simp add: request_step_def)
  moreover have "GetByRegToken (t_RegToken (h r2)) (w_store w2) = Some r2"
    using g(3) assms(3) by (simp add: c1(2) GetByRegToken_consume)
  moreover have "mget (ms_tasks (w_store w2)) (t_ID (h r2)) = Some r2"
    by (auto simp: c1(2) MarkRegTokenConsumed_def assms(4) PutPending_def split: option.split)
  ultimately show ?thesis using g by blast
qed

section \<open>Properties\<close>

text \<open>The handlers as functions and as machines agree. A request that runs without interruption is
  answered after at most twelve steps, whatever it asks and whatever state it finds, and leaves the
  world and the answer that the function of its RPC computes. In any interleaving each of its steps
  brings it closer to the answer, so no request takes more than twelve.\<close>

theorem request_alone_exact:
  "request_run 12 parse encode R now rnd c ReqStart w = apsnd ReqDone (request_result parse encode R now rnd c w)
    \<and> (\<forall>v v' pc'. request_step parse encode R now rnd c pc v = (v', pc') \<and> request_rank pc \<noteq> 0 \<longrightarrow>
         request_rank pc' < request_rank pc)
    \<and> request_rank ReqStart = 12 \<and> (request_rank pc = 0 \<longleftrightarrow> (\<exists>res. pc = ReqDone res))"
proof -
  obtain w1 res where q: "request_result parse encode R now rnd c w = (w1, res)" by fastforce
  obtain n where n: "n \<le> 12" "request_run n parse encode R now rnd c ReqStart w = (w1, ReqDone res)"
    using request_alone [of parse encode R now rnd c w] by (auto simp: q)
  have "request_run 12 parse encode R now rnd c ReqStart w = apsnd ReqDone (request_result parse encode R now rnd c w)"
    unfolding q apsnd_conv by (rule request_run_ends [OF n(2,1)])
  moreover have "\<forall>v v' pc'. request_step parse encode R now rnd c pc v = (v', pc') \<and> request_rank pc \<noteq> 0 \<longrightarrow>
      request_rank pc' < request_rank pc"
    using request_step_rank by blast
  ultimately show ?thesis using request_rank_0 [of pc] by simp
qed

theorem request_alone_exact_witness:
  "\<exists>w' task. request_run 12 (\<lambda>_. Inl []) (\<lambda>_. Inl []) log_resolver 5 None (CallFetchTask (example_hdr ''tok-a'')) ReqStart
      example_world = (w', ReqDone (Inr (TaskResponse task)))
    \<and> request_rank (request_start 5 (CallFetchTask (example_hdr ''tok-a'')) example_world) < 12"
proof -
  let ?c = "CallFetchTask (example_hdr ''tok-a'')"
  obtain w1 where a: "authenticate id 5 (example_hdr ''tok-a'') example_world = (w1, Inr 0)"
    using example_auth by blast
  then obtain w' task where f: "south_FetchTask (\<lambda>_. Inl []) (\<lambda>_. Inl []) log_resolver id 5 (example_hdr ''tok-a'') example_world
      = (w', Inr task)" by (simp add: south_FetchTask_def Let_def split_beta)
  have "request_result (\<lambda>_. Inl []) (\<lambda>_. Inl []) log_resolver 5 None ?c example_world = (w', Inr (TaskResponse task))"
    using f by (simp add: request_result_def id_def)
  moreover have "request_step (\<lambda>_. Inl []) (\<lambda>_. Inl []) log_resolver 5 None ?c ReqStart example_world
      = (example_world, request_start 5 ?c example_world)" by (simp add: request_step_def)
  ultimately show ?thesis
    using request_alone_exact [of "\<lambda>_. Inl []" "\<lambda>_. Inl []" log_resolver 5 None ?c example_world ReqStart] by simp
qed

end
