(* ===== verification/Evolution.thy ===== *)
theory Evolution
  imports South_Requests North_Poller App_Daemon
begin

text \<open>
  Rely and guarantee of the daemon's goroutines. The shared world is read and written by the
  pollers, the handlers, the south server and the GC loop at the same time. \<open>evolves\<close> says what
  the world may do between two moments of any one of them, \<open>quiet\<close> what a call may do that
  leaves the process, whose effect includes what the other goroutines do meanwhile. \<open>tends\<close> adds
  that no task loses its session before it is done. Here are the elementary changes of the world;
  theories \<open>Request_Steps\<close> and \<open>Guarantees\<close> show that every step of a request and every other operation
  of the program keeps to these relations, so they are what each may rely on.

  The slots, the channel, the allocation of tasks and the progress of requests belong to this process
  alone: what other goroutines do to them while a caller waits (a poll, a step of a request, the exit of
  a handler, which also takes away the session of its task) are steps of their own before or after
  the call.
\<close>

section \<open>The rely condition\<close>

definition slots_view :: "'x world \<Rightarrow> pool \<times> tref list \<times> nat \<times> tref" where
  "slots_view w = (w_pool w, w_chan w, w_chan_cap w, w_next w)"

text \<open>
  The sessions that were ever created for a task, the tokens that lead to it now, and the requests that
  have claimed one and not created its session yet. Their number together is how many runners the task
  can have had in the end.
\<close>

definition admitted :: "'x world \<Rightarrow> tref \<Rightarrow> sref list" where
  "admitted w r = filter (\<lambda>s. s_TaskCtx (w_session w s) = r) [0..<sm_next (w_sessions w)]"

definition open_tokens :: "MemStore \<Rightarrow> tref \<Rightarrow> string list" where
  "open_tokens m r = filter (\<lambda>tok. GetByRegToken tok m = Some r) (mkeys (ms_byReg m))"

definition claimed_by :: "tref \<Rightarrow> request \<Rightarrow> bool" where
  "claimed_by r q \<longleftrightarrow> (case snd q of ReqClaimed tok r' \<Rightarrow> r' = r | _ \<Rightarrow> False)"

definition claims :: "'x world \<Rightarrow> tref \<Rightarrow> request list" where
  "claims w r = filter (claimed_by r) (w_requests w)"

definition chances :: "'x world \<Rightarrow> tref \<Rightarrow> nat" where
  "chances w r = length (admitted w r) + length (open_tokens (w_store w) r) + length (claims w r)"

text \<open>No two tasks share their id at Forgejo (which two instances may give out) or their random token.\<close>

definition no_collisions :: "'x world \<Rightarrow> bool" where
  "no_collisions w \<longleftrightarrow> distinct (map (\<lambda>r. t_ID (w_heap w r)) [0..<w_next w])
     \<and> distinct (map (\<lambda>r. t_RegToken (w_heap w r)) [0..<w_next w])"

definition signalled :: "TaskCtx \<Rightarrow> bool" where
  "signalled t \<longleftrightarrow> done_fired t \<or> registered_fired t"

text \<open>
  What holds of a request between its steps: the task and the session it goes on with exist, a session
  is that of the token the request presented, and a claimed token is spent.
\<close>

definition presented :: "south_call \<Rightarrow> string option" where
  "presented c = (case c of CallRegister req \<Rightarrow> Some (sr_Token req) | _ \<Rightarrow> sessionTokenFromRequest (the (call_headers c)))"

definition acts_for :: "south_call \<Rightarrow> sref \<Rightarrow> 'x world \<Rightarrow> bool" where
  "acts_for c s w \<longleftrightarrow> s < sm_next (w_sessions w)
     \<and> (call_headers c = None \<or> presented c = Some (s_SessionToken (w_session w s)))"

fun acting_session :: "request_pc \<Rightarrow> sref option" where
  "acting_session (ReqFound tok s) = Some s"
| "acting_session (ReqPublished tok r s) = Some s"
| "acting_session (ReqOpened tok r s) = Some s"
| "acting_session (ReqTouched r s) = Some s"
| "acting_session (ReqAuth s) = Some s"
| "acting_session (ReqReported s resp) = Some s"
| "acting_session (ReqSettled s resp) = Some s"
| "acting_session (ReqEnded s resp) = Some s"
| "acting_session (ReqDropped s resp) = Some s"
| "acting_session _ = None"

definition request_ok :: "'x world \<Rightarrow> request \<Rightarrow> bool" where
  "request_ok w q = (case q of (c, pc) \<Rightarrow> (case pc of
       ReqFound tok s \<Rightarrow> acts_for c s w \<and> s_SessionToken (w_session w s) = tok
     | ReqMissed tok \<Rightarrow> presented c = Some tok
     | ReqSeen tok r \<Rightarrow> presented c = Some tok \<and> r < w_next w \<and> (no_collisions w \<longrightarrow> t_RegToken (w_heap w r) = tok)
     | ReqClaimed tok r \<Rightarrow> presented c = Some tok \<and> r < w_next w \<and> GetByRegToken tok (w_store w) \<noteq> Some r
     | ReqPublished tok r s \<Rightarrow> acts_for c s w \<and> s_TaskCtx (w_session w s) = r
     | ReqOpened tok r s \<Rightarrow> acts_for c s w \<and> s_TaskCtx (w_session w s) = r
     | ReqTouched r s \<Rightarrow> acts_for c s w \<and> s_TaskCtx (w_session w s) = r
     | ReqAuth s \<Rightarrow> acts_for c s w
     | ReqReported s resp \<Rightarrow> acts_for c s w
     | ReqSettled s resp \<Rightarrow> acts_for c s w
     | ReqEnded s resp \<Rightarrow> acts_for c s w \<and> done_fired (w_task_of w s)
     | ReqDropped s resp \<Rightarrow> acts_for c s w \<and> done_fired (w_task_of w s)
     | _ \<Rightarrow> True))"

text \<open>The store, the sessions and the heap fit together; only a session's task signals anything.\<close>

definition world_ok :: "'x world \<Rightarrow> bool" where
  "world_ok w \<longleftrightarrow> ms_ok (w_store w) \<and> sm_ok (w_sessions w)
     \<and> (\<forall>i r. mget (ms_tasks (w_store w)) i = Some r \<longrightarrow> r < w_next w \<and> t_ID (w_heap w r) = i)
     \<and> (\<forall>s < sm_next (w_sessions w). s_TaskCtx (w_session w s) < w_next w)
     \<and> (\<forall>r < w_next w. signalled (w_heap w r) \<longrightarrow> admitted w r \<noteq> [])
     \<and> (no_collisions w \<longrightarrow> (\<forall>tok r. GetByRegToken tok (w_store w) = Some r \<longrightarrow> t_RegToken (w_heap w r) = tok))
     \<and> (\<forall>q\<in>set (w_requests w). request_ok w q)"

definition keeps_ctx :: "TaskCtx \<Rightarrow> TaskCtx \<Rightarrow> bool" where
  "keeps_ctx t t' \<longleftrightarrow> same_task t' t \<and> (done_fired t \<longrightarrow> done_fired t')
     \<and> (registered_fired t \<longrightarrow> registered_fired t')"

text \<open>
  Of the tasks known at the first moment: none changes its identity or takes back a signal,
  none comes back into the store, and no token that does not lead to one of them ever leads to it
  again. The sessions keep their token and their task. Without collisions a new session costs its
  task a token, and a task that is new has one.
\<close>

definition evolves :: "'x world \<Rightarrow> 'x world \<Rightarrow> bool" where
  "evolves w w' \<longleftrightarrow> (world_ok w \<longrightarrow> world_ok w' \<and> w_next w \<le> w_next w'
     \<and> (\<forall>r < w_next w. keeps_ctx (w_heap w r) (w_heap w' r))
     \<and> (\<forall>i. \<forall>r < w_next w. mget (ms_tasks (w_store w')) i = Some r \<longrightarrow> mget (ms_tasks (w_store w)) i = Some r)
     \<and> (\<forall>tok. \<forall>r < w_next w. GetByRegToken tok (w_store w') = Some r \<longrightarrow> GetByRegToken tok (w_store w) = Some r)
     \<and> sm_next (w_sessions w) \<le> sm_next (w_sessions w')
     \<and> (\<forall>s < sm_next (w_sessions w). s_TaskCtx (w_session w' s) = s_TaskCtx (w_session w s)
          \<and> s_SessionToken (w_session w' s) = s_SessionToken (w_session w s))
     \<and> (no_collisions w' \<longrightarrow> (\<forall>r < w_next w'. chances w' r \<le> (if r < w_next w then chances w r else 1))))"

text \<open>
  A task that has had a session is tended while it is not done: a session of it is in the
  registry, so the runner can report its end, and the GC loop will notice its silence. \<open>tends X\<close>
  says that the tasks outside \<open>X\<close> stay tended, as long as random tokens do not collide.
\<close>

definition tokens_ok :: "'x world \<Rightarrow> bool" where
  "tokens_ok w \<longleftrightarrow> (\<forall>tok. mget (ms_byReg (w_store w)) tok \<noteq> None \<longrightarrow> tok \<noteq> [])
     \<and> (\<forall>s < sm_next (w_sessions w). s_SessionToken (w_session w s) \<noteq> [])
     \<and> (\<forall>r < w_next w. SessionToken (w_heap w r) = []
          \<or> SessionToken (w_heap w r) \<in> (\<lambda>s. s_SessionToken (w_session w s)) ` set (admitted w r))
     \<and> (\<forall>c tok r. (c, ReqClaimed tok r) \<in> set (w_requests w) \<longrightarrow> tok \<noteq> [])"

definition unique_tokens :: "'x world \<Rightarrow> bool" where
  "unique_tokens w \<longleftrightarrow> distinct (map (\<lambda>s. s_SessionToken (w_session w s)) [0..<sm_next (w_sessions w)])"

definition watched :: "'x world \<Rightarrow> tref \<Rightarrow> bool" where
  "watched w r \<longleftrightarrow> (\<exists>tok s. Lookup tok (w_sessions w) = Some s \<and> s_TaskCtx (w_session w s) = r)"

definition tended :: "'x world \<Rightarrow> tref \<Rightarrow> bool" where
  "tended w r \<longleftrightarrow> (admitted w r \<noteq> [] \<longrightarrow> done_fired (w_heap w r) \<or> watched w r)"

definition tends :: "tref set \<Rightarrow> 'x world \<Rightarrow> 'x world \<Rightarrow> bool" where
  "tends X w w' \<longleftrightarrow> (world_ok w \<and> tokens_ok w \<longrightarrow> tokens_ok w'
     \<and> (unique_tokens w' \<longrightarrow> (\<forall>r < w_next w'. r \<notin> X \<and> (r < w_next w \<longrightarrow> tended w r) \<longrightarrow> tended w' r)))"

definition steady_on :: "tref set \<Rightarrow> 'x world \<Rightarrow> 'x world \<Rightarrow> bool" where
  "steady_on X w w' \<longleftrightarrow> slots_view w' = slots_view w \<and> w_requests w' = w_requests w \<and> evolves w w' \<and> tends X w w'"

abbreviation steady :: "'x world \<Rightarrow> 'x world \<Rightarrow> bool" where
  "steady \<equiv> steady_on {}"

definition quiet :: "('x world \<Rightarrow> 'x world) \<Rightarrow> bool" where
  "quiet f \<longleftrightarrow> (\<forall>w. steady w (f w))"

definition quiet_client :: "('x world) Client \<Rightarrow> bool" where
  "quiet_client c \<longleftrightarrow> (\<forall>req. quiet (\<lambda>w. fst (ForwardUpdateTask c req w)))
     \<and> (\<forall>req. quiet (\<lambda>w. fst (ForwardUpdateLog c req w))) \<and> (\<forall>i. quiet (HeartbeatTick c i))"

definition quiet_resolver :: "('x world) Resolver \<Rightarrow> bool" where
  "quiet_resolver R \<longleftrightarrow> (\<forall>name inst c. Resolve R name = Some (inst, c) \<longrightarrow> quiet_client c)"

definition quiet_trigger :: "'x trigger \<Rightarrow> bool" where
  "quiet_trigger trigger \<longleftrightarrow> (\<forall>t inst. quiet (\<lambda>w. fst (trigger t inst w)))"

definition quiet_fetch :: "'x fetch \<Rightarrow> bool" where
  "quiet_fetch fetch \<longleftrightarrow> quiet (\<lambda>w. fst (fetch w))"

lemma quiet_steady: "quiet f \<Longrightarrow> steady w (f w)"
  by (simp add: quiet_def)

lemma quiet_call:
  assumes "quiet_resolver R" "Resolve R name = Some (inst, c)"
  shows "quiet_client c" "steady w (fst (ForwardUpdateTask c req w))" "steady w (fst (ForwardUpdateLog c lreq w))"
    "steady w (HeartbeatTick c i w)"
proof -
  show c: "quiet_client c" using assms unfolding quiet_resolver_def by blast
  show "steady w (fst (ForwardUpdateTask c req w))" "steady w (fst (ForwardUpdateLog c lreq w))"
    "steady w (HeartbeatTick c i w)"
    using c by (simp_all add: quiet_client_def quiet_def)
qed

lemma quiet_fetched: "quiet_fetch fetch \<Longrightarrow> fetch w = (w1, res) \<Longrightarrow> steady w w1"
  unfolding quiet_fetch_def quiet_def by (metis fst_conv)

lemma quiet_triggered: "quiet_trigger trigger \<Longrightarrow> trigger t inst w = (w1, res) \<Longrightarrow> steady w w1"
  unfolding quiet_trigger_def quiet_def by (metis fst_conv)

section \<open>The relation\<close>

lemma world_okD:
  assumes "world_ok w"
  shows "ms_ok (w_store w)" "sm_ok (w_sessions w)"
    "mget (ms_tasks (w_store w)) i = Some r \<Longrightarrow> r < w_next w"
    "mget (ms_tasks (w_store w)) i = Some r \<Longrightarrow> t_ID (w_heap w r) = i"
    "s < sm_next (w_sessions w) \<Longrightarrow> s_TaskCtx (w_session w s) < w_next w"
    "r < w_next w \<Longrightarrow> signalled (w_heap w r) \<Longrightarrow> admitted w r \<noteq> []"
    "no_collisions w \<Longrightarrow> GetByRegToken tok (w_store w) = Some r \<Longrightarrow> t_RegToken (w_heap w r) = tok"
    "q \<in> set (w_requests w) \<Longrightarrow> request_ok w q"
  using assms unfolding world_ok_def by blast+

lemma token_task_known: "world_ok w \<Longrightarrow> GetByRegToken tok (w_store w) = Some r \<Longrightarrow> r < w_next w"
  using world_okD(3) by (fastforce simp: GetByRegToken_def split: option.splits)

lemma evolvesD:
  assumes "evolves w w'" "world_ok w"
  shows "world_ok w'" "w_next w \<le> w_next w'"
    "r < w_next w \<Longrightarrow> keeps_ctx (w_heap w r) (w_heap w' r)"
    "r < w_next w \<Longrightarrow> mget (ms_tasks (w_store w')) i = Some r \<Longrightarrow> mget (ms_tasks (w_store w)) i = Some r"
    "r < w_next w \<Longrightarrow> GetByRegToken tok (w_store w') = Some r \<Longrightarrow> GetByRegToken tok (w_store w) = Some r"
    "sm_next (w_sessions w) \<le> sm_next (w_sessions w')"
    "s < sm_next (w_sessions w) \<Longrightarrow> s_TaskCtx (w_session w' s) = s_TaskCtx (w_session w s)"
    "s < sm_next (w_sessions w) \<Longrightarrow> s_SessionToken (w_session w' s) = s_SessionToken (w_session w s)"
    "no_collisions w' \<Longrightarrow> r < w_next w' \<Longrightarrow> chances w' r \<le> (if r < w_next w then chances w r else 1)"
  using assms unfolding evolves_def by blast+

lemma keeps_ctx_refl [simp]: "keeps_ctx t t"
  by (simp add: keeps_ctx_def same_task_def)

lemma keeps_ctx_trans: "keeps_ctx t u \<Longrightarrow> keeps_ctx u v \<Longrightarrow> keeps_ctx t v"
  by (simp add: keeps_ctx_def same_task_def)

lemma keeps_ctx_ID: "keeps_ctx t t' \<Longrightarrow> t_ID t' = t_ID t"
  by (simp add: keeps_ctx_def same_task_def)

lemma evolves_refl [simp, intro]: "evolves w w"
  by (simp add: evolves_def)

lemma set_admitted: "s \<in> set (admitted w r) \<longleftrightarrow> s < sm_next (w_sessions w) \<and> s_TaskCtx (w_session w s) = r"
  by (auto simp: admitted_def)

lemma set_open_tokens: "tok \<in> set (open_tokens m r) \<longleftrightarrow> GetByRegToken tok m = Some r"
  by (auto simp: open_tokens_def GetByRegToken_Some intro: mget_Some_key)

lemma distinct_admitted: "distinct (admitted w r)"
  by (simp add: admitted_def)

lemma distinct_open_tokens: "ms_ok m \<Longrightarrow> distinct (open_tokens m r)"
  using ms_okD(2) by (simp add: open_tokens_def gomap_ok_def)

lemma length_le_if_subset: "distinct xs \<Longrightarrow> set xs \<subseteq> set ys \<Longrightarrow> length xs \<le> length ys"
  by (metis card_length card_mono distinct_card finite_set le_trans)

lemma open_tokens_shrink:
  assumes "ms_ok m'" "\<And>tok. GetByRegToken tok m' = Some r \<Longrightarrow> GetByRegToken tok m = Some r"
  shows "length (open_tokens m' r) \<le> length (open_tokens m r)"
  using distinct_open_tokens [OF assms(1)] assms(2) by (intro length_le_if_subset) (auto simp: set_open_tokens)

lemma admitted_evolves:
  assumes "evolves w w'" "world_ok w" "admitted w r \<noteq> []"
  shows "admitted w' r \<noteq> []"
proof -
  obtain s where "s \<in> set (admitted w r)" using assms(3) by (cases "admitted w r") auto
  then have "s \<in> set (admitted w' r)" using evolvesD(6,7) [OF assms(1,2)] by (auto simp: set_admitted intro: less_le_trans)
  then show ?thesis by auto
qed

text \<open>Ids and tokens that are distinct at the end were distinct before, as tasks keep theirs.\<close>

lemma distinct_before:
  assumes "m \<le> n" "\<And>r. r < m \<Longrightarrow> g r = f r" "distinct (map g [0..<n])"
  shows "distinct (map f [0..<m])"
proof -
  have "inj_on g {..<n}" using assms(3) by (simp add: distinct_map atLeast0LessThan)
  then have "inj_on g {..<m}" by (rule inj_on_subset) (use assms(1) in auto)
  then have "inj_on f {..<m}" by (rule inj_on_cong [THEN iffD1, rotated]) (simp add: assms(2))
  then show ?thesis by (simp add: distinct_map atLeast0LessThan)
qed

lemma no_collisions_before:
  assumes "w_next w \<le> w_next w'" "\<And>r. r < w_next w \<Longrightarrow> keeps_ctx (w_heap w r) (w_heap w' r)" "no_collisions w'"
  shows "no_collisions w"
proof -
  have k: "t_ID (w_heap w' r) = t_ID (w_heap w r)" "t_RegToken (w_heap w' r) = t_RegToken (w_heap w r)"
    if "r < w_next w" for r using assms(2) [OF that] by (simp_all add: keeps_ctx_def same_task_def)
  show ?thesis
    unfolding no_collisions_def
    using assms(3) distinct_before [OF assms(1) k(1)] distinct_before [OF assms(1) k(2)]
    unfolding no_collisions_def by simp
qed

lemma no_collisionsD:
  assumes "no_collisions w" "r < w_next w" "r' < w_next w"
    and "t_ID (w_heap w r) = t_ID (w_heap w r') \<or> t_RegToken (w_heap w r) = t_RegToken (w_heap w r')"
  shows "r = r'"
proof -
  have "inj_on (\<lambda>r. t_ID (w_heap w r)) {0..<w_next w}" "inj_on (\<lambda>r. t_RegToken (w_heap w r)) {0..<w_next w}"
    using assms(1) by (simp_all add: no_collisions_def distinct_map)
  then show ?thesis using assms(2-4) by (auto dest: inj_onD)
qed

text \<open>What holds of a request is kept while the world evolves.\<close>

lemma request_ok_kept:
  assumes "request_ok w q" "w_next w \<le> w_next w'" "\<And>r. r < w_next w \<Longrightarrow> keeps_ctx (w_heap w r) (w_heap w' r)"
    and "\<And>tok r. r < w_next w \<Longrightarrow> GetByRegToken tok (w_store w') = Some r \<Longrightarrow> GetByRegToken tok (w_store w) = Some r"
    and "sm_next (w_sessions w) \<le> sm_next (w_sessions w')"
    and "\<And>s. s < sm_next (w_sessions w) \<Longrightarrow> s_TaskCtx (w_session w' s) = s_TaskCtx (w_session w s)
      \<and> s_SessionToken (w_session w' s) = s_SessionToken (w_session w s) \<and> s_TaskCtx (w_session w s) < w_next w"
  shows "request_ok w' q"
proof -
  have nc: "no_collisions w' \<Longrightarrow> no_collisions w" by (rule no_collisions_before [OF assms(2,3)])
  have ctx: "t_RegToken (w_heap w' r) = t_RegToken (w_heap w r)" "done_fired (w_heap w r) \<Longrightarrow> done_fired (w_heap w' r)"
    if "r < w_next w" for r using assms(3) [OF that] by (simp_all add: keeps_ctx_def same_task_def)
  have act: "acts_for c s w' \<and> s_TaskCtx (w_session w' s) = s_TaskCtx (w_session w s)
      \<and> s_SessionToken (w_session w' s) = s_SessionToken (w_session w s) \<and> s_TaskCtx (w_session w s) < w_next w"
    if "acts_for c s w" for c s
    using that assms(5) assms(6) [of s] by (auto simp: acts_for_def)
  obtain c pc where q: "q = (c, pc)" by fastforce
  show ?thesis
    using assms(1,2,4) nc ctx act unfolding q request_ok_def prod.case
    by (cases pc) (auto intro: less_le_trans)
qed

lemma evolves_trans [trans]:
  assumes "evolves u v" "evolves v w"
  shows "evolves u w"
  unfolding evolves_def
proof (intro impI)
  assume ok: "world_ok u"
  note a = evolvesD [OF assms(1) ok]
  note b = evolvesD [OF assms(2) a(1)]
  have lt: "r < w_next v" if "r < w_next u" for r using a(2) that by simp
  have "keeps_ctx (w_heap u r) (w_heap w r)" if "r < w_next u" for r
    using a(3) [OF that] b(3) [OF lt [OF that]] by (rule keeps_ctx_trans)
  moreover have "mget (ms_tasks (w_store u)) i = Some r"
    if "r < w_next u" "mget (ms_tasks (w_store w)) i = Some r" for i r
    using a(4) b(4) lt that by blast
  moreover have "GetByRegToken tok (w_store u) = Some r"
    if "r < w_next u" "GetByRegToken tok (w_store w) = Some r" for tok r
    using a(5) b(5) lt that by blast
  moreover have "s_TaskCtx (w_session w s) = s_TaskCtx (w_session u s)"
      "s_SessionToken (w_session w s) = s_SessionToken (w_session u s)" if "s < sm_next (w_sessions u)" for s
  proof -
    have "s < sm_next (w_sessions v)" using a(6) that by simp
    then show "s_TaskCtx (w_session w s) = s_TaskCtx (w_session u s)"
      "s_SessionToken (w_session w s) = s_SessionToken (w_session u s)"
      using a(7,8) [OF that] b(7,8) by simp_all
  qed
  moreover have "chances w r \<le> (if r < w_next u then chances u r else 1)"
    if nc: "no_collisions w" and r: "r < w_next w" for r
  proof -
    have "no_collisions v" by (rule no_collisions_before [OF b(2,3) nc])
    then have "r < w_next v \<Longrightarrow> chances v r \<le> (if r < w_next u then chances u r else 1)" by (rule a(9))
    then show ?thesis using b(9) [OF nc r] lt [of r] by (auto split: if_splits)
  qed
  moreover have "world_ok w" "w_next u \<le> w_next w" "sm_next (w_sessions u) \<le> sm_next (w_sessions w)"
    using a b by simp_all
  ultimately show "world_ok w \<and> w_next u \<le> w_next w
     \<and> (\<forall>r < w_next u. keeps_ctx (w_heap u r) (w_heap w r))
     \<and> (\<forall>i. \<forall>r < w_next u. mget (ms_tasks (w_store w)) i = Some r \<longrightarrow> mget (ms_tasks (w_store u)) i = Some r)
     \<and> (\<forall>tok. \<forall>r < w_next u. GetByRegToken tok (w_store w) = Some r \<longrightarrow> GetByRegToken tok (w_store u) = Some r)
     \<and> sm_next (w_sessions u) \<le> sm_next (w_sessions w)
     \<and> (\<forall>s < sm_next (w_sessions u). s_TaskCtx (w_session w s) = s_TaskCtx (w_session u s)
          \<and> s_SessionToken (w_session w s) = s_SessionToken (w_session u s))
     \<and> (no_collisions w \<longrightarrow> (\<forall>r < w_next w. chances w r \<le> (if r < w_next u then chances u r else 1)))" by blast
qed

text \<open>To show that the world evolves, its own invariant may be assumed.\<close>

lemma evolves_if_ok: "(world_ok w \<Longrightarrow> evolves w w') \<Longrightarrow> evolves w w'"
  unfolding evolves_def by blast

lemma evolves_via: "evolves v w' \<Longrightarrow> evolves w v \<Longrightarrow> evolves w w'"
  by (rule evolves_trans)

section \<open>Atomic operations\<close>

text \<open>
  Changes that allocate no task: signals are kept and only a task with a session gets a new one, the
  store loses entries at most, sessions are added at most, and a request goes on only to what holds of it.
\<close>

lemma evolves_known:
  assumes ok: "world_ok w" and "w_next w' = w_next w" and "\<And>r. keeps_ctx (w_heap w r) (w_heap w' r)"
    and "\<And>r. signalled (w_heap w' r) \<Longrightarrow> signalled (w_heap w r) \<or> admitted w r \<noteq> []"
    and "ms_ok (w_store w')"
    and "\<And>i r. mget (ms_tasks (w_store w')) i = Some r \<Longrightarrow> mget (ms_tasks (w_store w)) i = Some r"
    and "\<And>tok r. GetByRegToken tok (w_store w') = Some r \<Longrightarrow> GetByRegToken tok (w_store w) = Some r"
    and "sm_ok (w_sessions w')" and "sm_next (w_sessions w) \<le> sm_next (w_sessions w')"
    and "\<And>s. s < sm_next (w_sessions w) \<Longrightarrow> s_TaskCtx (w_session w' s) = s_TaskCtx (w_session w s)
      \<and> s_SessionToken (w_session w' s) = s_SessionToken (w_session w s)"
    and "\<And>s. s < sm_next (w_sessions w') \<Longrightarrow> s_TaskCtx (w_session w' s) < w_next w"
    and "\<And>q. q \<in> set (w_requests w') \<Longrightarrow> q \<notin> set (w_requests w) \<Longrightarrow> request_ok w' q"
    and "\<And>r. no_collisions w \<Longrightarrow> r < w_next w \<Longrightarrow> chances w' r \<le> chances w r"
  shows "evolves w w'"
proof -
  have nc: "no_collisions w' \<longleftrightarrow> no_collisions w"
    using assms(3) by (simp add: no_collisions_def assms(2) keeps_ctx_def same_task_def)
  have adm: "set (admitted w r) \<subseteq> set (admitted w' r)" for r
    using assms(9,10) by (auto simp: set_admitted intro: less_le_trans)
  have "request_ok w' q" if "q \<in> set (w_requests w')" for q
  proof (cases "q \<in> set (w_requests w)")
    case True
    then show ?thesis
      by (rule request_ok_kept [OF world_okD(8) [OF ok]]) (use assms(2,3,7,9,10) world_okD(5) [OF ok] in auto)
  qed (use assms(12) that in blast)
  moreover have "admitted w' r \<noteq> []" if "r < w_next w" "signalled (w_heap w' r)" for r
    using assms(4) [OF that(2)] world_okD(6) [OF ok that(1)] adm [of r] by auto
  moreover have "t_RegToken (w_heap w' r) = tok" if "no_collisions w" "GetByRegToken tok (w_store w') = Some r" for tok r
    using world_okD(7) [OF ok that(1) assms(7) [OF that(2)]] assms(3) [of r] by (simp add: keeps_ctx_def same_task_def)
  moreover have "r < w_next w \<and> t_ID (w_heap w' r) = i" if "mget (ms_tasks (w_store w')) i = Some r" for i r
    using world_okD(3,4) [OF ok assms(6) [OF that]] keeps_ctx_ID [OF assms(3)] by simp
  ultimately have "world_ok w'" unfolding world_ok_def nc using assms(2,5,8,11) by simp
  then show "evolves w w'"
    unfolding evolves_def nc using assms(2,3,6,7,9,10,13) by simp
qed

lemma evolves_local:
  assumes "w_next w' = w_next w" and "\<And>r. keeps_ctx (w_heap w r) (w_heap w' r)"
    and "\<And>r. signalled (w_heap w' r) \<Longrightarrow> signalled (w_heap w r) \<or> admitted w r \<noteq> []"
    and "ms_ok (w_store w) \<Longrightarrow> ms_ok (w_store w')"
    and "\<And>i r. mget (ms_tasks (w_store w')) i = Some r \<Longrightarrow> mget (ms_tasks (w_store w)) i = Some r"
    and "\<And>tok r. GetByRegToken tok (w_store w') = Some r \<Longrightarrow> GetByRegToken tok (w_store w) = Some r"
    and "sm_ok (w_sessions w) \<Longrightarrow> sm_ok (w_sessions w')"
    and "sm_next (w_sessions w') = sm_next (w_sessions w)"
    and "\<And>s. s_TaskCtx (w_session w' s) = s_TaskCtx (w_session w s)
      \<and> s_SessionToken (w_session w' s) = s_SessionToken (w_session w s)"
    and "w_requests w' = w_requests w"
  shows "evolves w w'"
proof (rule evolves_if_ok)
  assume ok: "world_ok w"
  have adm: "admitted w' r = admitted w r" for r by (simp add: admitted_def assms(8,9))
  have "chances w' r \<le> chances w r" for r
    using open_tokens_shrink [OF assms(4) assms(6)] world_okD(1) [OF ok]
    by (simp add: chances_def adm claims_def assms(10))
  then show "evolves w w'"
    using world_okD(1,2,5) [OF ok] by (intro evolves_known [OF ok]) (use assms in auto)
qed

lemma evolves_frame:
  assumes "w_heap w' = w_heap w" "w_store w' = w_store w" "w_sessions w' = w_sessions w" "w_next w' = w_next w"
    and "w_requests w' = w_requests w"
  shows "evolves w w'"
  by (rule evolves_local) (simp_all add: assms)

lemma evolves_release [intro]: "evolves w (w_release w)"
  by (rule evolves_frame) simp_all

lemma evolves_registry [intro]: "evolves w (w\<lparr>w_registry := reg\<rparr>)"
  by (rule evolves_frame) simp_all

lemma evolves_ext [intro]: "evolves w (w\<lparr>w_ext := x\<rparr>)"
  by (rule evolves_frame) simp_all

lemma evolves_modify:
  assumes "\<And>t. keeps_ctx t (f t)" and "\<And>t. signalled (f t) \<Longrightarrow> signalled t \<or> admitted w r \<noteq> []"
  shows "evolves w (w_modify r f w)"
  by (rule evolves_local) (use assms in \<open>auto split: if_splits\<close>)

lemma keeps_ctx_ops [simp]:
  "keeps_ctx t (SetStatus s t)" "keeps_ctx t (SetSessionToken tok t)" "keeps_ctx t (MarkDispatched t)"
  "keeps_ctx t (MarkRunnerRegistered t)" "keeps_ctx t (MarkDone t)" "keeps_ctx t (fst (Done t))"
  "keeps_ctx t (fst (Registered t))" "keeps_ctx t (fst (Registered (fst (Done t))))"
  by (simp_all add: keeps_ctx_def same_task_def taskctx_defs)

lemma signalled_ops [simp]:
  "signalled (SetStatus s t) = signalled t" "signalled (SetSessionToken tok t) = signalled t"
  "signalled (MarkDispatched t) = signalled t" "signalled (fst (Done t)) = signalled t"
  "signalled (fst (Registered t)) = signalled t"
  by (simp_all add: signalled_def taskctx_defs)

text \<open>Removing from the store: from its tasks, from its index, or from both.\<close>

lemma evolves_shrink:
  assumes "\<And>i r. mget (ms_tasks st) i = Some r \<Longrightarrow> mget (ms_tasks (w_store w)) i = Some r"
    and "\<And>tok i. mget (ms_byReg st) tok = Some i \<Longrightarrow> mget (ms_byReg (w_store w)) tok = Some i"
    and "ms_ok st"
  shows "evolves w (w\<lparr>w_store := st\<rparr>)"
proof -
  have g: "GetByRegToken tok (w_store w) = Some r" if "GetByRegToken tok st = Some r" for tok r
    using that assms(1,2) unfolding GetByRegToken_Some by blast
  show ?thesis by (rule evolves_local) (use assms g in simp_all)
qed

lemma evolves_remove_task: "evolves w (w_remove_task i w)"
proof (rule evolves_if_ok)
  assume "world_ok w"
  then have ok: "ms_ok (w_store w)" by (rule world_okD)
  show "evolves w (w_remove_task i w)"
    unfolding w_remove_task_def
    by (rule evolves_shrink) (auto simp: Remove_def removeLocked_lookup [OF ok] ok split: if_splits)
qed

lemma evolves_reap: "evolves w (w\<lparr>w_store := gc_remove ids (w_store w)\<rparr>)"
proof (rule evolves_if_ok)
  assume "world_ok w"
  then have ok: "ms_ok (w_store w)" by (rule world_okD)
  show "evolves w (w\<lparr>w_store := gc_remove ids (w_store w)\<rparr>)"
    by (rule evolves_shrink)
      (auto simp: gc_remove_def fold_removeLocked_lookup [OF ok] fold_removeLocked_ok ok
        split: if_splits option.splits)
qed

lemma evolves_consume: "evolves w (fst (w_consume tok w))"
proof (rule evolves_if_ok)
  assume "world_ok w"
  then have ok: "ms_ok (w_store w)" by (rule world_okD)
  have "fst (w_consume tok w) = w\<lparr>w_store := fst (MarkRegTokenConsumed tok (w_store w))\<rparr>"
    by (simp add: w_consume_def split_beta Let_def)
  moreover have "evolves w (w\<lparr>w_store := fst (MarkRegTokenConsumed tok (w_store w))\<rparr>)"
    by (rule evolves_shrink)
      (use consume_ok [OF ok] in \<open>auto simp: MarkRegTokenConsumed_def split: option.splits if_splits\<close>)
  ultimately show "evolves w (fst (w_consume tok w))" by simp
qed

text \<open>Changes of the sessions that keep the tokens and tasks of those handed out.\<close>

lemma evolves_sessions:
  assumes "sm_ok (w_sessions w) \<Longrightarrow> sm_ok m" and "sm_next m = sm_next (w_sessions w)"
    and "\<And>s. s_TaskCtx (sm_objs m s) = s_TaskCtx (w_session w s)
      \<and> s_SessionToken (sm_objs m s) = s_SessionToken (w_session w s)"
  shows "evolves w (w\<lparr>w_sessions := m\<rparr>)"
  by (rule evolves_local) (use assms in simp_all)

lemma evolves_remove_session: "evolves w (w_remove_session tok w)"
  unfolding w_remove_session_def
proof (rule evolves_sessions)
  show "sm_ok (Remove_session tok (w_sessions w))" if "sm_ok (w_sessions w)"
    using that by simp
qed (simp_all add: Remove_session_def)

lemma evolves_touch: "evolves w (fst (w_touch now tok w))"
proof -
  have "fst (w_touch now tok w) = w\<lparr>w_sessions := fst (Touch now tok (w_sessions w))\<rparr>"
    by (simp add: w_touch_def split_beta Let_def)
  moreover have "evolves w (w\<lparr>w_sessions := fst (Touch now tok (w_sessions w))\<rparr>)"
  proof (rule evolves_sessions)
    show "sm_ok (fst (Touch now tok (w_sessions w)))" if "sm_ok (w_sessions w)"
      using that by simp
  qed (auto simp: Touch_def split: option.split)
  ultimately show ?thesis by simp
qed

lemma evolves_Expire: "evolves w (w\<lparr>w_sessions := fst (Expire now maxAge (w_sessions w))\<rparr>)"
proof (rule evolves_sessions)
  show "sm_ok (fst (Expire now maxAge (w_sessions w)))" if "sm_ok (w_sessions w)"
    using that by simp
qed simp_all

text \<open>The name and the labels of a session.\<close>

lemma evolves_set_session:
  assumes "\<And>x. s_TaskCtx (f x) = s_TaskCtx x \<and> s_SessionToken (f x) = s_SessionToken x"
  shows "evolves w (w_set_session s f w)"
  unfolding w_set_session_def by (rule evolves_sessions) (auto simp: sm_ok_def assms)

section \<open>Tended tasks\<close>

lemma tokens_okD:
  assumes "tokens_ok w"
  shows "mget (ms_byReg (w_store w)) tok \<noteq> None \<Longrightarrow> tok \<noteq> []"
    "s < sm_next (w_sessions w) \<Longrightarrow> s_SessionToken (w_session w s) \<noteq> []"
    "r < w_next w \<Longrightarrow> SessionToken (w_heap w r) \<noteq> [] \<Longrightarrow>
      SessionToken (w_heap w r) \<in> (\<lambda>s. s_SessionToken (w_session w s)) ` set (admitted w r)"
    "(c, ReqClaimed tok r) \<in> set (w_requests w) \<Longrightarrow> tok \<noteq> []"
  using assms unfolding tokens_ok_def by blast+

lemma unique_tokensD:
  assumes "unique_tokens w" "s < sm_next (w_sessions w)" "s' < sm_next (w_sessions w)"
    and "s_SessionToken (w_session w s) = s_SessionToken (w_session w s')"
  shows "s = s'"
  using assms by (auto simp: unique_tokens_def distinct_map inj_on_def)

text \<open>Tokens that are distinct at the end were distinct before, as sessions keep theirs.\<close>

lemma unique_tokens_before:
  assumes "evolves w w'" "world_ok w" "unique_tokens w'"
  shows "unique_tokens w"
proof -
  let ?t = "\<lambda>w s. s_SessionToken (w_session w s)"
  note e = evolvesD [OF assms(1,2)]
  have "inj_on (?t w') {..<sm_next (w_sessions w')}"
    using assms(3) by (simp add: unique_tokens_def distinct_map atLeast0LessThan)
  then have "inj_on (?t w') {..<sm_next (w_sessions w)}" by (rule inj_on_subset) (use e(6) in auto)
  then have "inj_on (?t w) {..<sm_next (w_sessions w)}"
    by (rule inj_on_cong [THEN iffD1, rotated]) (simp add: e(8))
  then show ?thesis by (simp add: unique_tokens_def distinct_map atLeast0LessThan)
qed

lemma watchedI: "Lookup tok (w_sessions w) = Some s \<Longrightarrow> s_TaskCtx (w_session w s) = r \<Longrightarrow> watched w r"
  unfolding watched_def by blast

lemma watched_session:
  assumes "sm_ok (w_sessions w)" "watched w r"
  shows "\<exists>s < sm_next (w_sessions w). s_TaskCtx (w_session w s) = r
    \<and> Lookup (s_SessionToken (w_session w s)) (w_sessions w) = Some s"
  using assms(2) sm_okD(2,3) [OF assms(1)] unfolding watched_def Lookup_def by metis

lemma watched_admitted:
  assumes "world_ok w" "watched w r"
  shows "admitted w r \<noteq> []"
proof -
  obtain s where "s \<in> set (admitted w r)"
    using watched_session [OF world_okD(2) [OF assms(1)] assms(2)] set_admitted by metis
  then show ?thesis by auto
qed

lemma tended_done: "done_fired (w_heap w r) \<Longrightarrow> tended w r"
  by (simp add: tended_def)

lemma tended_watched: "watched w r \<Longrightarrow> tended w r"
  by (simp add: tended_def)

lemma tendsD:
  assumes "tends X w w'" "world_ok w" "tokens_ok w"
  shows "tokens_ok w'"
    "unique_tokens w' \<Longrightarrow> r < w_next w' \<Longrightarrow> r \<notin> X \<Longrightarrow> (r < w_next w \<Longrightarrow> tended w r) \<Longrightarrow> tended w' r"
  using assms unfolding tends_def by blast+

lemma tends_refl [simp, intro]: "tends X w w"
  by (simp add: tends_def)

lemma tends_if_ok: "(world_ok w \<Longrightarrow> tokens_ok w \<Longrightarrow> tends X w w') \<Longrightarrow> tends X w w'"
  unfolding tends_def by blast

lemma tends_trans:
  assumes "tends X u v" "evolves u v" "tends X v w" "evolves v w"
  shows "tends X u w"
proof (rule tends_if_ok)
  assume ok: "world_ok u" "tokens_ok u"
  note okv = evolvesD(1) [OF assms(2) ok(1)]
  note a = tendsD [OF assms(1) ok] and b = tendsD [OF assms(3) okv]
  have "tended w r"
    if u: "unique_tokens w" and r: "r < w_next w" "r \<notin> X" "r < w_next u \<longrightarrow> tended u r" for r
    using b(2) [OF a(1) u r(1,2)] a(2) [OF unique_tokens_before [OF assms(4) okv u] _ r(2)] r(3) by blast
  then show "tends X u w" unfolding tends_def using b(1) [OF a(1)] by blast
qed

lemma tends_mono: "tends X w w' \<Longrightarrow> X \<subseteq> Y \<Longrightarrow> tends Y w w'"
  unfolding tends_def by blast

text \<open>Changes that create no session and no task.\<close>

lemma tends_local:
  assumes "w_next w' = w_next w" "sm_next (w_sessions w') = sm_next (w_sessions w)"
    and "\<And>s. s_TaskCtx (w_session w' s) = s_TaskCtx (w_session w s)
      \<and> s_SessionToken (w_session w' s) = s_SessionToken (w_session w s)"
    and "\<And>r. SessionToken (w_heap w' r) \<noteq> SessionToken (w_heap w r) \<Longrightarrow> world_ok w \<Longrightarrow>
      SessionToken (w_heap w' r) \<in> (\<lambda>s. s_SessionToken (w_session w s)) ` set (admitted w r)"
    and "\<And>tok. mget (ms_byReg (w_store w')) tok \<noteq> None \<Longrightarrow> mget (ms_byReg (w_store w)) tok \<noteq> None"
    and "\<And>c tok r. (c, ReqClaimed tok r) \<in> set (w_requests w') \<Longrightarrow> tokens_ok w \<Longrightarrow>
      (c, ReqClaimed tok r) \<in> set (w_requests w) \<or> tok \<noteq> []"
    and "\<And>r. world_ok w \<Longrightarrow> tokens_ok w \<Longrightarrow> unique_tokens w \<Longrightarrow> r < w_next w \<Longrightarrow> r \<notin> X \<Longrightarrow>
      tended w r \<Longrightarrow> tended w' r"
  shows "tends X w w'"
proof (rule tends_if_ok)
  assume ok: "world_ok w" "tokens_ok w"
  have adm: "admitted w' r = admitted w r" for r by (simp add: admitted_def assms(2,3))
  have u: "unique_tokens w' = unique_tokens w" by (simp add: unique_tokens_def assms(2,3))
  have "tokens_ok w'"
    unfolding tokens_ok_def adm
  proof (intro conjI allI impI)
    show "tok \<noteq> []" if "mget (ms_byReg (w_store w')) tok \<noteq> None" for tok
      using tokens_okD(1) [OF ok(2)] assms(5) that by blast
    show "tok \<noteq> []" if "(c, ReqClaimed tok r) \<in> set (w_requests w')" for c tok r
      using tokens_okD(4) [OF ok(2)] assms(6) [OF that ok(2)] by blast
    show "SessionToken (w_heap w' r) = []
        \<or> SessionToken (w_heap w' r) \<in> (\<lambda>s. s_SessionToken (w_session w' s)) ` set (admitted w r)" if "r < w_next w'" for r
      using tokens_okD(3) [OF ok(2), of r] assms(4) [of r] ok(1) that assms(1)
      by (cases "SessionToken (w_heap w' r) = SessionToken (w_heap w r)") (auto simp: assms(3))
  qed (use tokens_okD(2) [OF ok(2)] assms(2,3) in auto)
  then show "tends X w w'" unfolding tends_def u using assms(1,7) ok by simp
qed

text \<open>A task that gets no session, whose signal is kept, and whose session is not removed.\<close>

lemma tended_same:
  assumes "tended w r" "admitted w' r = [] \<longleftrightarrow> admitted w r = []"
    and "done_fired (w_heap w r) \<Longrightarrow> done_fired (w_heap w' r)" "watched w r \<Longrightarrow> watched w' r"
  shows "tended w' r"
  using assms by (auto simp: tended_def)

lemma admitted_same:
  assumes "sm_next (w_sessions w') = sm_next (w_sessions w)"
    and "\<And>s. s_TaskCtx (w_session w' s) = s_TaskCtx (w_session w s)"
  shows "admitted w' r = admitted w r"
  by (simp add: admitted_def assms)

lemma watched_same:
  assumes "\<And>tok. Lookup tok (w_sessions w') = Lookup tok (w_sessions w)"
    and "\<And>s. s_TaskCtx (w_session w' s) = s_TaskCtx (w_session w s)"
  shows "watched w' r = watched w r"
  by (simp add: watched_def assms)

lemma tends_frame:
  assumes "w_heap w' = w_heap w" "w_next w' = w_next w" "sm_next (w_sessions w') = sm_next (w_sessions w)"
    and "\<And>s. s_TaskCtx (w_session w' s) = s_TaskCtx (w_session w s)
      \<and> s_SessionToken (w_session w' s) = s_SessionToken (w_session w s)"
    and "\<And>tok. Lookup tok (w_sessions w') = Lookup tok (w_sessions w)"
    and "\<And>tok. mget (ms_byReg (w_store w')) tok \<noteq> None \<Longrightarrow> mget (ms_byReg (w_store w)) tok \<noteq> None"
    and "\<And>c tok r. (c, ReqClaimed tok r) \<in> set (w_requests w') \<Longrightarrow> tokens_ok w \<Longrightarrow>
      (c, ReqClaimed tok r) \<in> set (w_requests w) \<or> tok \<noteq> []"
  shows "tends X w w'"
proof (rule tends_local)
  show "tended w' r" if "tended w r" for r
    using that admitted_same [of w' w r] watched_same [of w' w r] assms(1,3-5) by (simp add: tended_def)
qed (use assms in simp_all)

text \<open>A session that leaves the registry belongs to a task of \<open>X\<close>.\<close>

lemma tends_remove_session:
  assumes "tokens_ok w \<Longrightarrow> tok \<noteq> [] \<Longrightarrow> X = UNIV
    \<or> (\<exists>s < sm_next (w_sessions w). s_SessionToken (w_session w s) = tok \<and> s_TaskCtx (w_session w s) \<in> X)"
  shows "tends X w (w_remove_session tok w)"
proof (rule tends_local)
  fix r assume ok: "world_ok w" "tokens_ok w" "unique_tokens w" and r: "r \<notin> X" "tended w r"
  note sm = world_okD(2) [OF ok(1)]
  have "watched (w_remove_session tok w) r" if wa: "watched w r"
  proof -
    obtain s where s: "s < sm_next (w_sessions w)" "s_TaskCtx (w_session w s) = r"
      "Lookup (s_SessionToken (w_session w s)) (w_sessions w) = Some s"
      using watched_session [OF sm wa] by blast
    have "s_SessionToken (w_session w s) \<noteq> tok"
    proof
      assume t: "s_SessionToken (w_session w s) = tok"
      then obtain s' where "s' < sm_next (w_sessions w)" "s_SessionToken (w_session w s') = tok"
        "s_TaskCtx (w_session w s') \<in> X"
        using assms [OF ok(2)] tokens_okD(2) [OF ok(2) s(1)] r(1) by blast
      then show False using unique_tokensD [OF ok(3) s(1)] t s(2) r(1) by metis
    qed
    then have "Lookup (s_SessionToken (w_session w s)) (w_sessions (w_remove_session tok w)) = Some s"
      using s(3) by simp
    then show ?thesis using s(2) unfolding watched_def by (auto simp: Remove_session_def)
  qed
  then show "tended (w_remove_session tok w) r"
    by (intro tended_same [OF r(2)]) (simp_all add: admitted_def Remove_session_def)
qed (simp_all add: Remove_session_def)

lemma tends_Expire:
  assumes "\<And>s. s \<in> set (snd (Expire now maxAge (w_sessions w))) \<Longrightarrow> s_TaskCtx (w_session w s) \<in> X"
  shows "tends X w (w\<lparr>w_sessions := fst (Expire now maxAge (w_sessions w))\<rparr>)"
proof (rule tends_local)
  let ?w = "w\<lparr>w_sessions := fst (Expire now maxAge (w_sessions w))\<rparr>"
  fix r assume ok: "world_ok w" and r: "r \<notin> X" "tended w r"
  note sm = world_okD(2) [OF ok]
  have "watched ?w r" if wa: "watched w r"
  proof -
    obtain s where s: "s_TaskCtx (w_session w s) = r" "Lookup (s_SessionToken (w_session w s)) (w_sessions w) = Some s"
      using watched_session [OF sm wa] by blast
    have "\<not> expire_due now maxAge (w_session w s)"
      using s assms [of s] r(1) Expire_returned [OF sm, of s now maxAge] by blast
    then have "Lookup (s_SessionToken (w_session w s)) (w_sessions ?w) = Some s"
      using s(2) by (simp add: Expire_lookup [OF sm])
    then show ?thesis using s(1) unfolding watched_def by auto
  qed
  then show "tended ?w r" by (intro tended_same [OF r(2)]) (simp_all add: admitted_def)
qed simp_all

section \<open>Steady changes\<close>

lemma steady_refl [simp, intro]: "steady_on X w w"
  by (simp add: steady_on_def)

lemma steady_trans [trans]: "steady_on X u v \<Longrightarrow> steady_on X v w \<Longrightarrow> steady_on X u w"
  by (auto simp: steady_on_def intro: evolves_trans tends_trans)

lemma steady_mono: "steady_on X w w' \<Longrightarrow> X \<subseteq> Y \<Longrightarrow> steady_on Y w w'"
  by (auto simp: steady_on_def intro: tends_mono)

lemma steady_any: "steady w w' \<Longrightarrow> steady_on X w w'"
  by (rule steady_mono [OF _ empty_subsetI])

lemma steady_evolves: "steady_on X w w' \<Longrightarrow> evolves w w'"
  by (simp add: steady_on_def)

lemma steady_tends: "steady_on X w w' \<Longrightarrow> tends X w w'"
  by (simp add: steady_on_def)

lemma steady_view: "steady_on X w w' \<Longrightarrow> slots_view w' = slots_view w"
  by (simp add: steady_on_def)

lemma steady_slots:
  assumes "steady_on X w w'"
  shows "w_pool w' = w_pool w" "w_chan w' = w_chan w" "w_chan_cap w' = w_chan_cap w" "w_next w' = w_next w"
    "w_requests w' = w_requests w"
  using assms by (simp_all add: steady_on_def slots_view_def)

lemma steady_if_ok:
  "slots_view w' = slots_view w \<Longrightarrow> w_requests w' = w_requests w \<Longrightarrow>
    (world_ok w \<Longrightarrow> evolves w w' \<and> tends X w w') \<Longrightarrow> steady_on X w w'"
  by (simp add: steady_on_def evolves_if_ok tends_if_ok)

lemma steady_world_ok: "steady_on X w w' \<Longrightarrow> world_ok w \<Longrightarrow> world_ok w'"
  by (rule evolvesD(1) [OF steady_evolves])

text \<open>Who loses its session is done in the end.\<close>

lemma steady_close:
  assumes "steady_on X w w'" "world_ok w \<Longrightarrow> \<forall>r\<in>X. done_fired (w_heap w' r)"
  shows "steady w w'"
  using assms tended_done unfolding steady_on_def tends_def by blast

text \<open>Changes of a task that raise no signal.\<close>

definition gentle :: "(TaskCtx \<Rightarrow> TaskCtx) \<Rightarrow> bool" where
  "gentle f \<longleftrightarrow> (\<forall>t. keeps_ctx t (f t) \<and> SessionToken (f t) = SessionToken t
     \<and> (done_fired (f t) \<longrightarrow> done_fired t) \<and> (registered_fired (f t) \<longrightarrow> registered_fired t))"

lemma gentle_ops [simp]:
  "gentle (SetStatus st)" "gentle MarkDispatched" "gentle (\<lambda>t. fst (Done t))" "gentle (\<lambda>t. fst (Registered t))"
  "gentle (\<lambda>t. fst (Registered (fst (Done t))))"
  by (simp_all add: gentle_def) (simp_all add: taskctx_defs)

lemma steady_gentle:
  assumes "gentle f"
  shows "steady_on X w (w_modify r f w)"
proof -
  have f: "keeps_ctx t (f t)" "SessionToken (f t) = SessionToken t" "signalled (f t) \<Longrightarrow> signalled t"
    "done_fired t \<Longrightarrow> done_fired (f t)" for t
    using assms unfolding gentle_def signalled_def keeps_ctx_def by blast+
  have "tended (w_modify r f w) q" if "tended w q" for q
    using that by (rule tended_same) (use f(4) in \<open>auto simp: watched_def admitted_def\<close>)
  then have "tends X w (w_modify r f w)" by (intro tends_local) (simp_all add: f(2) split: if_splits)
  moreover have "slots_view (w_modify r f w) = slots_view w" by (simp add: slots_view_def)
  moreover have "evolves w (w_modify r f w)" using evolves_modify [of f w r] f(1,3) by blast
  ultimately show ?thesis by (simp add: steady_on_def)
qed

lemma steady_modified: "steady_on X w v \<Longrightarrow> gentle f \<Longrightarrow> steady_on X w (w_modify r f v)"
  by (blast intro: steady_trans steady_gentle)

lemma steady_store:
  assumes "evolves w (w\<lparr>w_store := st\<rparr>)"
    and "\<And>tok. ms_ok (w_store w) \<Longrightarrow> mget (ms_byReg st) tok \<noteq> None \<Longrightarrow> mget (ms_byReg (w_store w)) tok \<noteq> None"
  shows "steady_on X w (w\<lparr>w_store := st\<rparr>)"
proof -
  have "tends X w (w\<lparr>w_store := st\<rparr>)"
    by (rule tends_if_ok, rule tends_frame) (use assms(2) [OF world_okD(1)] in simp_all)
  then show ?thesis using assms(1) by (simp add: steady_on_def slots_view_def)
qed

lemma steady_atoms:
  "steady_on X w (w\<lparr>w_registry := reg\<rparr>)" "steady_on X w (w\<lparr>w_ext := x\<rparr>)"
  "steady_on X w (w_remove_task i w)" "steady_on X w (w\<lparr>w_store := gc_remove ids (w_store w)\<rparr>)"
  "steady_on X w (fst (w_consume tok w))" "steady_on X w (fst (w_touch now tok w))"
  "(\<And>x. s_TaskCtx (f' x) = s_TaskCtx x \<and> s_SessionToken (f' x) = s_SessionToken x) \<Longrightarrow>
    steady_on X w (w_set_session s f' w)"
proof -
  show "steady_on X w (w\<lparr>w_registry := reg\<rparr>)" "steady_on X w (w\<lparr>w_ext := x\<rparr>)"
    by (auto simp: steady_on_def slots_view_def intro: tends_frame)
  show "steady_on X w (w_remove_task i w)"
    unfolding w_remove_task_def
    by (rule steady_store [OF evolves_remove_task [of w i, unfolded w_remove_task_def]])
      (simp add: Remove_def removeLocked_lookup split: if_splits)
  show "steady_on X w (w\<lparr>w_store := gc_remove ids (w_store w)\<rparr>)"
    by (rule steady_store [OF evolves_reap])
      (simp add: gc_remove_def fold_removeLocked_lookup split: if_splits option.splits)
  have c: "fst (w_consume tok w) = w\<lparr>w_store := fst (MarkRegTokenConsumed tok (w_store w))\<rparr>"
    by (simp add: w_consume_def split_beta Let_def)
  show "steady_on X w (fst (w_consume tok w))"
    using evolves_consume [of w tok] unfolding c
    by (rule steady_store) (auto simp: MarkRegTokenConsumed_def split: option.splits if_splits)
  have t: "fst (w_touch now tok w) = w\<lparr>w_sessions := fst (Touch now tok (w_sessions w))\<rparr>"
    by (simp add: w_touch_def split_beta Let_def)
  have "tends X w (w\<lparr>w_sessions := fst (Touch now tok (w_sessions w))\<rparr>)"
    by (rule tends_frame) (simp_all, auto simp: Touch_def split: option.split)
  then show "steady_on X w (fst (w_touch now tok w))"
    using evolves_touch [of w now tok] unfolding t by (simp add: steady_on_def slots_view_def)
  show "steady_on X w (w_set_session s f' w)"
    if "\<And>x. s_TaskCtx (f' x) = s_TaskCtx x \<and> s_SessionToken (f' x) = s_SessionToken x"
  proof -
    have "tends X w (w_set_session s f' w)"
      by (rule tends_frame) (auto simp: that w_set_session_def Lookup_def)
    then show ?thesis
      using evolves_set_session [OF that] by (simp add: steady_on_def slots_view_def w_set_session_def)
  qed
qed

lemma steady_touched: "w_touch now tok w = (w', ok) \<Longrightarrow> steady_on X w w'"
  using steady_atoms(6) [of X w now tok] by simp

lemma steady_consumed: "w_consume tok w = (w', ok) \<Longrightarrow> steady_on X w w'"
  using steady_atoms(5) [of X w tok] by simp

lemma steady_remove_session:
  assumes "tokens_ok w \<Longrightarrow> tok \<noteq> [] \<Longrightarrow> X = UNIV
    \<or> (\<exists>s < sm_next (w_sessions w). s_SessionToken (w_session w s) = tok \<and> s_TaskCtx (w_session w s) \<in> X)"
  shows "steady_on X w (w_remove_session tok w)"
  using tends_remove_session [of w tok X] assms evolves_remove_session [of w tok] by (simp add: steady_on_def slots_view_def)

lemma steady_Expire:
  assumes "\<And>s. s \<in> set (snd (Expire now maxAge (w_sessions w))) \<Longrightarrow> s_TaskCtx (w_session w s) \<in> X"
  shows "steady_on X w (w\<lparr>w_sessions := fst (Expire now maxAge (w_sessions w))\<rparr>)"
  using tends_Expire [of now maxAge w X] assms evolves_Expire [of w now maxAge] by (simp add: steady_on_def slots_view_def)

lemma watched_touched:
  assumes "w_touch now tok w = (w', ok)" "watched w r"
  shows "watched w' r"
proof -
  have m: "w_sessions w' = fst (Touch now tok (w_sessions w))" by (rule w_touch_cases(2) [OF assms(1)])
  have "watched w' r = watched w r" by (rule watched_same) (simp_all add: m, simp add: Touch_def split: option.split)
  then show ?thesis using assms(2) by simp
qed

text \<open>A signal is raised for a task that has had a session.\<close>

lemma steady_signal:
  assumes "steady_on X w v" "f = MarkDone \<or> f = MarkRunnerRegistered" "world_ok w \<Longrightarrow> admitted v r \<noteq> []"
  shows "steady_on X w (w_modify r f v)"
proof (rule steady_if_ok)
  show "slots_view (w_modify r f v) = slots_view w" "w_requests (w_modify r f v) = w_requests w"
    using steady_slots [OF assms(1)] by (simp_all add: slots_view_def)
  assume ok: "world_ok w"
  have f: "keeps_ctx t (f t)" "SessionToken (f t) = SessionToken t" "done_fired t \<Longrightarrow> done_fired (f t)" for t
    using assms(2) by (auto, simp_all add: taskctx_defs)
  have e: "evolves v (w_modify r f v)" using f(1) assms(3) [OF ok] by (intro evolves_modify) auto
  have "tended (w_modify r f v) q" if "tended v q" for q
    using that by (rule tended_same) (use f(3) in \<open>auto simp: watched_def admitted_def\<close>)
  then have "tends X v (w_modify r f v)" by (intro tends_local) (simp_all add: f(2) split: if_splits)
  then show "evolves w (w_modify r f v) \<and> tends X w (w_modify r f v)"
    using e steady_evolves [OF assms(1)] steady_tends [OF assms(1)] by (blast intro: evolves_trans tends_trans)
qed

lemma admitted_steady: "steady_on X w w' \<Longrightarrow> world_ok w \<Longrightarrow> admitted w r \<noteq> [] \<Longrightarrow> admitted w' r \<noteq> []"
  by (rule admitted_evolves [OF steady_evolves])

end
