(* ===== verification/Request_Steps.thy ===== *)
theory Request_Steps
  imports Evolution
begin

text \<open>
  What one step of a request does to the shared world. Every step of theory \<open>South_Requests\<close> keeps to the
  rely condition of theory \<open>Evolution\<close>: it touches no slot, it spends a token for each session it will
  create, and it takes away only the session of a task that is done. The four changes of a request
  that count are shown one by one: going on without a claim, claiming a token, creating the
  session, and ending the task; a step is one of them.
\<close>

section \<open>The requests of a world\<close>

definition put_request :: "nat \<Rightarrow> request \<Rightarrow> 'x world \<Rightarrow> 'x world" where
  "put_request k q w = w\<lparr>w_requests := (w_requests w)[k := q]\<rparr>"

lemma put_request_fields [simp]:
  "w_heap (put_request k q w) = w_heap w" "w_next (put_request k q w) = w_next w"
  "w_store (put_request k q w) = w_store w" "w_sessions (put_request k q w) = w_sessions w"
  "w_pool (put_request k q w) = w_pool w" "w_chan (put_request k q w) = w_chan w"
  "w_chan_cap (put_request k q w) = w_chan_cap w" "w_registry (put_request k q w) = w_registry w"
  "w_ext (put_request k q w) = w_ext w" "w_requests (put_request k q w) = (w_requests w)[k := q]"
  by (simp_all add: put_request_def)

lemma put_request_view [simp]: "slots_view (put_request k q w) = slots_view w"
  by (simp add: slots_view_def)

lemma request_ok_frame:
  assumes "w_heap w' = w_heap w" "w_next w' = w_next w" "w_store w' = w_store w" "w_sessions w' = w_sessions w"
  shows "request_ok w' q = request_ok w q"
proof -
  have "acts_for c s w' = acts_for c s w" for c s by (simp add: acts_for_def assms)
  moreover have "no_collisions w' = no_collisions w" by (simp add: no_collisions_def assms)
  moreover have "w_task_of w' s = w_task_of w s" for s by (simp add: assms)
  ultimately show ?thesis
    by (cases q; cases "snd q") (simp_all add: request_ok_def assms)
qed

lemma acts_for_kept:
  assumes "evolves w w'" "world_ok w" "acts_for c s w"
  shows "acts_for c s w'" "s_TaskCtx (w_session w' s) = s_TaskCtx (w_session w s)"
    "done_fired (w_task_of w s) \<Longrightarrow> done_fired (w_task_of w' s)"
proof -
  note e = evolvesD [OF assms(1,2)]
  have s: "s < sm_next (w_sessions w)" using assms(3) by (simp add: acts_for_def)
  show "acts_for c s w'" using assms(3) e(6) e(8) [OF s] by (auto simp: acts_for_def)
  show t: "s_TaskCtx (w_session w' s) = s_TaskCtx (w_session w s)" by (rule e(7) [OF s])
  show "done_fired (w_task_of w' s)" if "done_fired (w_task_of w s)"
    using that e(3) [OF world_okD(5) [OF assms(2) s]] by (simp add: t keeps_ctx_def)
qed

text \<open>The claims on a task, when one request goes on.\<close>

lemma length_filter_update:
  assumes "k < length xs"
  shows "length (filter P (xs[k := y])) + (if P (xs ! k) then 1 else 0)
    = length (filter P xs) + (if P y then 1 else 0)"
  using assms
proof (induction xs arbitrary: k)
  case (Cons x xs)
  then show ?case by (cases k) auto
qed simp

lemma claims_put:
  assumes "k < length (w_requests w)"
  shows "length (claims (put_request k q w) r) + (if claimed_by r (w_requests w ! k) then 1 else 0)
    = length (claims w r) + (if claimed_by r q then 1 else 0)"
  using length_filter_update [OF assms] by (simp add: claims_def)

section \<open>What a step of a request may do\<close>

definition orderly :: "'x world \<Rightarrow> 'x world \<Rightarrow> bool" where
  "orderly w w' \<longleftrightarrow> slots_view w' = slots_view w \<and> evolves w w' \<and> tends {} w w'"

lemma orderly_if_ok: "slots_view w' = slots_view w \<Longrightarrow> (world_ok w \<Longrightarrow> evolves w w' \<and> tends {} w w') \<Longrightarrow> orderly w w'"
  by (simp add: orderly_def evolves_if_ok tends_if_ok)

lemma orderlyD: "orderly w w' \<Longrightarrow> slots_view w' = slots_view w" "orderly w w' \<Longrightarrow> evolves w w'" "orderly w w' \<Longrightarrow> tends {} w w'"
  by (simp_all add: orderly_def)

lemma steady_orderly: "steady w w' \<Longrightarrow> orderly w w'"
  by (simp add: steady_on_def orderly_def)

text \<open>A request arrives.\<close>

lemma orderly_arrive: "orderly w (w\<lparr>w_requests := w_requests w @ [(c, ReqStart)]\<rparr>)"
proof (rule orderly_if_ok)
  let ?w = "w\<lparr>w_requests := w_requests w @ [(c, ReqStart)]\<rparr>"
  show "slots_view ?w = slots_view w" by (simp add: slots_view_def)
  assume ok: "world_ok w"
  have "chances ?w r = chances w r" for r by (simp add: chances_def admitted_def claims_def claimed_by_def)
  then have "evolves w ?w"
    using world_okD(1,2,5) [OF ok] by (intro evolves_known [OF ok]) (auto simp: request_ok_def)
  moreover have "tends {} w ?w" by (rule tends_frame) auto
  ultimately show "evolves w ?w \<and> tends {} w ?w" ..
qed

text \<open>A request goes on without a claim, when something steady was done.\<close>

lemma orderly_moves:
  assumes "steady w v" "k < length (w_requests w)" "\<And>r. \<not> claimed_by r (c, pc)"
    and "world_ok w \<Longrightarrow> request_ok v (c, pc)"
  shows "orderly w (put_request k (c, pc) v)"
proof (rule orderly_if_ok)
  let ?w = "put_request k (c, pc) v"
  show "slots_view ?w = slots_view w" using steady_view [OF assms(1)] by simp
  assume wok: "world_ok w"
  note ok = steady_world_ok [OF assms(1) wok]
  have k: "k < length (w_requests v)" using assms(2) steady_slots(5) [OF assms(1)] by simp
  have "length (claims ?w r) \<le> length (claims v r)" for r using claims_put [OF k, of "(c, pc)" r] assms(3) by simp
  then have "chances ?w r \<le> chances v r" for r by (simp add: chances_def admitted_def)
  moreover have "request_ok ?w q" if "q \<in> set (w_requests ?w)" "q \<notin> set (w_requests v)" for q
  proof -
    have "q = (c, pc)" using that set_update_subset_insert [of "w_requests v" k "(c, pc)"] by auto
    then show ?thesis using assms(4) [OF wok] request_ok_frame [of ?w v] by simp
  qed
  ultimately have "evolves v ?w"
    using world_okD(1,2,5) [OF ok] by (intro evolves_known [OF ok]) auto
  moreover have "tends {} v ?w"
  proof (rule tends_frame)
    fix c' tok r assume "(c', ReqClaimed tok r) \<in> set (w_requests ?w)"
    then have "(c', ReqClaimed tok r) \<in> insert (c, pc) (set (w_requests v))"
      using set_update_subset_insert by fastforce
    then have "(c', ReqClaimed tok r) \<in> set (w_requests v)"
      using assms(3) [of r] by (auto simp: claimed_by_def)
    then show "(c', ReqClaimed tok r) \<in> set (w_requests v) \<or> tok \<noteq> []" ..
  qed simp_all
  ultimately show "evolves w ?w \<and> tends {} w ?w"
    using steady_evolves [OF assms(1)] steady_tends [OF assms(1)] by (blast intro: evolves_trans tends_trans)
qed

text \<open>A token is claimed: the task it leads to has a token less and a claim more.\<close>

lemma consumed_leads:
  assumes "w_consume tok w = (v, True)" "ms_ok (w_store w)"
  shows "\<exists>r. GetByRegToken tok (w_store w) = Some r"
proof -
  obtain i where i: "mget (ms_byReg (w_store w)) tok = Some i" using w_consume_cases(1) [OF assms(1)] by auto
  then obtain r where "mget (ms_tasks (w_store w)) i = Some r" using ms_okD(3) [OF assms(2)] by fastforce
  then show ?thesis using i by (auto simp: GetByRegToken_Some)
qed

lemma orderly_claims:
  assumes c: "w_consume tok w = (v, True)" and k: "k < length (w_requests w)" "w_requests w ! k = (c, ReqSeen tok r)"
  shows "orderly w (put_request k (c, ReqClaimed tok r) v)"
proof (rule orderly_if_ok)
  let ?w = "put_request k (c, ReqClaimed tok r) v"
  note st = steady_consumed [OF c, of "{}"]
  note c1 = w_consume_cases(2-4) [OF c] and n = steady_slots(4,5) [OF st]
  show "slots_view ?w = slots_view w" using steady_view [OF st] by simp
  assume ok: "world_ok w"
  note e = evolvesD [OF steady_evolves [OF st] ok] and D = world_okD [OF ok]
  have q: "request_ok w (c, ReqSeen tok r)" using D(8) k nth_mem by fastforce
  have spent: "GetByRegToken tok (w_store v) = None" by (rule w_consume_spent [OF c])
  have new: "request_ok ?w x" if "x \<in> set (w_requests ?w)" "x \<notin> set (w_requests w)" for x
  proof -
    have "x = (c, ReqClaimed tok r)"
      using that set_update_subset_insert [of "w_requests w" k "(c, ReqClaimed tok r)"] by (auto simp: n)
    then show ?thesis using q spent by (simp add: request_ok_def n)
  qed
  have ch: "chances ?w x \<le> chances w x" if nc: "no_collisions w" and x: "x < w_next w" for x
  proof -
    obtain r0 where r0: "GetByRegToken tok (w_store w) = Some r0" using consumed_leads [OF c D(1)] by blast
    have "r0 = r"
      by (rule no_collisionsD [OF nc token_task_known [OF ok r0]]) (use q D(7) [OF nc r0] nc in \<open>simp_all add: request_ok_def\<close>)
    have "length (tok # open_tokens (w_store v) r) \<le> length (open_tokens (w_store w) r)"
      using distinct_open_tokens [OF world_okD(1) [OF e(1)]] spent r0 \<open>r0 = r\<close> e(5) token_task_known [OF ok r0]
      by (intro length_le_if_subset) (auto simp: set_open_tokens)
    moreover have "length (open_tokens (w_store v) x) \<le> length (open_tokens (w_store w) x)"
      by (rule open_tokens_shrink [OF world_okD(1) [OF e(1)] e(5) [OF x]])
    moreover have "length (claims ?w x) \<le> length (claims w x) + (if r = x then 1 else 0)"
      using claims_put [of k v "(c, ReqClaimed tok r)" x] k by (simp add: n claims_def claimed_by_def)
    ultimately show ?thesis by (cases "r = x") (simp_all add: chances_def admitted_def c1)
  qed
  have "evolves w ?w"
    by (rule evolves_known [OF ok _ _ _ _ _ _ _ _ _ _ new ch])
      (use world_okD(1,2,5) [OF ok] world_okD(1) [OF e(1)] token_task_known [OF ok] c1 n
        in \<open>auto simp: MarkRegTokenConsumed_def GetByRegToken_Some split: option.splits if_splits\<close>)
  moreover have "tends {} w ?w"
  proof (rule tends_frame)
    show "mget (ms_byReg (w_store w)) t \<noteq> None" if "mget (ms_byReg (w_store ?w)) t \<noteq> None" for t
      using that by (auto simp: c1 MarkRegTokenConsumed_def split: option.splits if_splits)
    fix c' t x assume m: "(c', ReqClaimed t x) \<in> set (w_requests ?w)" and tok: "tokens_ok w"
    have "tok \<noteq> []" using tokens_okD(1) [OF tok] w_consume_cases(1) [OF c] by blast
    moreover have "(c', ReqClaimed t x) \<in> insert (c, ReqClaimed tok r) (set (w_requests w))"
      using m set_update_subset_insert by (fastforce simp: n)
    ultimately show "(c', ReqClaimed t x) \<in> set (w_requests w) \<or> t \<noteq> []" by auto
  qed (simp_all add: c1 n)
  ultimately show "evolves w ?w \<and> tends {} w ?w" ..
qed

text \<open>The session is published: a session more and a claim less.\<close>

lemma orderly_publishes:
  assumes publish: "PublishSession now r tok' name labels (w_sessions w) = (m, s)"
    and k: "k < length (w_requests w)" "w_requests w ! k = (c, ReqClaimed tok r)"
    and t: "call_headers c \<noteq> None \<and> tok' = tok \<or> call_headers c = None \<and> tok' \<noteq> []"
  shows "orderly w (put_request k (c, ReqPublished tok r s) (w\<lparr>w_sessions := m\<rparr>))"
proof (rule orderly_if_ok)
  let ?pc = "ReqPublished tok r s" and ?v = "w\<lparr>w_sessions := m\<rparr>"
  let ?w = "put_request k (c, ?pc) ?v"
  note e = PublishSession_simps [of now r tok' name labels "w_sessions w", unfolded publish, simplified]
  show "slots_view ?w = slots_view w" by (simp add: slots_view_def)
  assume ok: "world_ok w"
  note D = world_okD [OF ok]
  have q: "request_ok w (c, ReqClaimed tok r)" using D(8) k nth_mem by fastforce
  then have r: "r < w_next w" "presented c = Some tok" by (simp_all add: request_ok_def)
  have adm: "admitted ?w x = admitted w x @ (if x = r then [sm_next (w_sessions w)] else [])" for x
    by (auto simp: admitted_def e intro!: filter_cong)
  have new: "request_ok ?w x" if "x \<in> set (w_requests ?w)" "x \<notin> set (w_requests w)" for x
  proof -
    have "x = (c, ?pc)" using that set_update_subset_insert [of "w_requests w" k "(c, ?pc)"] by auto
    then show ?thesis using t r by (auto simp: request_ok_def acts_for_def e)
  qed
  have ch: "chances ?w x \<le> chances w x" for x
  proof -
    have "length (claims ?w x) + (if r = x then 1 else 0) \<le> length (claims w x)"
      using claims_put [of k ?v "(c, ?pc)" x] k by (simp add: claims_def claimed_by_def)
    moreover have "length (admitted ?w x) = length (admitted w x) + (if r = x then 1 else 0)" by (simp add: adm)
    ultimately show ?thesis by (simp add: chances_def)
  qed
  have ev: "evolves w ?w"
  proof (rule evolves_known [OF ok _ _ _ _ _ _ _ _ _ _ new ch])
    show "sm_ok (w_sessions ?w)"
      using CreateWithToken_ok [OF D(2), of now r tok' name labels "w_heap w"] by (simp add: CreateWithToken_publish publish)
    show "s_TaskCtx (w_session ?w x) < w_next w" if "x < sm_next (w_sessions ?w)" for x
      using that D(5) [of x] r(1) by (auto simp: e)
  qed (use D(1) in \<open>auto simp: e\<close>)
  have "tends {} w ?w"
  proof (rule tends_if_ok)
    assume tok: "tokens_ok w"
    note T = tokens_okD [OF tok]
    have new: "tok' \<noteq> []" using t T(4) [of c tok r] k nth_mem by metis
    have own: "SessionToken (w_heap w x) = []
        \<or> SessionToken (w_heap w x) \<in> (\<lambda>s. s_SessionToken (w_session ?w s)) ` set (admitted ?w x)" if lt: "x < w_next w" for x
    proof (cases "SessionToken (w_heap w x) = []")
      case False
      then obtain s0 where s0: "s0 \<in> set (admitted w x)" "SessionToken (w_heap w x) = s_SessionToken (w_session w s0)"
        using T(3) [OF lt] by auto
      from s0(1) have "s0 \<in> set (admitted ?w x)" by (simp add: adm)
      moreover have "s_SessionToken (w_session ?w s0) = SessionToken (w_heap w x)" using s0 by (simp add: set_admitted e)
      ultimately show ?thesis by (metis image_eqI)
    qed simp
    have claimed: "tk \<noteq> []" if "(c', ReqClaimed tk x) \<in> set (w_requests ?w)" for c' tk x
    proof -
      have "(c', ReqClaimed tk x) \<in> insert (c, ?pc) (set (w_requests w))"
        using that set_update_subset_insert by fastforce
      then show ?thesis using T(4) by auto
    qed
    have "s_SessionToken (w_session ?w x) \<noteq> []" if "x < sm_next (w_sessions ?w)" for x
      using that new T(2) [of x] by (auto simp: e)
    then have "tokens_ok ?w" using T(1) own claimed unfolding tokens_ok_def by auto
    moreover have "tended ?w x" if u: "unique_tokens ?w" and x: "tended w x" for x
    proof (cases "x = r")
      case True
      have "Lookup tok' (w_sessions ?w) = Some (sm_next (w_sessions w))" by (simp add: Lookup_def e)
      then show ?thesis
        using True by (intro tended_watched watchedI [of tok' ?w "sm_next (w_sessions w)"]) (simp_all add: e)
    next
      case False
      have "watched ?w x" if wa: "watched w x"
      proof -
        obtain s0 where s0: "s0 < sm_next (w_sessions w)" "s_TaskCtx (w_session w s0) = x"
          "Lookup (s_SessionToken (w_session w s0)) (w_sessions w) = Some s0"
          using watched_session [OF D(2) wa] by blast
        have "s_SessionToken (w_session w s0) \<noteq> tok'"
        proof
          assume "s_SessionToken (w_session w s0) = tok'"
          then have "s0 = sm_next (w_sessions w)"
            using s0(1) by (intro unique_tokensD [OF u]) (simp_all add: e)
          then show False using s0(1) by simp
        qed
        then have "Lookup (s_SessionToken (w_session w s0)) m = Some s0" using s0(3) by (simp add: Lookup_def e)
        then show ?thesis using s0(1,2) by (intro watchedI [of _ ?w s0]) (simp_all add: e)
      qed
      moreover have "admitted ?w x = admitted w x" using False adm [of x] by simp
      ultimately show ?thesis by (intro tended_same [OF x]) simp_all
    qed
    ultimately show "tends {} w ?w" unfolding tends_def by simp
  qed
  with ev show "evolves w ?w \<and> tends {} w ?w" ..
qed

text \<open>The token of a session is noted in its task.\<close>

lemma steady_links:
  assumes "world_ok w \<Longrightarrow> s \<in> set (admitted w r)"
  shows "steady w (w_modify r (SetSessionToken (s_SessionToken (w_session w s))) w)"
proof (rule steady_if_ok)
  let ?t = "s_SessionToken (w_session w s)"
  let ?w = "w_modify r (SetSessionToken ?t) w"
  assume ok: "world_ok w"
  have e: "evolves w ?w" by (rule evolves_modify) simp_all
  have "tended ?w q" if "tended w q" for q
    using that by (rule tended_same) (auto simp: watched_def admitted_def taskctx_defs)
  then have "tends {} w ?w"
    by (intro tends_local) (use assms [OF ok] in \<open>auto simp: taskctx_defs split: if_splits\<close>)
  with e show "evolves w ?w \<and> tends {} w ?w" ..
qed (simp_all add: slots_view_def)

section \<open>Every step\<close>

lemma session_admits: "s < sm_next (w_sessions w) \<Longrightarrow> admitted w (s_TaskCtx (w_session w s)) \<noteq> []"
  using set_admitted [of s w "s_TaskCtx (w_session w s)"] by auto

lemma unclaimed [simp]:
  "\<not> claimed_by r (c, refused m)" "\<not> claimed_by r (c, request_lookup now m tok w)"
  "\<not> claimed_by r (c, request_start now c' w)"
  by (auto simp: claimed_by_def refused_def request_lookup_def request_start_def split: option.split south_call.split)

lemma request_ok_answered [simp]: "request_ok w (c, ReqDone res)" "request_ok w (c, refused m)"
  by (simp_all add: request_ok_def refused_def)

lemma request_lookup_ok:
  assumes "world_ok w" "presented c = Some tok"
  shows "request_ok w (c, request_lookup now m tok w)"
  using assms(2) token_task_known [OF assms(1)] world_okD(7) [OF assms(1)]
  by (auto simp: request_lookup_def refused_def request_ok_def split: option.split)

lemma request_start_ok:
  assumes "world_ok w"
  shows "request_ok w (c, request_start now c w)"
proof (cases "call_headers c")
  case None
  then obtain req where "c = CallRegister req" by (cases c) simp_all
  then show ?thesis using request_lookup_ok [OF assms, of c "sr_Token req"] by (simp add: request_start_def presented_def)
next
  case (Some hdr)
  note sm = sm_okD(2,3) [OF world_okD(2) [OF assms]]
  have p: "presented c = sessionTokenFromRequest hdr" using Some by (cases c) (simp_all add: presented_def)
  have "request_start now c w = (case sessionTokenFromRequest hdr of None \<Rightarrow> refused ''missing session token''
    | Some tok \<Rightarrow> (case Lookup tok (w_sessions w) of Some s \<Rightarrow> ReqFound tok s | None \<Rightarrow> ReqMissed tok))"
    using Some by (cases c) (simp_all add: request_start_def)
  then show ?thesis
    using p sm by (auto simp: request_ok_def refused_def acts_for_def Lookup_def split: option.split)
qed

lemma request_body_steady:
  assumes "quiet_resolver R" "request_body parse encode R now c s w = (v, pc)"
  shows "steady w v" "\<not> claimed_by r (c, pc)" "(\<exists>res. pc = ReqDone res) \<or> (\<exists>resp. pc = ReqReported s resp)"
proof -
  have l: "steady u (w_set_session s (\<lambda>x. x\<lparr>s_Labels := ls\<rparr>) u)"
    "steady u (w_set_session s (\<lambda>x. x\<lparr>s_RunnerName := n\<rparr>) u)" for ls n and u :: "'a world"
    by (rule steady_atoms; simp)+
  have d: "steady w (fst (declare_body req s w))" for req
    using l steady_trans [OF l(1) l(2)] by (auto simp: declare_body_def Let_def)
  have f: "steady w (fst (fetch_body parse encode R now s w))"
    using steady_atoms(1) by (simp add: fetch_body_def Let_def)
  have u: "steady w (fst (update_forward R req s w))" "steady w (fst (log_forward R lreq s w))" for req lreq
    using quiet_call(2,3) [OF assms(1)] by (auto simp: update_forward_def log_forward_def split: option.split)
  show "steady w v"
    using assms(2) d f u
    by (cases c) (auto simp: request_body_def Let_def split: prod.splits sum.splits, (metis fst_conv)+)
  show p: "(\<exists>res. pc = ReqDone res) \<or> (\<exists>resp. pc = ReqReported s resp)"
    using assms(2) by (auto simp: request_body_def Let_def split: south_call.splits prod.splits sum.splits if_splits)
  then show "\<not> claimed_by r (c, pc)" by (auto simp: claimed_by_def)
qed

lemma request_step_orderly:
  assumes R: "quiet_resolver R" and k: "k < length (w_requests w)" "w_requests w ! k = (c, pc)"
    and st: "request_step parse encode R now rnd c pc w = (w1, pc1)"
  shows "orderly w (put_request k (c, pc1) w1)"
proof -
  have q: "request_ok w (c, pc)" if "world_ok w" using world_okD(8) [OF that] k nth_mem by fastforce
  note moves = orderly_moves [OF _ k(1)]
  have go: "orderly w (put_request k (c, pc') v)"
    if v: "steady w v" and pc': "\<And>r. \<not> claimed_by r (c, pc')"
      and ok: "world_ok w \<Longrightarrow> acts_for c s w \<and> (acts_for c s v \<longrightarrow> s_TaskCtx (w_session v s) = s_TaskCtx (w_session w s)
        \<longrightarrow> (done_fired (w_task_of w s) \<longrightarrow> done_fired (w_task_of v s)) \<longrightarrow> request_ok v (c, pc'))" for v pc' s
    using acts_for_kept [OF steady_evolves [OF v]] ok by (intro moves [OF v pc']) blast
  show ?thesis
  proof (cases pc)
    case ReqStart
    then show ?thesis
      using st moves [OF steady_refl, of c "request_start now c w"] request_start_ok by (auto simp: request_step_def)
  next
    case (ReqFound tok s)
    obtain v ok where t: "w_touch now tok w = (v, ok)" by fastforce
    have "w1 = v" "pc1 = (if ok then ReqAuth s else refused ''invalid session token'')"
      using st ReqFound t by (simp_all add: request_step_def)
    then show ?thesis
      using q ReqFound by (auto intro!: go [of _ _ s] steady_touched [OF t] simp: request_ok_def claimed_by_def refused_def)
  next
    case (ReqMissed tok)
    then have e: "w1 = w" "pc1 = request_lookup now ''invalid session token'' tok w"
      using st by (auto simp: request_step_def)
    have "request_ok w (c, request_lookup now ''invalid session token'' tok w)" if "world_ok w"
      by (rule request_lookup_ok [OF that]) (use q [OF that] ReqMissed in \<open>simp add: request_ok_def\<close>)
    then show ?thesis unfolding e by (intro moves) simp_all
  next
    case (ReqSeen tok r)
    obtain v ok where t: "w_consume tok w = (v, ok)" by fastforce
    show ?thesis
    proof (cases ok)
      case True
      then show ?thesis using st t ReqSeen orderly_claims [of tok w v k c r] k by (auto simp: request_step_def)
    next
      case False
      then have "w1 = w" "pc1 = refused ''registration token already consumed''"
        using st t ReqSeen w_consume_cases(6) [OF t] by (auto simp: request_step_def)
      then show ?thesis by (auto intro!: moves)
    qed
  next
    case (ReqClaimed tok r)
    have o: "request_publish rnd now c tok r w = (w1, pc1)" using st ReqClaimed by (simp add: request_step_def)
    note publishes = orderly_publishes [OF _ k [unfolded ReqClaimed]]
    show ?thesis
    proof (cases "call_headers c")
      case None
      then obtain req where c: "c = CallRegister req" by (cases c) simp_all
      show ?thesis
      proof (cases "GenerateBytes rnd 16")
        case (Inl e)
        then have "w1 = w" "pc1 = ReqDone (Inl panicked)" using o c by (auto simp: request_publish_def)
        then show ?thesis by (auto intro!: moves simp: claimed_by_def)
      next
        case (Inr raw)
        obtain m s where t: "PublishSession now r (hex_encode raw) (sr_Name req) (sr_Labels req) (w_sessions w) = (m, s)"
          by fastforce
        then have "w1 = w\<lparr>w_sessions := m\<rparr>" "pc1 = ReqPublished tok r s"
          using o c Inr by (auto simp: request_publish_def)
        then show ?thesis using publishes [OF t] session_token_nonempty [OF Inr] None by simp
      qed
    next
      case (Some hdr)
      obtain m s where t: "PublishSession now r tok [] [] (w_sessions w) = (m, s)" by fastforce
      then have "w1 = w\<lparr>w_sessions := m\<rparr>" "pc1 = ReqPublished tok r s"
        using o Some by (cases c; simp add: request_publish_def)+
      then show ?thesis using publishes [OF t] Some by simp
    qed
  next
    case (ReqPublished tok r s)
    have v: "steady w (w_modify r (SetSessionToken (s_SessionToken (w_session w s))) w)"
      by (rule steady_links) (use q ReqPublished in \<open>simp add: request_ok_def acts_for_def set_admitted\<close>)
    have "w1 = w_modify r (SetSessionToken (s_SessionToken (w_session w s))) w"
      "pc1 = ReqOpened tok r s \<or> pc1 = ReqTouched r s"
      using st ReqPublished by (auto simp: request_step_def request_link_def split: south_call.splits)
    then show ?thesis using q ReqPublished by (auto intro!: go [of _ _ s] v simp: request_ok_def claimed_by_def)
  next
    case (ReqOpened tok r s)
    obtain v ok where t: "w_touch now tok w = (v, ok)" by fastforce
    have "w1 = v" "pc1 = ReqTouched r s" using st ReqOpened t by (simp_all add: request_step_def)
    then show ?thesis
      using q ReqOpened by (auto intro!: go [of _ _ s] steady_touched [OF t] simp: request_ok_def claimed_by_def)
  next
    case (ReqTouched r s)
    have v: "steady w (w_modify r MarkRunnerRegistered w)"
    proof (rule steady_signal [OF steady_refl])
      assume "world_ok w"
      from q [OF this] show "admitted w r \<noteq> []" using ReqTouched session_admits [of s w] by (simp add: request_ok_def acts_for_def)
    qed simp
    have "w1 = w_modify r MarkRunnerRegistered w" "pc1 = ReqAuth s \<or> (\<exists>res. pc1 = ReqDone res)"
      using st ReqTouched by (auto simp: request_step_def request_mark_def Let_def split: south_call.splits)
    then show ?thesis using q ReqTouched by (auto intro!: go [of _ _ s] v simp: request_ok_def claimed_by_def)
  next
    case (ReqAuth s)
    have "request_body parse encode R now c s w = (w1, pc1)" using st ReqAuth by (simp add: request_step_def)
    note b = request_body_steady [OF R this]
    show ?thesis using q ReqAuth b(3) by (intro go [of _ _ s] b(1,2)) (auto simp: request_ok_def)
  next
    case (ReqReported s resp)
    then have "w1 = w_modify (s_TaskCtx (w_session w s)) (SetStatus StatusTerminal) w" "pc1 = ReqSettled s resp"
      using st by (simp_all add: request_step_def)
    then show ?thesis
      using q ReqReported by (auto intro!: go [of _ _ s] steady_gentle simp: request_ok_def claimed_by_def)
  next
    case (ReqSettled s resp)
    then have e: "w1 = w_modify (s_TaskCtx (w_session w s)) MarkDone w" "pc1 = ReqEnded s resp"
      using st by (simp_all add: request_step_def)
    have "steady w w1" unfolding e(1)
    proof (rule steady_signal [OF steady_refl])
      assume "world_ok w"
      from q [OF this] show "admitted w (s_TaskCtx (w_session w s)) \<noteq> []"
        using ReqSettled session_admits [of s w] by (simp add: request_ok_def acts_for_def)
    qed simp
    then show ?thesis
      using q ReqSettled unfolding e(2)
      by (intro go [of _ _ s]) (auto simp: request_ok_def claimed_by_def e(1) taskctx_defs)
  next
    case (ReqEnded s resp)
    then have e: "w1 = w_remove_session (s_SessionToken (w_session w s)) w" "pc1 = ReqDropped s resp"
      using st by (simp_all add: request_step_def)
    have "steady w w1" if ok: "world_ok w"
    proof (rule steady_close)
      show "steady_on {s_TaskCtx (w_session w s)} w w1"
        unfolding e(1) using q [OF ok] ReqEnded by (intro steady_remove_session) (auto simp: request_ok_def acts_for_def)
      show "\<forall>r\<in>{s_TaskCtx (w_session w s)}. done_fired (w_heap w1 r)"
        using q [OF ok] ReqEnded by (simp add: e(1) request_ok_def)
    qed
    then have "steady w w1" by (intro steady_if_ok) (simp_all add: e(1) slots_view_def steady_on_def)
    then show ?thesis
      using q ReqEnded unfolding e(2) by (intro go [of _ _ s]) (auto simp: request_ok_def claimed_by_def)
  next
    case (ReqDropped s resp)
    then have "w1 = w_remove_task (t_ID (w_task_of w s)) w" "pc1 = ReqDone (Inr (UpdateResponse resp))"
      using st by (simp_all add: request_step_def)
    then show ?thesis
      using q ReqDropped by (auto intro!: go [of _ _ s] steady_atoms simp: request_ok_def claimed_by_def)
  next
    case (ReqDone res)
    then have "w1 = w" "pc1 = ReqDone res" using st by (simp_all add: request_step_def)
    then show ?thesis by (auto intro!: moves simp: request_ok_def claimed_by_def)
  qed
qed

end
