(* ===== verification/GC_Steps.thy ===== *)
theory GC_Steps
  imports App_Daemon
begin

text \<open>
  The GC loop (\<^verbatim>\<open>gcLoop\<close>, \<^verbatim>\<open>gcOnce\<close> and \<^verbatim>\<open>MemStore.GC\<close>) as the goroutine it is: one step per
  lock section and per call, so that requests, handlers and pollers may act in the middle of a
  pass. \<open>GcReaping\<close> has inspected the stored tasks and holds the ids to remove, \<open>GcExpiring\<close> comes
  before the pass over the sessions, \<open>GcOrphans\<close> holds the expired sessions that are left,
  \<open>GcEnding\<close> has reported the first of them, \<open>GcDropping\<close> has marked its task done.
\<close>

section \<open>Steps\<close>

datatype gc_pc = GcWaiting | GcReaping time "int list" | GcExpiring time | GcOrphans "sref list"
  | GcEnding sref "sref list" | GcDropping sref "sref list" | GcStopped

text \<open>\<open>stop\<close> is the choice of the cancelled context in the select, \<open>now\<close> the time of the tick.\<close>

fun gc_step :: "bool \<Rightarrow> time \<Rightarrow> ('x world) Resolver \<Rightarrow> duration \<Rightarrow> gc_pc \<Rightarrow> 'x world \<Rightarrow> 'x world \<times> gc_pc" where
  "gc_step stop now R maxAge GcWaiting w =
     (w, if stop then GcStopped else GcReaping now (gc_candidates (w_heap w) now (w_store w)))"
| "gc_step stop now R maxAge (GcReaping t toRemove) w =
     (w\<lparr>w_store := gc_remove toRemove (w_store w)\<rparr>, GcExpiring t)"
| "gc_step stop now R maxAge (GcExpiring t) w =
     (let (m, expired) = Expire t maxAge (w_sessions w) in (w\<lparr>w_sessions := m\<rparr>, GcOrphans expired))"
| "gc_step stop now R maxAge (GcOrphans []) w = (w, GcWaiting)"
| "gc_step stop now R maxAge (GcOrphans (s # ss)) w = (gc_report R s w, GcEnding s ss)"
| "gc_step stop now R maxAge (GcEnding s ss) w =
     (w_modify (s_TaskCtx (sm_objs (w_sessions w) s)) MarkDone w, GcDropping s ss)"
| "gc_step stop now R maxAge (GcDropping s ss) w =
     (w_remove_task (t_ID (w_heap w (s_TaskCtx (sm_objs (w_sessions w) s)))) w, GcOrphans ss)"
| "gc_step stop now R maxAge GcStopped w = (w, GcStopped)"

text \<open>The goroutine alone.\<close>

fun gc_run :: "nat \<Rightarrow> time \<Rightarrow> ('x world) Resolver \<Rightarrow> duration \<Rightarrow> gc_pc \<Rightarrow> 'x world \<Rightarrow> 'x world \<times> gc_pc" where
  "gc_run 0 now R maxAge pc w = (w, pc)"
| "gc_run (Suc n) now R maxAge pc w =
     (let (w1, pc1) = gc_step False now R maxAge pc w in gc_run n now R maxAge pc1 w1)"

section \<open>A pass that is not disturbed\<close>

lemma gc_run_trans:
  "gc_run m now R maxAge pc w = (w1, pc1) \<Longrightarrow> gc_run n now R maxAge pc1 w1 = x \<Longrightarrow>
    gc_run (m + n) now R maxAge pc w = x"
  by (induction m arbitrary: pc w) (auto simp: split_beta Let_def)

text \<open>The failure report is a call to the outside: it changes neither sessions nor the task's session.\<close>

lemma gc_run_orphans:
  assumes "\<And>s w. s_TaskCtx (sm_objs (w_sessions (gc_report R s w)) s) = s_TaskCtx (sm_objs (w_sessions w) s)"
  shows "gc_run (Suc (3 * length ss)) now R maxAge (GcOrphans ss) w = (fold (gc_orphan R) ss w, GcWaiting)"
proof (induction ss arbitrary: w)
  case (Cons s ss)
  have "gc_run 3 now R maxAge (GcOrphans (s # ss)) w = (gc_orphan R s w, GcOrphans ss)"
    by (simp add: numeral_3_eq_3 gc_orphan_def Let_def assms)
  from gc_run_trans [OF this Cons] show ?case by simp
qed simp

text \<open>Run alone, the goroutine does with each tick exactly what \<open>gcOnce\<close> computes.\<close>

theorem gc_pass_alone:
  assumes "\<And>s w. s_TaskCtx (sm_objs (w_sessions (gc_report R s w)) s) = s_TaskCtx (sm_objs (w_sessions w) s)"
  shows "gc_run (4 + 3 * length (snd (Expire now maxAge (w_sessions w)))) now R maxAge GcWaiting w
    = (gcOnce now R maxAge w, GcWaiting)"
proof -
  let ?w = "w\<lparr>w_store := GC (w_heap w) now (w_store w), w_sessions := fst (Expire now maxAge (w_sessions w))\<rparr>"
  let ?ss = "snd (Expire now maxAge (w_sessions w))"
  have "gc_run 3 now R maxAge GcWaiting w = (?w, GcOrphans ?ss)"
    by (simp add: numeral_3_eq_3 GC_def split_beta Let_def)
  from gc_run_trans [OF this gc_run_orphans [OF assms]] show ?thesis
    by (simp add: gcOnce_def split_beta Let_def)
qed

section \<open>What a pass owes\<close>

text \<open>The expired sessions whose tasks are still to be ended.\<close>

fun gc_sessions :: "gc_pc \<Rightarrow> sref list" where
  "gc_sessions (GcOrphans ss) = ss"
| "gc_sessions (GcEnding s ss) = s # ss"
| "gc_sessions (GcDropping s ss) = ss"
| "gc_sessions _ = []"

definition gc_ok :: "'x world \<Rightarrow> gc_pc \<Rightarrow> bool" where
  "gc_ok w pc \<longleftrightarrow> (\<forall>s\<in>set (gc_sessions pc). s < sm_next (w_sessions w))"

definition gc_owes :: "'x world \<Rightarrow> gc_pc \<Rightarrow> tref set" where
  "gc_owes w pc = (\<lambda>s. s_TaskCtx (sm_objs (w_sessions w) s)) ` set (gc_sessions pc)"

text \<open>
  The steps that are left of a pass, beyond the pass over the sessions.
\<close>

fun gc_rank :: "gc_pc \<Rightarrow> nat" where
  "gc_rank (GcOrphans ss) = 3 * length ss"
| "gc_rank (GcEnding s ss) = 3 * length ss + 2"
| "gc_rank (GcDropping s ss) = 3 * length ss + 1"
| "gc_rank _ = 0"

end
