(* ===== verification/Guarantees.thy ===== *)
theory Guarantees
  imports Request_Steps GC_Steps
begin

text \<open>
  The other goroutines keep to the rely condition of theory \<open>Evolution\<close> too: the GC loop changes the
  shared world steadily except when it takes away the sessions that are silent, a handler does so
  except when it gives back its slot or takes away the session of its own task, and a poller adds
  the task it has fetched.
\<close>

section \<open>The GC loop\<close>

lemma gc_report_steady: "quiet_resolver R \<Longrightarrow> steady w (gc_report R s w)"
  using quiet_call(2) by (auto simp: gc_report_def Let_def split: option.split)

lemma gc_step_view:
  assumes "quiet_resolver R" "gc_step stop now R maxAge pc w = (w', pc')"
  shows "slots_view w' = slots_view w"
  using assms(2) steady_view [OF gc_report_steady [OF assms(1)]]
  by (cases "(stop, now, R, maxAge, pc, w)" rule: gc_step.cases) (auto simp: slots_view_def Let_def split: prod.splits)

text \<open>What the others do in the middle of a pass changes nothing of what it owes.\<close>

lemma gc_evolves:
  assumes "gc_ok w pc" "evolves w w'" "world_ok w"
  shows "gc_ok w' pc" "gc_owes w' pc = gc_owes w pc"
  using evolvesD(6,7) [OF assms(2,3)] assms(1)
  by (auto simp: gc_ok_def gc_owes_def intro!: image_cong elim: less_le_trans)

lemma gc_step_stopped: "gc_step stop now R maxAge pc w = (w', pc') \<Longrightarrow> pc' = GcStopped \<Longrightarrow> stop \<or> pc = GcStopped"
  by (cases "(stop, now, R, maxAge, pc, w)" rule: gc_step.cases) (auto simp: Let_def split: prod.splits if_splits)

text \<open>
  A step changes the shared world steadily, but for the tasks whose sessions it takes away: these it
  owes an end. What it owed before it owes still, or the task is done.
\<close>

lemma gc_step_guar:
  assumes "quiet_resolver R" "gc_step stop now R maxAge pc w = (w', pc')" "gc_ok w pc" "world_ok w"
  shows "steady_on (gc_owes w' pc') w w'" "gc_ok w' pc'" "gc_owes w pc \<subseteq> gc_owes w' pc' \<union> {r. done_fired (w_heap w' r)}"
proof -
  have keep: "gc_ok w' q \<and> gc_owes w' q = gc_owes w q" if "steady_on X w w'" "gc_ok w q" for q X
    using gc_evolves [OF that(2) steady_evolves [OF that(1)] assms(4)] by blast
  have "steady_on (gc_owes w' pc') w w' \<and> gc_ok w' pc' \<and> gc_owes w pc \<subseteq> gc_owes w' pc' \<union> {r. done_fired (w_heap w' r)}"
  proof (cases pc)
    case GcWaiting
    then show ?thesis using assms(2) by (auto simp: gc_ok_def gc_owes_def split: if_splits)
  next
    case (GcReaping t ids)
    then have "w' = w\<lparr>w_store := gc_remove ids (w_store w)\<rparr>" "pc' = GcExpiring t" using assms(2) by auto
    then show ?thesis using GcReaping steady_atoms(4) by (simp add: gc_ok_def gc_owes_def)
  next
    case (GcExpiring t)
    let ?ss = "snd (Expire t maxAge (w_sessions w))"
    have e: "w' = w\<lparr>w_sessions := fst (Expire t maxAge (w_sessions w))\<rparr>" "pc' = GcOrphans ?ss"
      using assms(2) GcExpiring by (auto simp: split_beta Let_def)
    note sm = world_okD(2) [OF assms(4)]
    have "gc_ok w pc'"
      using Expire_returned [OF sm, of _ t maxAge] sm_okD(2) [OF sm] by (auto simp: e(2) gc_ok_def Lookup_def)
    moreover have "steady_on (gc_owes w pc') w w'"
      unfolding e(1) by (rule steady_Expire) (simp add: e(2) gc_owes_def)
    ultimately show ?thesis using keep GcExpiring by (simp add: gc_owes_def)
  next
    case (GcOrphans ss)
    show ?thesis
    proof (cases ss)
      case Nil
      then show ?thesis using assms(2) GcOrphans by (auto simp: gc_ok_def gc_owes_def)
    next
      case (Cons s rest)
      then have e: "w' = gc_report R s w" "pc' = GcEnding s rest" using assms(2) GcOrphans by auto
      then have st: "steady w w'" using gc_report_steady [OF assms(1)] by simp
      have "gc_ok w pc'" "gc_owes w pc' = gc_owes w pc"
        using assms(3) by (simp_all add: GcOrphans Cons e(2) gc_ok_def gc_owes_def)
      then show ?thesis using keep [OF st, of pc'] steady_any [OF st] by simp
    qed
  next
    case (GcEnding s ss)
    let ?r = "s_TaskCtx (w_session w s)"
    have e: "w' = w_modify ?r MarkDone w" "pc' = GcDropping s ss" using assms(2) GcEnding by auto
    have "steady_on X w w'" for X
      unfolding e(1) by (rule steady_signal) (use session_admits assms(3) GcEnding in \<open>auto simp: gc_ok_def\<close>)
    moreover have "done_fired (w_heap w' ?r)" by (simp add: e(1) taskctx_defs)
    ultimately show ?thesis
      using assms(3) GcEnding by (auto simp: e gc_ok_def gc_owes_def)
  next
    case (GcDropping s ss)
    then show ?thesis using assms(2,3) steady_atoms(3) by (auto simp: gc_ok_def gc_owes_def)
  next
    case GcStopped
    then show ?thesis using assms(2,3) by auto
  qed
  then show "steady_on (gc_owes w' pc') w w'" "gc_ok w' pc'" "gc_owes w pc \<subseteq> gc_owes w' pc' \<union> {r. done_fired (w_heap w' r)}"
    by blast+
qed

text \<open>The GC loop on its own, at whatever times its ticks come: it can always end its pass.\<close>

definition gc_moves :: "('x world) Resolver \<Rightarrow> duration \<Rightarrow> 'x world \<times> gc_pc \<Rightarrow> 'x world \<times> gc_pc \<Rightarrow> bool" where
  "gc_moves R maxAge c c' \<longleftrightarrow> (\<exists>now. gc_step False now R maxAge (snd c) (fst c) = c')"

lemma gc_move: "gc_step False now R maxAge pc w = c \<Longrightarrow> (gc_moves R maxAge)\<^sup>*\<^sup>* c c' \<Longrightarrow> (gc_moves R maxAge)\<^sup>*\<^sup>* (w, pc) c'"
  by (rule converse_rtranclp_into_rtranclp) (auto simp: gc_moves_def)

lemma gc_moves_orphans: "\<exists>w'. (gc_moves R maxAge)\<^sup>*\<^sup>* (w, GcOrphans ss) (w', GcWaiting)"
proof (induction ss arbitrary: w)
  case Nil
  have "(gc_moves R maxAge)\<^sup>*\<^sup>* (w, GcOrphans []) (w, GcWaiting)" by (rule gc_move) auto
  then show ?case by blast
next
  case (Cons s ss)
  let ?w1 = "gc_report R s w"
  let ?w2 = "w_modify (s_TaskCtx (w_session ?w1 s)) MarkDone ?w1"
  let ?w3 = "w_remove_task (t_ID (w_heap ?w2 (s_TaskCtx (w_session ?w2 s)))) ?w2"
  obtain w' where "(gc_moves R maxAge)\<^sup>*\<^sup>* (?w3, GcOrphans ss) (w', GcWaiting)" using Cons by blast
  then have "(gc_moves R maxAge)\<^sup>*\<^sup>* (?w2, GcDropping s ss) (w', GcWaiting)" by (rule gc_move [rotated]) simp
  then have "(gc_moves R maxAge)\<^sup>*\<^sup>* (?w1, GcEnding s ss) (w', GcWaiting)" by (rule gc_move [rotated]) simp
  then have "(gc_moves R maxAge)\<^sup>*\<^sup>* (w, GcOrphans (s # ss)) (w', GcWaiting)" by (rule gc_move [rotated]) simp
  then show ?case by blast
qed

lemma gc_moves_waiting:
  assumes "pc \<noteq> GcStopped"
  shows "\<exists>w'. (gc_moves R maxAge)\<^sup>*\<^sup>* (w, pc) (w', GcWaiting)"
proof -
  have ex: "\<exists>w'. (gc_moves R maxAge)\<^sup>*\<^sup>* (v, GcExpiring t) (w', GcWaiting)" for v t
    using gc_moves_orphans gc_move [of 0 R maxAge "GcExpiring t" v] by (fastforce simp: split_beta Let_def)
  show ?thesis
  proof (cases pc)
    case (GcReaping t ids)
    then show ?thesis using ex gc_move [of 0 R maxAge pc w] by fastforce
  next
    case (GcEnding s ss)
    let ?w2 = "w_modify (s_TaskCtx (w_session w s)) MarkDone w"
    obtain w' where "(gc_moves R maxAge)\<^sup>*\<^sup>* (w_remove_task (t_ID (w_heap ?w2 (s_TaskCtx (w_session ?w2 s)))) ?w2, GcOrphans ss)
        (w', GcWaiting)" using gc_moves_orphans by blast
    then have "(gc_moves R maxAge)\<^sup>*\<^sup>* (?w2, GcDropping s ss) (w', GcWaiting)" by (rule gc_move [rotated]) simp
    then have "(gc_moves R maxAge)\<^sup>*\<^sup>* (w, pc) (w', GcWaiting)" by (rule gc_move [rotated]) (simp add: GcEnding)
    then show ?thesis by blast
  next
    case (GcDropping s ss)
    then show ?thesis using gc_moves_orphans gc_move [of 0 R maxAge pc w] by fastforce
  qed (use assms ex gc_moves_orphans in auto)
qed

lemma gc_moves_view:
  assumes "(gc_moves R maxAge)\<^sup>*\<^sup>* c c'" "quiet_resolver R"
  shows "slots_view (fst c') = slots_view (fst c) \<and> (snd c \<noteq> GcStopped \<longrightarrow> snd c' \<noteq> GcStopped)"
  using assms(1)
proof (induction rule: rtranclp_induct)
  case (step c1 c2)
  obtain now where st: "gc_step False now R maxAge (snd c1) (fst c1) = (fst c2, snd c2)"
    using step.hyps(2) by (auto simp: gc_moves_def)
  have "snd c1 \<noteq> GcStopped \<longrightarrow> snd c2 \<noteq> GcStopped"
    using gc_step_stopped [OF st] by blast
  then show ?case using step.IH gc_step_view [OF assms(2) st] by simp
qed simp

lemma gc_moves_guar:
  assumes "(gc_moves R maxAge)\<^sup>*\<^sup>* c c'" "quiet_resolver R" "world_ok (fst c)" "gc_ok (fst c) (snd c)"
  shows "evolves (fst c) (fst c') \<and> gc_ok (fst c') (snd c')
    \<and> gc_owes (fst c) (snd c) \<subseteq> gc_owes (fst c') (snd c') \<union> {r. done_fired (w_heap (fst c') r)}"
  using assms(1)
proof (induction rule: rtranclp_induct)
  case (step c1 c2)
  obtain now where st: "gc_step False now R maxAge (snd c1) (fst c1) = (fst c2, snd c2)"
    using step.hyps(2) by (auto simp: gc_moves_def)
  note e = evolvesD [OF conjunct1 [OF step.IH] assms(3)]
  note g = gc_step_guar [OF assms(2) st _ e(1)]
  have g1: "evolves (fst c1) (fst c2)" using g(1) step.IH steady_evolves by blast
  have "done_fired (w_heap (fst c2) r)" if "r \<in> gc_owes (fst c) (snd c)" "done_fired (w_heap (fst c1) r)" for r
  proof -
    have "r < w_next (fst c)" using that(1) assms(3,4) world_okD(5) by (auto simp: gc_owes_def gc_ok_def)
    then have "r < w_next (fst c1)" using e(2) by simp
    from evolvesD(3) [OF g1 e(1) this] show ?thesis using that(2) by (simp add: keeps_ctx_def)
  qed
  then show ?case using step.IH g g1 evolves_trans by blast
qed (use assms(4) in simp)

section \<open>Guarantee: handlers and pollers\<close>

text \<open>
  A step of a handler releases a slot exactly if that is its action, and changes nothing else of the
  slots. The session it takes away is one of its own task; \<open>X\<close> contains that task.
\<close>

fun ends_session :: "'x handler_pc \<Rightarrow> bool" where
  "ends_session (HClean (ExDrop tok # ops)) = True"
| "ends_session _ = False"

definition handler_guar :: "tref set \<Rightarrow> 'x world \<Rightarrow> 'x handler_pc \<Rightarrow> 'x world \<Rightarrow> bool" where
  "handler_guar X w pc w' \<longleftrightarrow> evolves w w' \<and> tends (if ends_session pc then X else {}) w w'
     \<and> slots_view w' = (if releasing pc then (Release (w_pool w), snd (slots_view w)) else slots_view w)"

text \<open>A token whose session may be removed: that of some session of a task of \<open>X\<close>. Nothing is said of
  the tasks when \<open>X\<close> is everything, which needs no knowledge of the token.\<close>

definition drops_own :: "tref set \<Rightarrow> 'x world \<Rightarrow> string \<Rightarrow> bool" where
  "drops_own X w tok \<longleftrightarrow> tok = [] \<or> X = UNIV
     \<or> (\<exists>s < sm_next (w_sessions w). s_SessionToken (w_session w s) = tok \<and> s_TaskCtx (w_session w s) \<in> X)"

lemma drops_own_evolves: "evolves w w' \<Longrightarrow> world_ok w \<Longrightarrow> drops_own X w tok \<Longrightarrow> drops_own X w' tok"
  using evolvesD(6-8) [of w w'] unfolding drops_own_def by (metis order_less_le_trans)

text \<open>The token that a task holds is that of a session of the task.\<close>

lemma drops_own_token: "tokens_ok w \<Longrightarrow> r < w_next w \<Longrightarrow> drops_own {r} w (SessionToken (w_heap w r))"
  using tokens_okD(3) [of w r] unfolding drops_own_def by (fastforce simp: set_admitted)

lemma guar_steady: "steady w w' \<Longrightarrow> \<not> releasing pc \<Longrightarrow> handler_guar X w pc w'"
  using steady_any [of w w'] by (cases "ends_session pc") (simp_all add: handler_guar_def steady_on_def)

lemma drop_session_steady: "drops_own X w tok \<Longrightarrow> steady_on X w (w_remove_session tok w)"
  by (rule steady_remove_session) (auto simp: drops_own_def)

lemma drop_task_steady: "steady_on X w (drop_task r w)"
  unfolding drop_task_def by (rule steady_atoms)

lemma report_steady: "quiet_client c \<Longrightarrow> steady w (report_failure c r w)"
  by (simp add: report_failure_def quiet_client_def quiet_def)

fun op_quiet :: "'x exit_op \<Rightarrow> bool" where
  "op_quiet (ExReport c) = quiet_client c"
| "op_quiet _ = True"

fun handler_quiet :: "'x handler_pc \<Rightarrow> bool" where
  "handler_quiet (HWait1 c) = quiet_client c"
| "handler_quiet (HClean ops) = list_all op_quiet ops"
| "handler_quiet _ = True"

lemma exit_step_guar:
  assumes "op_quiet op" "\<And>tok. op = ExDrop tok \<Longrightarrow> drops_own X w tok"
  shows "handler_guar X w (HClean (op # ops)) (exit_step op r w)"
proof (cases op)
  case (ExReport c)
  then have "steady w (exit_step op r w)" using assms(1) report_steady by simp
  then show ?thesis by (rule guar_steady) (simp add: ExReport)
next
  case ExSession
  then show ?thesis using guar_steady [of w w "HClean (op # ops)"] by simp
next
  case (ExDrop tok)
  then show ?thesis using drop_session_steady [OF assms(2)] by (simp add: handler_guar_def steady_on_def)
next
  case ExRelease
  have "tends {} w (w_release w)" by (rule tends_frame) simp_all
  then show ?thesis using ExRelease evolves_release by (simp add: handler_guar_def slots_view_def)
next
  case ExTask
  then show ?thesis using guar_steady [OF drop_task_steady, of "HClean (op # ops)"] by simp
qed

lemma handle_start_steady:
  assumes "quiet_resolver R" "quiet_trigger trigger" "handle_start R trigger r w = (w', hs')"
  shows "steady w w' \<and> handler_quiet (h_pc hs')"
  using assms(3)
proof (cases rule: handle_start_pc)
  case unknown
  then show ?thesis by simp
next
  case (failed inst client err)
  then show ?thesis
    using quiet_call(1) [OF assms(1) failed(1)] quiet_triggered [OF assms(2) failed(2)] by simp
next
  case (dispatched inst client w1)
  have "steady w w'"
    unfolding dispatched(3) enter_select_def
    by (intro steady_modified quiet_triggered [OF assms(2) dispatched(2)]) simp_all
  then show ?thesis using quiet_call(1) [OF assms(1) dispatched(1)] dispatched(4) by simp
qed

lemma handle_wait1_steady:
  assumes "quiet_client c" "handle_wait1 c sel r w = (w', hs')"
  shows "steady w w' \<and> handler_quiet (h_pc hs')"
proof -
  have "steady w (w_modify r (\<lambda>t. fst (Done t)) w)" "steady w (w_modify r (\<lambda>t. fst (Registered t)) w)"
    by (rule steady_gentle; simp)+
  then show ?thesis using assms by (cases sel) (auto simp: handle_wait1_def)
qed

lemma handle_step_guar:
  assumes "quiet_resolver R" "quiet_trigger trigger" "handler_quiet (h_pc hs)"
    and "handle_step R trigger timer ctx sel r hs w = Some (w', hs')"
    and "\<And>tok ops. h_pc hs = HClean (ExDrop tok # ops) \<Longrightarrow> drops_own X w tok"
  shows "handler_guar X w (h_pc hs) w' \<and> handler_quiet (h_pc hs') \<and> h_pc hs \<noteq> HExit"
  using assms(4)
proof (cases rule: handle_step_cases)
  case start
  then show ?thesis using guar_steady [of w w' "h_pc hs"] handle_start_steady [OF assms(1,2) start(2)] by simp
next
  case (wait1 c)
  then have "quiet_client c" using assms(3) by simp
  from handle_wait1_steady [OF this wait1(3)] show ?thesis using guar_steady [of w w' "h_pc hs"] wait1(1) by simp
next
  case wait2
  then show ?thesis using guar_steady [of w w' "h_pc hs"] steady_refl by simp
next
  case (clean op ops)
  then have "op_quiet op" "list_all op_quiet ops" using assms(3) by simp_all
  moreover have "list_all op_quiet (exit_rest op r w)" by (cases op) simp_all
  ultimately show ?thesis using exit_step_guar [of op X w ops r] assms(5) clean by simp
qed

lemma handle_step_changes:
  assumes "quiet_resolver R" "quiet_trigger trigger" "handler_quiet (h_pc hs)"
    and "handle_step R trigger timer ctx sel r hs w = Some (w', hs')"
  shows "evolves w w'" "handler_quiet (h_pc hs')" "h_pc hs \<noteq> HExit"
    "slots_view w' = (if releasing (h_pc hs) then (Release (w_pool w), snd (slots_view w)) else slots_view w)"
  using handle_step_guar [OF assms, of UNIV] by (simp_all add: handler_guar_def drops_own_def)

text \<open>A poller adds the one task it has fetched, at a fresh address.\<close>

lemma evolves_put:
  assumes "h = (w_heap w)(w_next w := c)" "\<not> signalled c"
  shows "evolves w (w\<lparr>w_heap := h, w_next := Suc (w_next w), w_store := PutPending h (w_next w) (w_store w)\<rparr>)"
proof (rule evolves_if_ok)
  assume ok: "world_ok w"
  let ?w = "w\<lparr>w_heap := h, w_next := Suc (w_next w), w_store := PutPending h (w_next w) (w_store w)\<rparr>"
  note D = world_okD [OF ok]
  have g: "GetByRegToken tok (w_store w) = Some r"
    if "r < w_next w" "GetByRegToken tok (PutPending h (w_next w) (w_store w)) = Some r" for tok r
    using that by (auto simp: GetByRegToken_Some PutPending_def assms split: if_splits)
  have l: "s_TaskCtx (w_session w s) < Suc (w_next w)" if "s < sm_next (w_sessions w)" for s
    using D(5) [OF that] by simp
  have m: "r < Suc (w_next w) \<and> t_ID (h r) = i"
    if "mget (ms_tasks (PutPending h (w_next w) (w_store w))) i = Some r" for i r
    using that D(3,4) [of i r] by (auto simp: PutPending_def assms split: if_splits)
  have ms: "ms_ok (PutPending h (w_next w) (w_store w))" using D(1) by simp
  have adm: "admitted ?w r = admitted w r" for r by (simp add: admitted_def)
  have cl: "claims ?w r = claims w r" for r by (simp add: claims_def)
  have ch: "chances ?w r \<le> chances w r" if "r < w_next w" for r
    using open_tokens_shrink [OF ms g [OF that]] by (simp add: chances_def adm cl)
  have own: "tok = t_RegToken c" if nc: "no_collisions ?w" and t: "GetByRegToken tok (w_store ?w) = Some (w_next w)" for tok
  proof (rule ccontr)
    assume "tok \<noteq> t_RegToken c"
    then have "mget (ms_byReg (w_store w)) tok = Some (t_ID c)"
      using t D(3) by (auto simp: GetByRegToken_Some PutPending_def assms split: if_splits)
    then obtain q where q: "mget (ms_tasks (w_store w)) (t_ID c) = Some q"
      using ms_okD(3) [OF D(1)] by fastforce
    have "q < w_next w" "t_ID (w_heap w q) = t_ID c" using D(3,4) [OF q] .
    then have "q = w_next w" by (intro no_collisionsD [OF nc]) (simp_all add: assms(1))
    with \<open>q < w_next w\<close> show False by simp
  qed
  have before: "no_collisions w" if "no_collisions ?w"
    by (rule no_collisions_before [OF _ _ that]) (simp_all add: assms(1))
  have new: "chances ?w (w_next w) \<le> 1" if nc: "no_collisions ?w"
  proof -
    have "length (open_tokens (w_store ?w) (w_next w)) \<le> length [t_RegToken c]"
      using distinct_open_tokens [OF ms] own [OF nc] by (intro length_le_if_subset) (auto simp: set_open_tokens)
    moreover have "admitted w (w_next w) = []" using D(5) by (fastforce simp: admitted_def filter_empty_conv)
    moreover have "\<not> claimed_by (w_next w) q" if "q \<in> set (w_requests w)" for q
      using D(8) [OF that] by (cases q; cases "snd q") (auto simp: claimed_by_def request_ok_def)
    then have "claims w (w_next w) = []" by (simp add: claims_def filter_empty_conv)
    ultimately show ?thesis by (simp add: chances_def adm cl)
  qed
  have req: "request_ok ?w q" if "q \<in> set (w_requests w)" for q
    by (rule request_ok_kept [OF D(8) [OF that]]) (use g D(5) in \<open>simp_all add: assms(1)\<close>)
  have tok: "t_RegToken (h r) = tok" if nc: "no_collisions ?w" and t: "GetByRegToken tok (w_store ?w) = Some r" for tok r
  proof (cases "r < w_next w")
    case True
    then show ?thesis using D(7) [OF before [OF nc]] g [OF True] t by (simp add: assms(1))
  next
    case False
    then have "r = w_next w" using m t by (auto simp: GetByRegToken_Some less_Suc_eq)
    then show ?thesis using own [OF nc] t by (simp add: assms(1))
  qed
  have "admitted w r \<noteq> []" if "r < Suc (w_next w)" "signalled (h r)" for r
    using that D(6) [of r] assms(2) by (auto simp: assms(1) less_Suc_eq split: if_splits)
  then have "world_ok ?w"
    unfolding world_ok_def adm using l m ms D(2) tok req by simp
  then show "evolves w ?w"
    unfolding evolves_def using g ch new
    by (simp add: less_Suc_eq le_less_Suc_eq) (auto simp: assms PutPending_def split: if_splits)
qed

lemma tends_put:
  assumes "h = (w_heap w)(w_next w := c)" "t_RegToken c \<noteq> []" "SessionToken c = []"
  shows "tends X w (w\<lparr>w_heap := h, w_next := Suc (w_next w), w_store := PutPending h (w_next w) (w_store w)\<rparr>)"
proof (rule tends_if_ok)
  assume ok: "world_ok w" "tokens_ok w"
  let ?w = "w\<lparr>w_heap := h, w_next := Suc (w_next w), w_store := PutPending h (w_next w) (w_store w)\<rparr>"
  have adm: "admitted ?w r = admitted w r" for r by (simp add: admitted_def)
  have none: "admitted w (w_next w) = []" using world_okD(5) [OF ok(1)] by (fastforce simp: admitted_def filter_empty_conv)
  have "tok \<noteq> []" if "mget (ms_byReg (w_store ?w)) tok \<noteq> None" for tok
    using that tokens_okD(1) [OF ok(2), of tok] assms(2) by (auto simp: PutPending_def assms(1) split: if_splits)
  then have "tokens_ok ?w"
    using tokens_okD(2-4) [OF ok(2)] assms(3) unfolding tokens_ok_def adm by (auto simp: assms(1) less_Suc_eq)
  moreover have "tended ?w r" if "r < Suc (w_next w)" "r < w_next w \<longrightarrow> tended w r" for r
    using that none unfolding tended_def adm by (auto simp: watched_def assms(1) less_Suc_eq)
  ultimately show "tends X w ?w" unfolding tends_def by simp
qed

lemma poll_step_evolves:
  assumes "quiet_fetch fetch" "poll_step inst fetch ch pc w = (w', pc')"
  shows "evolves w w' \<and> tends {} w w'"
proof -
  have frame: "evolves v v' \<and> tends {} v v'"
    if "w_heap v' = w_heap v" "w_store v' = w_store v" "w_sessions v' = w_sessions v" "w_next v' = w_next v"
      "w_requests v' = w_requests v"
    for v v' :: "'a world"
    using that by (auto intro: evolves_frame tends_frame)
  show ?thesis
  proof (cases pc)
    case AtAcquire
    then show ?thesis
      using assms(2) frame [of "w\<lparr>w_pool := p\<rparr>" w for p]
      by (auto simp: poll_step_def split: prod.splits acquire_result.splits)
  next
    case AtFetch
    obtain w1 res where f: "fetch w = (w1, res)" by fastforce
    note q = quiet_fetched [OF assms(1) f]
    have step: "evolves w v \<and> tends {} w v" if "evolves w1 v \<and> tends {} w1 v" for v
      using that steady_evolves [OF q] steady_tends [OF q] by (blast intro: evolves_trans tends_trans)
    have e: "poll_fetch inst fetch ch w = (w', pc')" using assms(2) AtFetch by (simp add: poll_step_def)
    show ?thesis
    proof (cases rule: poll_fetch_cases [where fetch = fetch and w = w and ?w1.0 = w1 and res = res and inst = inst and ch = ch, OF f])
      case 1
      then have "w' = w_release w1" using e by (simp add: poll_retry_def)
      then show ?thesis using step frame [of "w_release w1" w1] by simp
    next
      case (2 task tok)
      let ?c = "new_TaskCtx inst task tok (pc_now ch)"
      have c: "\<not> signalled ?c" "SessionToken ?c = []" "t_RegToken ?c \<noteq> []"
        using Generate_nonempty [OF 2(2)] by (simp_all add: signalled_def new_TaskCtx_def taskctx_defs)
      show ?thesis using 2 e step [OF conjI [OF evolves_put tends_put], OF refl c(1) refl c(3,2)] by (auto simp: Let_def)
    qed
  next
    case (AtSend r)
    then show ?thesis
      using assms(2) frame [of "w_release w" w] frame [of "w\<lparr>w_chan := c\<rparr>" w for c] frame [of w w]
      by (auto simp: poll_step_def poll_send_def split: if_splits)
  next
    case PollStopped
    then show ?thesis using assms(2) by (simp add: poll_step_def)
  qed
qed

end
