(* ===== verification/Daemon.thy ===== *)
theory Daemon
  imports Guarantees "HOL-Library.Multiset"
begin

text \<open>
  The running daemon: the goroutines that \<^verbatim>\<open>app.Run\<close> starts, as one step relation on their
  shared state. A poller per instance takes slots and puts tasks into the channel, the dispatcher
  goroutine takes them out and starts a handler for each, the handlers wait and end, each with a
  heartbeat beside it while it waits, the south server serves any number of requests at a time, each cut
  at every lock (theory \<open>South_Requests\<close>), its reverse proxy looks up its tokens, the GC loop makes its
  passes (theory \<open>GC_Steps\<close>), and at some point the context is cancelled. Every step runs the definitions of the component theories. A call
  that leaves the process is one step, whose effect on the world includes what the other goroutines
  do while the caller waits (\<open>quiet\<close>, theory \<open>Evolution\<close>).
\<close>

section \<open>State and steps\<close>

record 'x poller =
  pl_inst :: Instance
  pl_fetch :: "'x fetch"
  pl_pc :: poll_pc

record 'x daemon =
  d_world :: "'x world"
  d_cancelled :: bool
  d_pollers :: "'x poller list"
  d_handlers :: "(tref \<times> 'x handler) list"
  d_gc :: gc_pc

text \<open>
  The goroutines. A handler that is started waits in \<open>HStart\<close>; the dispatcher goroutine ranges over
  the channel, which is never closed. A request may arrive at any time, and any of those that are
  being served takes the next step. Of the reverse proxy only the lookup in the token registry
  touches the shared state. The GC loop may stop once the context is cancelled.
\<close>

inductive daemon_step :: "yaml_parse \<Rightarrow> yaml_encode \<Rightarrow> ('x world) Resolver \<Rightarrow> duration \<Rightarrow> 'x trigger \<Rightarrow>
    'x daemon \<Rightarrow> 'x daemon \<Rightarrow> bool"
  for parse encode R maxAge trigger where
  step_poll: "k < length (d_pollers d) \<Longrightarrow> p = d_pollers d ! k \<Longrightarrow> pc_ctx ch = d_cancelled d \<Longrightarrow>
    poll_step (pl_inst p) (pl_fetch p) ch (pl_pc p) (d_world d) = (w', pc') \<Longrightarrow>
    daemon_step parse encode R maxAge trigger d
      (d\<lparr>d_world := w', d_pollers := (d_pollers d)[k := p\<lparr>pl_pc := pc'\<rparr>]\<rparr>)"
| step_dispatch: "w_chan (d_world d) = r # rest \<Longrightarrow>
    daemon_step parse encode R maxAge trigger d
      (d\<lparr>d_world := (d_world d)\<lparr>w_chan := rest\<rparr>,
         d_handlers := d_handlers d @ [(r, \<lparr>h_pc = HStart, h_heartbeat = False\<rparr>)]\<rparr>)"
| step_handler: "k < length (d_handlers d) \<Longrightarrow> d_handlers d ! k = (r, hs) \<Longrightarrow>
    handle_step R trigger timer (d_cancelled d) sel r hs (d_world d) = Some (w', hs') \<Longrightarrow>
    daemon_step parse encode R maxAge trigger d
      (d\<lparr>d_world := w', d_handlers := (d_handlers d)[k := (r, hs')]\<rparr>)"
| step_heartbeat: "k < length (d_handlers d) \<Longrightarrow> d_handlers d ! k = (r, hs) \<Longrightarrow> h_heartbeat hs \<Longrightarrow>
    Resolve R (t_Instance (w_heap (d_world d) r)) = Some (inst, client) \<Longrightarrow>
    w' = HeartbeatTick client (t_ID (w_heap (d_world d) r)) (d_world d) \<Longrightarrow>
    daemon_step parse encode R maxAge trigger d (d\<lparr>d_world := w'\<rparr>)"
| step_arrive: "daemon_step parse encode R maxAge trigger d
      (d\<lparr>d_world := (d_world d)\<lparr>w_requests := w_requests (d_world d) @ [(c, ReqStart)]\<rparr>\<rparr>)"
| step_request: "k < length (w_requests (d_world d)) \<Longrightarrow> w_requests (d_world d) ! k = (c, pc) \<Longrightarrow>
    request_step parse encode R now rnd c pc (d_world d) = (w', pc') \<Longrightarrow>
    daemon_step parse encode R maxAge trigger d (d\<lparr>d_world := put_request k (c, pc') w'\<rparr>)"
| step_proxy: "daemon_step parse encode R maxAge trigger d
      (d\<lparr>d_world := (d_world d)\<lparr>w_registry :=
         fst (registry_lookup (w_heap (d_world d)) (w_sessions (d_world d)) tok now (w_registry (d_world d)))\<rparr>\<rparr>)"
| step_gc: "gc_step stop now R maxAge (d_gc d) (d_world d) = (w', pc') \<Longrightarrow> stop \<longrightarrow> d_cancelled d \<Longrightarrow>
    daemon_step parse encode R maxAge trigger d (d\<lparr>d_world := w', d_gc := pc'\<rparr>)"
| step_cancel: "daemon_step parse encode R maxAge trigger d (d\<lparr>d_cancelled := True\<rparr>)"

text \<open>The state after startup: \<open>New_pool\<close> and the channel have the configured size.\<close>

definition daemon_init :: "int \<Rightarrow> (Instance \<times> 'x fetch) list \<Rightarrow> 'x \<Rightarrow> 'x daemon option" where
  "daemon_init maxParallel insts ext =
     (case New_pool maxParallel of
        None \<Rightarrow> None
      | Some p \<Rightarrow> Some
          \<lparr>d_world = \<lparr>w_heap = (\<lambda>_. undefined), w_next = 0, w_store = NewMemStore, w_sessions = NewManager,
             w_registry = newTokenRegistry, w_pool = p, w_chan = [], w_chan_cap = nat maxParallel, w_requests = [], w_ext = ext\<rparr>,
           d_cancelled = False,
           d_pollers = map (\<lambda>(inst, fetch). \<lparr>pl_inst = inst, pl_fetch = fetch, pl_pc = AtAcquire\<rparr>) insts,
           d_handlers = [], d_gc = GcWaiting\<rparr>)"

inductive_cases daemon_step_cases: "daemon_step parse encode R maxAge trigger d d'"

section \<open>What a poller and a handler do to the slots\<close>

text \<open>The task a poller is about to hand over.\<close>

fun sending :: "poll_pc \<Rightarrow> tref multiset" where
  "sending (AtSend r) = {#r#}"
| "sending _ = {#}"

lemma quiet_fetch_keeps: "quiet_fetch fetch \<Longrightarrow> fetch_keeps_pool fetch"
  by (simp add: quiet_fetch_def quiet_def fetch_keeps_pool_def steady_on_def slots_view_def)

text \<open>Tasks move from being allocated to being sent to the channel; only a cancelled poller drops one.\<close>

lemma poll_step_tasks:
  assumes "quiet_fetch fetch" "poll_step inst fetch ch pc w = (w', pc')"
  shows "w_next w \<le> w_next w' \<and> (\<exists>lost. mset (w_chan w') + sending pc' + lost
      = mset (w_chan w) + sending pc + mset [w_next w..<w_next w'] \<and> (lost \<noteq> {#} \<longrightarrow> pc_ctx ch))"
proof (cases pc)
  case AtAcquire
  then show ?thesis using assms(2) by (auto simp: poll_step_def Acquire_def split: if_splits)
next
  case AtFetch
  obtain w1 res where f: "fetch w = (w1, res)" by fastforce
  note k = steady_slots [OF quiet_fetched [OF assms(1) f]]
  have e: "poll_fetch inst fetch ch w = (w', pc')" using assms(2) AtFetch by (simp add: poll_step_def)
  show ?thesis
  proof (cases rule: poll_fetch_cases [where fetch = fetch and w = w and ?w1.0 = w1 and res = res and inst = inst and ch = ch, OF f])
    case 1
    then show ?thesis using e k AtFetch by (auto simp: poll_retry_def)
  next
    case (2 task tok)
    then have "w_chan w' = w_chan w" "w_next w' = Suc (w_next w)" "pc' = AtSend (w_next w)"
      using e k by (auto simp: Let_def)
    then show ?thesis using AtFetch by simp
  qed
next
  case (AtSend r)
  consider (sent) "w_chan w' = w_chan w @ [r]" "pc' = AtAcquire" "w_next w' = w_next w"
    | (stopped) "w_chan w' = w_chan w" "pc' = PollStopped" "w_next w' = w_next w" "pc_ctx ch"
    | (blocked) "w' = w" "pc' = pc"
    using assms(2) AtSend by (auto simp: poll_step_def poll_send_def split: if_splits)
  then show ?thesis
  proof cases
    case sent then show ?thesis using AtSend by (intro conjI exI [of _ "{#}"]) simp_all
  next
    case stopped then show ?thesis using AtSend by (intro conjI exI [of _ "{#r#}"]) simp_all
  next
    case blocked then show ?thesis using AtSend by (intro conjI exI [of _ "{#}"]) simp_all
  qed
next
  case PollStopped
  then show ?thesis using assms(2) by (intro conjI exI [of _ "{#}"]) (simp_all add: poll_step_def)
qed

section \<open>The invariant\<close>

lemma sum_list_update_add:
  "k < length xs \<Longrightarrow> sum_list (map f (xs[k := y])) + f (xs ! k) = sum_list (map f xs) + (f y :: 'b :: comm_monoid_add)"
proof (induction xs arbitrary: k)
  case (Cons x xs)
  show ?case
  proof (cases k)
    case (Suc j)
    then have "sum_list (map f (xs[j := y])) + f (xs ! j) = sum_list (map f xs) + f y"
      using Cons by simp
    then show ?thesis using Suc by (simp add: add.assoc)
  qed (simp add: ac_simps)
qed simp

definition held_by_pollers :: "'x daemon \<Rightarrow> nat" where
  "held_by_pollers d = (\<Sum>p\<leftarrow>d_pollers d. poll_slots (pl_pc p))"

definition live_handlers :: "'x daemon \<Rightarrow> nat" where
  "live_handlers d = (\<Sum>h\<leftarrow>d_handlers d. handler_slots (h_pc (snd h)))"

definition tasks_in_flight :: "'x daemon \<Rightarrow> tref multiset" where
  "tasks_in_flight d = mset (w_chan (d_world d)) + mset (map fst (d_handlers d))
     + (\<Sum>p\<leftarrow>d_pollers d. sending (pl_pc p))"

definition slots_ok :: "nat \<Rightarrow> 'x daemon \<Rightarrow> bool" where
  "slots_ok N d \<longleftrightarrow>
     pool_sem (w_pool (d_world d)) = held_by_pollers d + length (w_chan (d_world d)) + live_handlers d
     \<and> pool_sem (w_pool (d_world d)) \<le> N \<and> pool_cap (w_pool (d_world d)) = N \<and> w_chan_cap (d_world d) = N"

definition tasks_ok :: "'x daemon \<Rightarrow> bool" where
  "tasks_ok d \<longleftrightarrow> (\<exists>lost. tasks_in_flight d + lost = mset [0..<w_next (d_world d)] \<and> (lost \<noteq> {#} \<longrightarrow> d_cancelled d))"

definition env_ok :: "'x daemon \<Rightarrow> bool" where
  "env_ok d \<longleftrightarrow> (\<forall>p\<in>set (d_pollers d). quiet_fetch (pl_fetch p))
     \<and> (\<forall>h\<in>set (d_handlers d). handler_quiet (h_pc (snd h)))
     \<and> (d_gc d = GcStopped \<longrightarrow> d_cancelled d)"

lemma slots_ok_view:
  assumes "slots_view w' = slots_view (d_world d)"
  shows "slots_ok N (d\<lparr>d_world := w'\<rparr>) = slots_ok N d" "tasks_ok (d\<lparr>d_world := w'\<rparr>) = tasks_ok d"
  using assms
  by (simp_all add: slots_view_def slots_ok_def tasks_ok_def held_by_pollers_def live_handlers_def tasks_in_flight_def)

lemma poller_holds:
  assumes "slots_ok N d" "k < length (d_pollers d)"
  shows "poll_slots (pl_pc (d_pollers d ! k)) + length (w_chan (d_world d)) + live_handlers d
    \<le> pool_sem (w_pool (d_world d))"
proof -
  have "poll_slots (pl_pc (d_pollers d ! k)) \<le> held_by_pollers d"
    unfolding held_by_pollers_def using assms(2) by (intro member_le_sum_list) auto
  then show ?thesis using assms(1) unfolding slots_ok_def by linarith
qed

lemma handler_holds:
  assumes "slots_ok N d" "h \<in> set (d_handlers d)"
  shows "handler_slots (h_pc (snd h)) \<le> pool_sem (w_pool (d_world d))"
proof -
  have "handler_slots (h_pc (snd h)) \<le> live_handlers d"
    unfolding live_handlers_def using assms(2) by (intro member_le_sum_list) auto
  then show ?thesis using assms(1) unfolding slots_ok_def by linarith
qed

lemma step_poll_ok:
  assumes ok: "slots_ok N d" "tasks_ok d" "env_ok d"
    and k: "k < length (d_pollers d)" "p = d_pollers d ! k" "pc_ctx ch = d_cancelled d"
    and st: "poll_step (pl_inst p) (pl_fetch p) ch (pl_pc p) (d_world d) = (w', pc')"
  shows "slots_ok N (d\<lparr>d_world := w', d_pollers := (d_pollers d)[k := p\<lparr>pl_pc := pc'\<rparr>]\<rparr>)"
    "tasks_ok (d\<lparr>d_world := w', d_pollers := (d_pollers d)[k := p\<lparr>pl_pc := pc'\<rparr>]\<rparr>)"
    "env_ok (d\<lparr>d_world := w', d_pollers := (d_pollers d)[k := p\<lparr>pl_pc := pc'\<rparr>]\<rparr>)"
proof -
  let ?d = "d\<lparr>d_world := w', d_pollers := (d_pollers d)[k := p\<lparr>pl_pc := pc'\<rparr>]\<rparr>"
  have q: "quiet_fetch (pl_fetch p)" using ok(3) k(1,2) by (auto simp: env_ok_def)
  have h: "poll_slots (pl_pc p) \<le> pool_sem (w_pool (d_world d))" using poller_holds [OF ok(1) k(1)] k(2) by simp
  note s = poll_step_slots [OF quiet_fetch_keeps [OF q] st h]
  have "held_by_pollers ?d + poll_slots (pl_pc p) = held_by_pollers d + poll_slots pc'"
    using sum_list_update_add [OF k(1), of "\<lambda>p. poll_slots (pl_pc p)" "p\<lparr>pl_pc := pc'\<rparr>"] k(2)
    by (simp add: held_by_pollers_def)
  moreover have "live_handlers ?d = live_handlers d" by (simp add: live_handlers_def)
  ultimately show "slots_ok N ?d" using s ok(1) unfolding slots_ok_def by simp
  obtain lost where l: "mset (w_chan w') + sending pc' + lost
      = mset (w_chan (d_world d)) + sending (pl_pc p) + mset [w_next (d_world d)..<w_next w']"
    "lost \<noteq> {#} \<longrightarrow> d_cancelled d" "w_next (d_world d) \<le> w_next w'"
    using poll_step_tasks [OF q st] k(3) by auto
  obtain lost0 where l0: "tasks_in_flight d + lost0 = mset [0..<w_next (d_world d)]" "lost0 \<noteq> {#} \<longrightarrow> d_cancelled d"
    using ok(2) unfolding tasks_ok_def by blast
  let ?S = "\<lambda>d. \<Sum>p\<leftarrow>d_pollers d. sending (pl_pc p)"
  have u: "?S ?d + sending (pl_pc p) = ?S d + sending pc'"
    using sum_list_update_add [OF k(1), of "\<lambda>p. sending (pl_pc p)" "p\<lparr>pl_pc := pc'\<rparr>"] k(2) by simp
  have "mset [0..<w_next w'] = mset [0..<w_next (d_world d)] + mset [w_next (d_world d)..<w_next w']"
    using l(3) by (metis le_add_diff_inverse mset_append upt_add_eq_append zero_le)
  also have "\<dots> = tasks_in_flight d + lost0 + mset [w_next (d_world d)..<w_next w']" using l0(1) by simp
  finally have "mset [0..<w_next w'] + sending (pl_pc p) =
      mset (map fst (d_handlers d)) + ?S d + lost0
      + (mset (w_chan (d_world d)) + sending (pl_pc p) + mset [w_next (d_world d)..<w_next w'])"
    unfolding tasks_in_flight_def by (simp add: ac_simps)
  also have "\<dots> = mset (map fst (d_handlers d)) + lost0 + mset (w_chan w') + lost + (?S d + sending pc')"
    unfolding l(1) [symmetric] by (simp add: ac_simps)
  also have "\<dots> = (tasks_in_flight ?d + (lost0 + lost)) + sending (pl_pc p)"
    unfolding u [symmetric] tasks_in_flight_def by (simp add: ac_simps)
  finally have "tasks_in_flight ?d + (lost0 + lost) = mset [0..<w_next (d_world ?d)]" by simp
  then show "tasks_ok ?d"
    unfolding tasks_ok_def using l(2) l0(2) by (intro exI [of _ "lost0 + lost"]) auto
  show "env_ok ?d"
    using ok(3) q unfolding env_ok_def by (auto dest!: subsetD [OF set_update_subset_insert])
qed

lemma step_dispatch_ok:
  assumes ok: "slots_ok N d" "tasks_ok d" "env_ok d" and c: "w_chan (d_world d) = r # rest"
  shows "slots_ok N (d\<lparr>d_world := (d_world d)\<lparr>w_chan := rest\<rparr>,
      d_handlers := d_handlers d @ [(r, \<lparr>h_pc = HStart, h_heartbeat = False\<rparr>)]\<rparr>)"
    "tasks_ok (d\<lparr>d_world := (d_world d)\<lparr>w_chan := rest\<rparr>,
      d_handlers := d_handlers d @ [(r, \<lparr>h_pc = HStart, h_heartbeat = False\<rparr>)]\<rparr>)"
    "env_ok (d\<lparr>d_world := (d_world d)\<lparr>w_chan := rest\<rparr>,
      d_handlers := d_handlers d @ [(r, \<lparr>h_pc = HStart, h_heartbeat = False\<rparr>)]\<rparr>)"
proof -
  let ?d = "d\<lparr>d_world := (d_world d)\<lparr>w_chan := rest\<rparr>,
      d_handlers := d_handlers d @ [(r, \<lparr>h_pc = HStart, h_heartbeat = False\<rparr>)]\<rparr>"
  have "held_by_pollers ?d = held_by_pollers d" "live_handlers ?d = Suc (live_handlers d)"
    by (simp_all add: held_by_pollers_def live_handlers_def)
  then show "slots_ok N ?d" using ok(1) c unfolding slots_ok_def by simp
  have "tasks_in_flight ?d = tasks_in_flight d" using c by (simp add: tasks_in_flight_def ac_simps)
  then show "tasks_ok ?d" using ok(2) by (simp add: tasks_ok_def)
  show "env_ok ?d" using ok(3) by (simp add: env_ok_def)
qed

lemma step_handler_ok:
  assumes ok: "slots_ok N d" "tasks_ok d" "env_ok d" and R: "quiet_resolver R" "quiet_trigger trigger"
    and k: "k < length (d_handlers d)" "d_handlers d ! k = (r, hs)"
    and st: "handle_step R trigger timer (d_cancelled d) sel r hs (d_world d) = Some (w', hs')"
  shows "slots_ok N (d\<lparr>d_world := w', d_handlers := (d_handlers d)[k := (r, hs')]\<rparr>)"
    "tasks_ok (d\<lparr>d_world := w', d_handlers := (d_handlers d)[k := (r, hs')]\<rparr>)"
    "env_ok (d\<lparr>d_world := w', d_handlers := (d_handlers d)[k := (r, hs')]\<rparr>)"
proof -
  let ?d = "d\<lparr>d_world := w', d_handlers := (d_handlers d)[k := (r, hs')]\<rparr>"
  have m: "(r, hs) \<in> set (d_handlers d)" using k by (metis nth_mem)
  then have q: "handler_quiet (h_pc hs)" using ok(3) by (auto simp: env_ok_def)
  note v = handle_step_changes [OF R q st]
  have n: "handler_slots (h_pc hs') + (if releasing (h_pc hs) then 1 else 0) = handler_slots (h_pc hs)"
    using slot_released_once [OF st] by simp
  have "live_handlers ?d + handler_slots (h_pc hs) = live_handlers d + handler_slots (h_pc hs')"
    using sum_list_update_add [OF k(1), of "\<lambda>h. handler_slots (h_pc (snd h))" "(r, hs')"] k(2)
    by (simp add: live_handlers_def)
  moreover have "held_by_pollers ?d = held_by_pollers d" by (simp add: held_by_pollers_def)
  moreover have "handler_slots (h_pc hs) \<le> pool_sem (w_pool (d_world d))" using handler_holds [OF ok(1) m] by simp
  moreover have "w_pool w' = (if releasing (h_pc hs) then Release (w_pool (d_world d)) else w_pool (d_world d))"
    "w_chan w' = w_chan (d_world d)" "w_chan_cap w' = w_chan_cap (d_world d)"
    using v(4) by (simp_all add: slots_view_def split: if_splits)
  ultimately show "slots_ok N ?d"
    using ok(1) n unfolding slots_ok_def by (cases "releasing (h_pc hs)") (auto simp: Release_def)
  have f: "map fst ((d_handlers d)[k := (r, hs')]) = map fst (d_handlers d)"
    using k by (simp add: map_update list_update_same_conv)
  have "w_chan w' = w_chan (d_world d)" "w_next w' = w_next (d_world d)"
    using v(4) by (auto simp: slots_view_def split: if_splits)
  then show "tasks_ok ?d" using ok(2) f unfolding tasks_ok_def tasks_in_flight_def by simp
  show "env_ok ?d"
    using ok(3) v(2) unfolding env_ok_def by (auto dest!: subsetD [OF set_update_subset_insert])
qed

lemma daemon_step_ok:
  assumes "daemon_step parse encode R maxAge trigger d d'" "quiet_resolver R" "quiet_trigger trigger"
    and "slots_ok N d" "tasks_ok d" "env_ok d"
  shows "slots_ok N d' \<and> tasks_ok d' \<and> env_ok d'"
  using assms(1)
proof cases
  case (step_poll k p ch w' pc')
  then show ?thesis using step_poll_ok [OF assms(4-6) step_poll(2-5)] by simp
next
  case (step_dispatch r rest)
  then show ?thesis using step_dispatch_ok [OF assms(4-6) step_dispatch(2)] by simp
next
  case (step_handler k r hs timer sel w' hs')
  then show ?thesis using step_handler_ok [OF assms(4-6,2,3) step_handler(2-4)] by simp
next
  case (step_heartbeat k r hs inst client w')
  then show ?thesis
    using slots_ok_view [OF steady_view [OF quiet_call(4) [OF assms(2) step_heartbeat(5)]]] assms(4-6) by (simp add: env_ok_def)
next
  case (step_arrive c)
  then show ?thesis
    using slots_ok_view [OF orderlyD(1) [OF orderly_arrive [of "d_world d" c]]] assms(4-6) by (simp add: env_ok_def)
next
  case (step_request k c pc now rnd w' pc')
  then show ?thesis
    using slots_ok_view [OF orderlyD(1) [OF request_step_orderly [OF assms(2) step_request(2-4)]]] assms(4-6)
    by (simp add: env_ok_def)
next
  case (step_proxy tok now)
  then show ?thesis
    using slots_ok_view [OF steady_view [OF steady_atoms(1) [of "{}" "d_world d"]]] assms(4-6) by (simp add: env_ok_def)
next
  case (step_gc stop now w' pc')
  have "slots_ok N (d\<lparr>d_world := w', d_gc := pc'\<rparr>) = slots_ok N (d\<lparr>d_world := w'\<rparr>)"
    "tasks_ok (d\<lparr>d_world := w', d_gc := pc'\<rparr>) = tasks_ok (d\<lparr>d_world := w'\<rparr>)"
    by (simp_all add: slots_ok_def tasks_ok_def held_by_pollers_def live_handlers_def tasks_in_flight_def)
  moreover have "pc' = GcStopped \<longrightarrow> d_cancelled d"
    using step_gc(3) gc_step_stopped [OF step_gc(2)] assms(6) by (auto simp: env_ok_def)
  ultimately show ?thesis
    using slots_ok_view [OF gc_step_view [OF assms(2) step_gc(2)]] step_gc(1) assms(4-6) by (auto simp: env_ok_def)
next
  case step_cancel
  then show ?thesis
    using assms(4-6)
    by (auto simp: slots_ok_def tasks_ok_def env_ok_def held_by_pollers_def live_handlers_def tasks_in_flight_def)
qed

lemma daemon_init_ok:
  assumes "daemon_init n insts ext = Some d" "\<forall>(inst, fetch)\<in>set insts. quiet_fetch fetch"
  shows "slots_ok (nat n) d \<and> tasks_ok d \<and> env_ok d"
proof -
  have z: "(\<Sum>p\<leftarrow>insts. 0 :: nat) = 0" "(\<Sum>p\<leftarrow>insts. {#}) = ({#} :: tref multiset)" by (induction insts) simp_all
  have n: "0 \<le> n" and d: "d_handlers d = []" "w_chan (d_world d) = []" "w_next (d_world d) = 0"
    "w_chan_cap (d_world d) = nat n" "w_pool (d_world d) = \<lparr>pool_cap = nat n, pool_sem = 0\<rparr>"
    "d_pollers d = map (\<lambda>(inst, fetch). \<lparr>pl_inst = inst, pl_fetch = fetch, pl_pc = AtAcquire\<rparr>) insts"
    "d_gc d = GcWaiting"
    using assms(1) by (auto simp: daemon_init_def New_pool_def split: if_splits)
  then show ?thesis
    using assms(2) z
    by (auto simp: slots_ok_def tasks_ok_def env_ok_def held_by_pollers_def live_handlers_def
        tasks_in_flight_def split_beta comp_def)
qed

interpretation slots: invariant_of "daemon_step parse encode R maxAge trigger"
  "\<lambda>d. quiet_resolver R \<and> quiet_trigger trigger \<and> slots_ok N d \<and> tasks_ok d \<and> env_ok d"
  for parse encode and R :: "('x world) Resolver" and maxAge trigger N
  by unfold_locales (use daemon_step_ok in blast)

lemma daemon_reach_ok:
  assumes "(daemon_step parse encode R maxAge trigger)\<^sup>*\<^sup>* d d'" "quiet_resolver R" "quiet_trigger trigger"
    and "slots_ok N d \<and> tasks_ok d \<and> env_ok d"
  shows "slots_ok N d' \<and> tasks_ok d' \<and> env_ok d'"
  using slots.reach_inv [OF assms(1), of N] assms(2-4) by blast

section \<open>Shutdown\<close>

text \<open>How far each goroutine is from its end once the context is cancelled.\<close>

fun poll_rank :: "poll_pc \<Rightarrow> nat" where
  "poll_rank AtAcquire = 1"
| "poll_rank AtFetch = 2"
| "poll_rank (AtSend r) = 1"
| "poll_rank PollStopped = 0"

fun handler_rank :: "'x handler_pc \<Rightarrow> nat" where
  "handler_rank HStart = 7"
| "handler_rank (HWait1 c) = 6"
| "handler_rank HWait2 = 6"
| "handler_rank (HClean ops) = (\<Sum>op\<leftarrow>ops. op_rank op)"

definition remaining :: "'x daemon \<Rightarrow> nat" where
  "remaining d = (\<Sum>p\<leftarrow>d_pollers d. poll_rank (pl_pc p)) + 8 * length (w_chan (d_world d))
     + (\<Sum>h\<leftarrow>d_handlers d. handler_rank (h_pc (snd h)))"

definition all_stopped :: "'x daemon \<Rightarrow> bool" where
  "all_stopped d \<longleftrightarrow> (\<forall>p\<in>set (d_pollers d). pl_pc p = PollStopped) \<and> w_chan (d_world d) = []
     \<and> (\<forall>h\<in>set (d_handlers d). h_pc (snd h) = HExit) \<and> d_gc d = GcStopped"

lemma rank_0: "poll_rank pc = 0 \<longleftrightarrow> pc = PollStopped" "handler_rank hp = 0 \<longleftrightarrow> hp = HExit"
  by (cases pc; simp) (cases hp; auto simp: sum_list_eq_0_iff dest: hd_in_set)

lemma remaining_0: "remaining d = 0 \<and> d_gc d = GcStopped \<longleftrightarrow> all_stopped d"
  by (auto simp: remaining_def all_stopped_def sum_list_eq_0_iff rank_0)

definition shutdown_choice :: poll_choice where
  "shutdown_choice = \<lparr>pc_ctx = True, pc_prefer_ctx = True, pc_wait_cancelled = True, pc_now = 0, pc_entropy = None\<rparr>"

lemma poll_shutdown:
  assumes "poll_step inst fetch shutdown_choice pc w = (w', pc')" "pc \<noteq> PollStopped" "quiet_fetch fetch"
  shows "poll_rank pc' < poll_rank pc" "w_chan w' = w_chan w"
proof -
  have "poll_rank pc' < poll_rank pc \<and> w_chan w' = w_chan w"
  proof (cases pc)
    case AtFetch
    obtain w1 res where f: "fetch w = (w1, res)" by fastforce
    have "w_chan w1 = w_chan w" by (rule steady_slots [OF quiet_fetched [OF assms(3) f]])
    moreover have e: "poll_fetch inst fetch shutdown_choice w = (w', pc')"
      using assms(1) AtFetch by (simp add: poll_step_def)
    ultimately show ?thesis
      using AtFetch
      by (cases rule: poll_fetch_cases [where fetch = fetch and w = w and ?w1.0 = w1 and res = res and inst = inst
            and ch = shutdown_choice, OF f]) (auto simp: poll_retry_def shutdown_choice_def Let_def)
  qed (use assms(1,2) in \<open>auto simp: poll_step_def Acquire_def poll_send_def shutdown_choice_def\<close>)
  then show "poll_rank pc' < poll_rank pc" "w_chan w' = w_chan w" by blast+
qed

lemma handler_shutdown:
  assumes "h_pc hs \<noteq> HExit"
  shows "\<exists>w' hs'. handle_step R trigger timer True ReadyCtx r hs w = Some (w', hs')
    \<and> handler_rank (h_pc hs') < handler_rank (h_pc hs)"
proof (cases "h_pc hs")
  case HStart
  obtain w' hs' where h: "handle_start R trigger r w = (w', hs')" by fastforce
  then have "handler_rank (h_pc hs') < 7" by (cases rule: handle_start_pc) simp_all
  then show ?thesis using HStart h by (simp add: handle_step_def)
next
  case (HWait1 c)
  then show ?thesis by (simp add: handle_step_def can_fire_def handle_wait1_def)
next
  case HWait2
  then show ?thesis by (simp add: handle_step_def can_fire_def handle_wait2_def)
next
  case (HClean ops)
  then show ?thesis using assms exit_rest_rank by (cases ops) (auto simp: handle_step_def)
qed

lemma sum_list_update_less:
  fixes f :: "'a \<Rightarrow> nat"
  assumes "k < length xs" "f y < f (xs ! k)"
  shows "sum_list (map f (xs[k := y])) < sum_list (map f xs)"
  using sum_list_update_add [OF assms(1), of f y] assms(2) by linarith

lemma shutdown_progress:
  assumes "d_cancelled d" "quiet_resolver R" "quiet_trigger trigger" "env_ok d" "\<not> all_stopped d" "d_gc d = GcStopped"
  shows "\<exists>d'. daemon_step parse encode R maxAge trigger d d' \<and> d_cancelled d' \<and> d_gc d' = GcStopped
    \<and> remaining d' < remaining d"
proof -
  consider (poll) k where "k < length (d_pollers d)" "pl_pc (d_pollers d ! k) \<noteq> PollStopped"
    | (chan) r rest where "w_chan (d_world d) = r # rest"
    | (handler) k where "k < length (d_handlers d)" "h_pc (snd (d_handlers d ! k)) \<noteq> HExit"
    using assms(5,6) unfolding all_stopped_def by (metis in_set_conv_nth list.exhaust)
  then show ?thesis
  proof cases
    case poll
    let ?p = "d_pollers d ! k"
    obtain w' pc' where st: "poll_step (pl_inst ?p) (pl_fetch ?p) shutdown_choice (pl_pc ?p) (d_world d) = (w', pc')"
      by fastforce
    have q: "quiet_fetch (pl_fetch ?p)" using assms(4) poll(1) by (simp add: env_ok_def)
    note r = poll_shutdown [OF st poll(2) q]
    let ?d = "d\<lparr>d_world := w', d_pollers := (d_pollers d)[k := ?p\<lparr>pl_pc := pc'\<rparr>]\<rparr>"
    have "daemon_step parse encode R maxAge trigger d ?d"
      by (rule step_poll [OF poll(1) refl _ st]) (simp add: shutdown_choice_def assms(1))
    moreover have "remaining ?d < remaining d"
      using sum_list_update_less [OF poll(1), of "\<lambda>p. poll_rank (pl_pc p)" "?p\<lparr>pl_pc := pc'\<rparr>"] r
      by (simp add: remaining_def)
    ultimately show ?thesis using assms(1,6) by (intro exI [of _ ?d]) simp
  next
    case chan
    let ?d = "d\<lparr>d_world := (d_world d)\<lparr>w_chan := rest\<rparr>,
         d_handlers := d_handlers d @ [(r, \<lparr>h_pc = HStart, h_heartbeat = False\<rparr>)]\<rparr>"
    have "daemon_step parse encode R maxAge trigger d ?d" by (rule step_dispatch [OF chan])
    moreover have "remaining ?d < remaining d" using chan by (simp add: remaining_def)
    ultimately show ?thesis using assms(1,6) by (intro exI [of _ ?d]) simp
  next
    case handler
    obtain r hs where e: "d_handlers d ! k = (r, hs)" by fastforce
    have hs: "h_pc hs \<noteq> HExit" "handler_quiet (h_pc hs)"
      using handler e assms(4) nth_mem [OF handler(1)] by (auto simp: env_ok_def)
    obtain w' hs' where st: "handle_step R trigger False True ReadyCtx r hs (d_world d) = Some (w', hs')"
      "handler_rank (h_pc hs') < handler_rank (h_pc hs)"
      using handler_shutdown [OF hs(1)] by blast
    have "w_chan w' = w_chan (d_world d)"
      using handle_step_changes(4) [OF assms(2,3) hs(2) st(1)]
      by (auto simp: slots_view_def split: if_splits)
    moreover have "sum_list (map (\<lambda>h. handler_rank (h_pc (snd h))) ((d_handlers d)[k := (r, hs')]))
        < sum_list (map (\<lambda>h. handler_rank (h_pc (snd h))) (d_handlers d))"
      using st(2) e by (intro sum_list_update_less [OF handler(1)]) simp
    ultimately have "remaining (d\<lparr>d_world := w', d_handlers := (d_handlers d)[k := (r, hs')]\<rparr>) < remaining d"
      by (simp add: remaining_def)
    moreover have "daemon_step parse encode R maxAge trigger d
        (d\<lparr>d_world := w', d_handlers := (d_handlers d)[k := (r, hs')]\<rparr>)"
      using st(1) assms(1) by (intro step_handler [OF handler(1) e, where timer = False and sel = ReadyCtx]) simp
    ultimately show ?thesis
      using assms(1,6) by (intro exI [of _ "d\<lparr>d_world := w', d_handlers := (d_handlers d)[k := (r, hs')]\<rparr>"]) simp
  qed
qed

text \<open>The GC loop ends its pass and stops; then the others can end as well.\<close>

lemma gc_moves_daemon:
  assumes "(gc_moves R maxAge)\<^sup>*\<^sup>* (d_world d, d_gc d) c"
  shows "(daemon_step parse encode R maxAge trigger)\<^sup>*\<^sup>* d (d\<lparr>d_world := fst c, d_gc := snd c\<rparr>)"
  using assms
proof (induction rule: rtranclp_induct)
  case (step c1 c2)
  let ?d1 = "d\<lparr>d_world := fst c1, d_gc := snd c1\<rparr>"
  obtain now where "gc_step False now R maxAge (d_gc ?d1) (d_world ?d1) = (fst c2, snd c2)"
    using step.hyps(2) by (auto simp: gc_moves_def)
  from step_gc [OF this] have "daemon_step parse encode R maxAge trigger ?d1 (d\<lparr>d_world := fst c2, d_gc := snd c2\<rparr>)" by simp
  then show ?case using step.IH by simp
qed simp

lemma gc_stops:
  assumes "d_cancelled d"
  shows "\<exists>d'. (daemon_step parse encode R maxAge trigger)\<^sup>*\<^sup>* d d' \<and> d_cancelled d' \<and> d_gc d' = GcStopped"
proof (cases "d_gc d = GcStopped")
  case False
  then obtain w' where "(gc_moves R maxAge)\<^sup>*\<^sup>* (d_world d, d_gc d) (w', GcWaiting)" using gc_moves_waiting by blast
  from gc_moves_daemon [OF this]
  have "(daemon_step parse encode R maxAge trigger)\<^sup>*\<^sup>* d (d\<lparr>d_world := w', d_gc := GcWaiting\<rparr>)" by simp
  moreover have "daemon_step parse encode R maxAge trigger (d\<lparr>d_world := w', d_gc := GcWaiting\<rparr>)
      (d\<lparr>d_world := w', d_gc := GcWaiting\<rparr>\<lparr>d_world := w', d_gc := GcStopped\<rparr>)"
    by (rule step_gc [where stop = True and now = 0]) (use assms in simp_all)
  ultimately show ?thesis
    using assms by (intro exI [of _ "d\<lparr>d_world := w', d_gc := GcWaiting\<rparr>\<lparr>d_world := w', d_gc := GcStopped\<rparr>"]) simp
qed (use assms in blast)

lemma shutdown_run:
  assumes "quiet_resolver R" "quiet_trigger trigger" "d_cancelled d" "slots_ok N d \<and> tasks_ok d \<and> env_ok d"
  shows "\<exists>d'. (daemon_step parse encode R maxAge trigger)\<^sup>*\<^sup>* d d' \<and> all_stopped d'"
proof -
  have run: "d_cancelled d \<Longrightarrow> d_gc d = GcStopped \<Longrightarrow> slots_ok N d \<and> tasks_ok d \<and> env_ok d \<Longrightarrow>
      \<exists>d'. (daemon_step parse encode R maxAge trigger)\<^sup>*\<^sup>* d d' \<and> all_stopped d'" for d
  proof (induction "remaining d" arbitrary: d rule: less_induct)
    case less
    show ?case
    proof (cases "all_stopped d")
      case False
      obtain d1 where s: "daemon_step parse encode R maxAge trigger d d1" "d_cancelled d1" "d_gc d1 = GcStopped"
        "remaining d1 < remaining d"
        using shutdown_progress [OF less.prems(1) assms(1,2) _ False less.prems(2)] less.prems(3) by blast
      have "slots_ok N d1 \<and> tasks_ok d1 \<and> env_ok d1"
        using daemon_step_ok [OF s(1) assms(1,2)] less.prems(3) by blast
      from less.hyps [OF s(4,2,3) this] show ?thesis using s(1) by (meson converse_rtranclp_into_rtranclp)
    qed blast
  qed
  obtain d1 where d1: "(daemon_step parse encode R maxAge trigger)\<^sup>*\<^sup>* d d1" "d_cancelled d1" "d_gc d1 = GcStopped"
    using gc_stops [OF assms(3)] by blast
  from run [OF d1(2,3) daemon_reach_ok [OF d1(1) assms(1,2,4)]] show ?thesis using d1(1) by (meson rtranclp_trans)
qed

lemma all_stopped_slots:
  assumes "slots_ok N d" "all_stopped d"
  shows "pool_sem (w_pool (d_world d)) = 0"
proof -
  have "held_by_pollers d = 0" "live_handlers d = 0"
    using assms(2) by (auto simp: all_stopped_def held_by_pollers_def live_handlers_def sum_list_eq_0_iff)
  then show ?thesis using assms by (simp add: slots_ok_def all_stopped_def)
qed

section \<open>An example\<close>

definition polled_instance :: Instance where
  "polled_instance = example_instance\<lparr>i_Name := ''forgejo-a''\<rparr>"

definition example_fetch :: "UpdateTaskRequest list fetch" where
  "example_fetch w = (w, Inr (Some example_task))"

definition example_trigger :: "UpdateTaskRequest list trigger" where
  "example_trigger t inst w = (w, None)"

definition example_daemon :: "UpdateTaskRequest list daemon" where
  "example_daemon = the (daemon_init 2 [(polled_instance, example_fetch)] [])"

abbreviation ex_daemon_step :: "UpdateTaskRequest list daemon \<Rightarrow> UpdateTaskRequest list daemon \<Rightarrow> bool" where
  "ex_daemon_step \<equiv> daemon_step (\<lambda>_. Inl []) (\<lambda>_. Inl []) log_resolver (10 * minute) example_trigger"

lemma example_quiet: "quiet_resolver log_resolver" "quiet_trigger example_trigger"
    "\<forall>(inst, fetch)\<in>set [(polled_instance, example_fetch)]. quiet_fetch fetch"
  by (auto simp: quiet_resolver_def quiet_client_def quiet_trigger_def quiet_fetch_def quiet_def
      example_trigger_def example_fetch_def log_resolver_def app_resolver_def app_Resolve_def mget_Cons
      log_client_def steady_atoms split: if_splits)

lemma example_daemon_init: "daemon_init 2 [(polled_instance, example_fetch)] [] = Some example_daemon"
  by (simp add: example_daemon_def daemon_init_def New_pool_def)

lemma example_daemon_simps:
  "d_pollers example_daemon = [\<lparr>pl_inst = polled_instance, pl_fetch = example_fetch, pl_pc = AtAcquire\<rparr>]"
  "d_handlers example_daemon = []" "w_chan (d_world example_daemon) = []" "w_next (d_world example_daemon) = 0"
  "w_pool (d_world example_daemon) = \<lparr>pool_cap = 2, pool_sem = 0\<rparr>" "\<not> d_cancelled example_daemon"
  by (simp_all add: example_daemon_def daemon_init_def New_pool_def)

lemma single_poll:
  assumes "d_pollers d = [p]" "pc_ctx ch = d_cancelled d"
    "poll_step (pl_inst p) (pl_fetch p) ch (pl_pc p) (d_world d) = (w', pc')"
  shows "daemon_step parse encode R maxAge trigger d (d\<lparr>d_world := w', d_pollers := [p\<lparr>pl_pc := pc'\<rparr>]\<rparr>)"
  using step_poll [where k = 0, OF _ refl assms(2)] assms by simp

text \<open>The poller takes a slot, fetches a task and sends it: the task is in the channel.\<close>

lemma example_run:
  "\<exists>d2 d. ex_daemon_step\<^sup>*\<^sup>* example_daemon d2 \<and> (\<exists>p. d_pollers d2 = [p] \<and> pl_pc p = AtSend 0)
     \<and> ex_daemon_step\<^sup>*\<^sup>* example_daemon d \<and> \<not> d_cancelled d \<and> w_chan (d_world d) = [0]
     \<and> w_next (d_world d) = 1 \<and> d_handlers d = [] \<and> d_world d2 = (d_world d)\<lparr>w_chan := []\<rparr>
     \<and> (\<exists>tok. tok \<noteq> [] \<and> GetByRegToken tok (w_store (d_world d)) = Some 0
          \<and> \<not> isRegTokenExpired 0 (w_heap (d_world d) 0) \<and> w_sessions (d_world d) = NewManager)
     \<and> t_Instance (w_heap (d_world d) 0) = ''forgejo-a'' \<and> \<not> done_fired (w_heap (d_world d) 0)"
proof -
  let ?p = "\<lparr>pl_inst = polled_instance, pl_fetch = example_fetch, pl_pc = AtAcquire\<rparr>"
  let ?w1 = "(d_world example_daemon)\<lparr>w_pool := \<lparr>pool_cap = 2, pool_sem = 1\<rparr>\<rparr>"
  let ?d1 = "example_daemon\<lparr>d_world := ?w1, d_pollers := [?p\<lparr>pl_pc := AtFetch\<rparr>]\<rparr>"
  have c: "\<not> pc_ctx example_choice" by (simp add: example_choice_def)
  have "poll_step (pl_inst ?p) (pl_fetch ?p) example_choice (pl_pc ?p) (d_world example_daemon) = (?w1, AtFetch)"
    by (simp add: poll_step_def Acquire_def example_daemon_simps example_choice_def)
  from single_poll [OF _ _ this] have s1: "ex_daemon_step example_daemon ?d1"
    using c by (simp add: example_daemon_simps)
  obtain tok where g: "Generate (pc_entropy example_choice) = Inr tok"
    by (simp add: example_choice_def Generate_Inr)
  define w2 where "w2 = fst (poll_step polled_instance example_fetch example_choice AtFetch ?w1)"
  have w2: "poll_step polled_instance example_fetch example_choice AtFetch ?w1 = (w2, AtSend 0)"
    "w_chan w2 = []" "w_next w2 = 1" "w_chan_cap w2 = 2"
    by (simp_all add: w2_def poll_step_def poll_fetch_def example_fetch_def Let_def example_daemon_simps g)
      (simp_all add: example_daemon_def daemon_init_def New_pool_def)
  have "length tok = 64" using g by (auto simp: Generate_Inr)
  then have "tok \<noteq> []" by auto
  have w2_task: "GetByRegToken tok (w_store w2) = Some 0" "w_sessions w2 = NewManager"
    "\<not> isRegTokenExpired 0 (w_heap w2 0)" "t_Instance (w_heap w2 0) = ''forgejo-a''" "\<not> done_fired (w_heap w2 0)"
    by (simp_all add: w2_def poll_step_def poll_fetch_def example_fetch_def Let_def example_daemon_simps g)
      (use g in \<open>auto simp: example_daemon_def daemon_init_def New_pool_def GetByRegToken_Some PutPending_def
        new_TaskCtx_def SetStatus_def Generate_Inr isRegTokenExpired_def example_choice_def polled_instance_def example_instance_def
        zero_Instance_def time_sub_def sat64_def int64_min_def int64_max_def taskctx_defs\<close>)
  let ?d2 = "?d1\<lparr>d_world := w2, d_pollers := [?p\<lparr>pl_pc := AtFetch\<rparr>\<lparr>pl_pc := AtSend 0\<rparr>]\<rparr>"
  have s2: "ex_daemon_step ?d1 ?d2"
    using c w2(1) by (intro single_poll [where ch = example_choice]) (simp_all add: example_daemon_simps)
  let ?w3 = "w2\<lparr>w_chan := [0]\<rparr>"
  let ?d3 = "?d2\<lparr>d_world := ?w3, d_pollers := [?p\<lparr>pl_pc := AtFetch\<rparr>\<lparr>pl_pc := AtSend 0\<rparr>\<lparr>pl_pc := AtAcquire\<rparr>]\<rparr>"
  have s3: "ex_daemon_step ?d2 ?d3"
    using c w2(2-4) by (intro single_poll [where ch = example_choice])
      (simp_all add: example_daemon_simps poll_step_def poll_send_def)
  have "ex_daemon_step\<^sup>*\<^sup>* example_daemon ?d2" using s1 s2 by (meson r_into_rtranclp rtranclp_trans)
  moreover from this have "ex_daemon_step\<^sup>*\<^sup>* example_daemon ?d3" using s3 by (rule rtranclp.rtrancl_into_rtrancl)
  moreover have "w2 = ?w3\<lparr>w_chan := []\<rparr>" using w2(2) by simp
  ultimately show ?thesis using w2 w2_task \<open>tok \<noteq> []\<close>
    by (intro exI [of _ ?d2] exI [of _ ?d3]) (auto simp: example_daemon_simps)
qed

section \<open>Properties\<close>

text \<open>C2: No task is lost, duplicated or handled twice. In every reachable state of the daemon, whatever
  the order in which its goroutines run, each task the pollers have received so far is in exactly one
  place: about to be sent by one poller, in the channel, or with one handler. Only a cancelled context
  can take a task out of all of them.\<close>

theorem no_task_lost:
  assumes "daemon_init n insts ext = Some d0" and "\<forall>(inst, fetch)\<in>set insts. quiet_fetch fetch"
    and "quiet_resolver R" and "quiet_trigger trigger"
    and "(daemon_step parse encode R maxAge trigger)\<^sup>*\<^sup>* d0 d"
  shows "count (tasks_in_flight d) r \<le> 1
    \<and> (count (tasks_in_flight d) r = 1 \<longrightarrow> r < w_next (d_world d))
    \<and> (\<not> d_cancelled d \<longrightarrow> (count (tasks_in_flight d) r = 1 \<longleftrightarrow> r < w_next (d_world d)))"
proof -
  have "tasks_ok d" using daemon_reach_ok [OF assms(5,3,4) daemon_init_ok [OF assms(1,2)]] by blast
  then obtain lost where l: "tasks_in_flight d + lost = mset [0..<w_next (d_world d)]" "lost \<noteq> {#} \<longrightarrow> d_cancelled d"
    unfolding tasks_ok_def by blast
  have "count (tasks_in_flight d) r + count lost r = (if r < w_next (d_world d) then 1 else 0)"
    unfolding count_union [symmetric] l(1) by (simp add: distinct_count_atmost_1 count_mset_0_iff [symmetric] not_in_iff)
  then show ?thesis using l(2) by (auto split: if_splits)
qed

theorem no_task_lost_witness:
  "\<exists>d. ex_daemon_step\<^sup>*\<^sup>* example_daemon d \<and> count (tasks_in_flight d) 0 = 1 \<and> count (tasks_in_flight d) 1 = 0"
proof -
  obtain d where d: "ex_daemon_step\<^sup>*\<^sup>* example_daemon d" "\<not> d_cancelled d" "w_next (d_world d) = 1"
    using example_run by blast
  note p = no_task_lost [OF example_daemon_init example_quiet(3,1,2) d(1)]
  show ?thesis using p [of 0] p [of 1] d by (intro exI [of _ d]) auto
qed

text \<open>C3: At most \<open>max_parallel_tasks\<close> tasks are in flight across all instances, and the slots are
  accounted for exactly: the semaphore holds one slot per poller between its acquire and its send,
  per task in the channel and per handler that has not released its own, and no more than its capacity. So no
  release ever finds the pool empty, and once everything has stopped every slot is free again.\<close>

theorem slots_accounted:
  assumes "daemon_init n insts ext = Some d0" and "\<forall>(inst, fetch)\<in>set insts. quiet_fetch fetch"
    and "quiet_resolver R" and "quiet_trigger trigger"
    and "(daemon_step parse encode R maxAge trigger)\<^sup>*\<^sup>* d0 d"
  shows "pool_sem (w_pool (d_world d)) = held_by_pollers d + length (w_chan (d_world d)) + live_handlers d
    \<and> pool_sem (w_pool (d_world d)) \<le> nat n
    \<and> (\<forall>p\<in>set (d_pollers d). poll_slots (pl_pc p) \<le> pool_sem (w_pool (d_world d)))
    \<and> (\<forall>h\<in>set (d_handlers d). handler_slots (h_pc (snd h)) \<le> pool_sem (w_pool (d_world d)))
    \<and> (all_stopped d \<longrightarrow> pool_sem (w_pool (d_world d)) = 0)"
proof -
  have ok: "slots_ok (nat n) d" using daemon_reach_ok [OF assms(5,3,4) daemon_init_ok [OF assms(1,2)]] by blast
  have "\<forall>p\<in>set (d_pollers d). poll_slots (pl_pc p) \<le> pool_sem (w_pool (d_world d))"
    using poller_holds [OF ok] by (fastforce simp: in_set_conv_nth)
  moreover have "\<forall>h\<in>set (d_handlers d). handler_slots (h_pc (snd h)) \<le> pool_sem (w_pool (d_world d))"
    using handler_holds [OF ok] by blast
  ultimately show ?thesis using ok all_stopped_slots [OF ok] by (auto simp: slots_ok_def)
qed

theorem slots_accounted_witness:
  "\<exists>d. ex_daemon_step\<^sup>*\<^sup>* example_daemon d \<and> length (w_chan (d_world d)) = 1 \<and> 1 \<le> pool_sem (w_pool (d_world d))
     \<and> pool_sem (w_pool (d_world d)) \<le> 2"
proof -
  obtain d where d: "ex_daemon_step\<^sup>*\<^sup>* example_daemon d" "w_chan (d_world d) = [0]"
    using example_run by blast
  show ?thesis
    using slots_accounted [OF example_daemon_init example_quiet(3,1,2) d(1)] d by (intro exI [of _ d]) auto
qed

text \<open>C4: The dispatcher channel never fills up: its buffer is as large as the slot pool, and a poller that
  has a task to send holds a slot that no element of the buffer holds. So a poller is never blocked
  with a task in its hands; without cancellation its send succeeds at once.\<close>

theorem send_never_blocks:
  assumes "daemon_init n insts ext = Some d0" and "\<forall>(inst, fetch)\<in>set insts. quiet_fetch fetch"
    and "quiet_resolver R" and "quiet_trigger trigger"
    and "(daemon_step parse encode R maxAge trigger)\<^sup>*\<^sup>* d0 d"
    and "p \<in> set (d_pollers d)" and "pl_pc p = AtSend r"
  shows "length (w_chan (d_world d)) < w_chan_cap (d_world d)
    \<and> (\<forall>ch. snd (poll_send ch r (d_world d)) \<noteq> AtSend r)
    \<and> (\<forall>ch. \<not> pc_ctx ch \<longrightarrow>
         poll_send ch r (d_world d) = ((d_world d)\<lparr>w_chan := w_chan (d_world d) @ [r]\<rparr>, AtAcquire))"
proof -
  have ok: "slots_ok (nat n) d" using daemon_reach_ok [OF assms(5,3,4) daemon_init_ok [OF assms(1,2)]] by blast
  obtain k where "k < length (d_pollers d)" "d_pollers d ! k = p" using assms(6) by (metis in_set_conv_nth)
  then have "Suc (length (w_chan (d_world d))) \<le> pool_sem (w_pool (d_world d))"
    using poller_holds [OF ok, of k] assms(7) by simp
  then have "length (w_chan (d_world d)) < w_chan_cap (d_world d)" using ok by (simp add: slots_ok_def)
  then show ?thesis by (simp add: poll_send_def)
qed

theorem send_never_blocks_witness:
  "\<exists>d. ex_daemon_step\<^sup>*\<^sup>* example_daemon d \<and> snd (poll_send example_choice 0 (d_world d)) = AtAcquire"
proof -
  obtain d p where d: "ex_daemon_step\<^sup>*\<^sup>* example_daemon d" "d_pollers d = [p]" "pl_pc p = AtSend 0"
    using example_run by blast
  have "p \<in> set (d_pollers d)" using d(2) by simp
  from send_never_blocks [OF example_daemon_init example_quiet(3,1,2) d(1) this d(3)]
  have "poll_send example_choice 0 (d_world d) = ((d_world d)\<lparr>w_chan := w_chan (d_world d) @ [0]\<rparr>, AtAcquire)"
    by (simp add: example_choice_def)
  then show ?thesis using d(1) by (intro exI [of _ d]) simp
qed

text \<open>C5: Shutdown cannot deadlock. From every reachable state in which the context is cancelled there is
  a run of the daemon's own goroutines, with no help from outside, after which every poller and the
  GC loop have stopped, the channel is empty, every handler has exited and every slot is free.\<close>

theorem shutdown_completes:
  assumes "daemon_init n insts ext = Some d0" and "\<forall>(inst, fetch)\<in>set insts. quiet_fetch fetch"
    and "quiet_resolver R" and "quiet_trigger trigger"
    and "(daemon_step parse encode R maxAge trigger)\<^sup>*\<^sup>* d0 d" and "d_cancelled d"
  shows "\<exists>d'. (daemon_step parse encode R maxAge trigger)\<^sup>*\<^sup>* d d' \<and> all_stopped d'
    \<and> pool_sem (w_pool (d_world d')) = 0"
proof -
  have ok: "slots_ok (nat n) d \<and> tasks_ok d \<and> env_ok d"
    using daemon_reach_ok [OF assms(5,3,4) daemon_init_ok [OF assms(1,2)]] .
  obtain d' where d': "(daemon_step parse encode R maxAge trigger)\<^sup>*\<^sup>* d d'" "all_stopped d'"
    using shutdown_run [OF assms(3,4,6) ok] by blast
  have "slots_ok (nat n) d'" using daemon_reach_ok [OF d'(1) assms(3,4) ok] by blast
  then show ?thesis using d' all_stopped_slots by blast
qed

theorem shutdown_completes_witness:
  "\<exists>d d'. ex_daemon_step\<^sup>*\<^sup>* example_daemon d \<and> d_cancelled d \<and> w_chan (d_world d) = [0]
     \<and> ex_daemon_step\<^sup>*\<^sup>* d d' \<and> all_stopped d'"
proof -
  obtain d where d: "ex_daemon_step\<^sup>*\<^sup>* example_daemon d" "w_chan (d_world d) = [0]" using example_run by blast
  let ?d = "d\<lparr>d_cancelled := True\<rparr>"
  have r: "ex_daemon_step\<^sup>*\<^sup>* example_daemon ?d" 
    by (rule rtranclp.rtrancl_into_rtrancl [OF d(1) step_cancel])
  obtain d' where "ex_daemon_step\<^sup>*\<^sup>* ?d d'" "all_stopped d'"
    using shutdown_completes [OF example_daemon_init example_quiet(3,1,2) r] by auto
  then show ?thesis using r d(2) by (intro exI [of _ ?d] exI [of _ d']) simp
qed

end
