(* ===== verification/Daemon_Records.thy ===== *)
theory Daemon_Records
  imports Daemon
begin

text \<open>
  What every run of the daemon does to its records: the task store, the registration tokens and
  the sessions. The step relation of theory \<open>Daemon\<close> respects \<open>evolves\<close>, so a token that
  was spent stays spent and a task keeps its identity and its signals; and every task in the store
  has somebody who will remove it, so the store is as bounded as the slots.
\<close>

section \<open>Runs evolve\<close>

lemma daemon_step_evolves:
  assumes "daemon_step parse encode R maxAge trigger d d'" "quiet_resolver R" "quiet_trigger trigger" "env_ok d"
    and "gc_ok (d_world d) (d_gc d)" "world_ok (d_world d)"
  shows "evolves (d_world d) (d_world d')"
  using assms(1)
proof cases
  case (step_poll k p ch w' pc')
  then have "quiet_fetch (pl_fetch p)" using assms(4) by (simp add: env_ok_def)
  from poll_step_evolves [OF this step_poll(5)] show ?thesis using step_poll(1) by simp
next
  case (step_dispatch r rest)
  then show ?thesis by (auto intro: evolves_frame)
next
  case (step_handler k r hs timer sel w' hs')
  then have "handler_quiet (h_pc hs)" using assms(4) nth_mem [OF step_handler(2)] by (auto simp: env_ok_def)
  from handle_step_changes(1) [OF assms(2,3) this step_handler(4)] show ?thesis
    using step_handler(1) by simp
next
  case (step_heartbeat k r hs inst client w')
  then show ?thesis using steady_evolves [OF quiet_call(4) [OF assms(2) step_heartbeat(5)]] by simp
next
  case (step_arrive c)
  then show ?thesis using orderlyD(2) [OF orderly_arrive] by simp
next
  case (step_request k c pc now rnd w' pc')
  then show ?thesis using orderlyD(2) [OF request_step_orderly [OF assms(2) step_request(2-4)]] by simp
next
  case (step_proxy tok now)
  then show ?thesis using steady_evolves [OF steady_atoms(1)] by simp
next
  case (step_gc stop now w' pc')
  then show ?thesis using steady_evolves [OF gc_step_guar(1) [OF assms(2) step_gc(2) assms(5,6)]] by simp
next
  case step_cancel
  then show ?thesis by simp
qed

abbreviation run_ok :: "('x world) Resolver \<Rightarrow> 'x trigger \<Rightarrow> nat \<Rightarrow> 'x daemon \<Rightarrow> bool" where
  "run_ok R trigger N d \<equiv> quiet_resolver R \<and> quiet_trigger trigger \<and> (slots_ok N d \<and> tasks_ok d \<and> env_ok d)
     \<and> world_ok (d_world d) \<and> gc_ok (d_world d) (d_gc d)"

text \<open>The GC loop in the middle of a pass: its sessions exist, and the steps of the others do not matter to it.\<close>

lemma daemon_step_gc:
  assumes "daemon_step parse encode R maxAge trigger d d'" "quiet_resolver R" "gc_ok (d_world d) (d_gc d)"
    and "world_ok (d_world d)" "evolves (d_world d) (d_world d')"
  shows "gc_ok (d_world d') (d_gc d')
    \<and> gc_owes (d_world d) (d_gc d) \<subseteq> gc_owes (d_world d') (d_gc d') \<union> {r. done_fired (w_heap (d_world d') r)}"
  using assms(1)
proof cases
  case (step_gc stop now w' pc')
  then show ?thesis using gc_step_guar(2,3) [OF assms(2) step_gc(2) assms(3,4)] by simp
qed (use gc_evolves [OF assms(3,5,4)] in auto)

lemma daemon_step_run:
  assumes "daemon_step parse encode R maxAge trigger d d'" "run_ok R trigger N d"
  shows "run_ok R trigger N d' \<and> evolves (d_world d) (d_world d')"
proof -
  have e: "evolves (d_world d) (d_world d')" using daemon_step_evolves [OF assms(1)] assms(2) by blast
  then have "world_ok (d_world d')" using evolvesD(1) [OF e] assms(2) by blast
  then show ?thesis using daemon_step_ok [OF assms(1)] daemon_step_gc [OF assms(1) _ _ _ e] assms(2) e by blast
qed

interpretation records: evolution "daemon_step parse encode R maxAge trigger" "run_ok R trigger N"
  "\<lambda>d d'. evolves (d_world d) (d_world d')"
  for parse encode and R :: "('x world) Resolver" and maxAge trigger N
  by unfold_locales (use evolves_trans daemon_step_run in blast)+

lemma daemon_init_world: "daemon_init n insts ext = Some d \<Longrightarrow> world_ok (d_world d)"
  by (auto simp: daemon_init_def world_ok_def NewMemStore_def NewManager_def sm_ok_def ms_ok_def GetByRegToken_def split: option.splits)

lemma daemon_init_run:
  assumes "daemon_init n insts ext = Some d0" "\<forall>(inst, fetch)\<in>set insts. quiet_fetch fetch"
    and "quiet_resolver R" "quiet_trigger trigger"
  shows "run_ok R trigger (nat n) d0"
proof -
  have "d_gc d0 = GcWaiting" using assms(1) by (auto simp: daemon_init_def split: option.splits)
  then show ?thesis
    using daemon_init_ok [OF assms(1,2)] daemon_init_world [OF assms(1)] assms(3,4) by (simp add: gc_ok_def)
qed

section \<open>Every stored task has an owner\<close>

definition live_of :: "tref \<times> 'x handler \<Rightarrow> tref multiset" where
  "live_of h = (if removes_task (h_pc (snd h)) then {#fst h#} else {#})"

definition live_tasks :: "'x daemon \<Rightarrow> tref multiset" where
  "live_tasks d = mset (w_chan (d_world d)) + (\<Sum>h\<leftarrow>d_handlers d. live_of h) + (\<Sum>p\<leftarrow>d_pollers d. sending (pl_pc p))"

text \<open>
  Somebody still holds the task, or it is done and being removed, or the daemon is shutting down
  and the task is left to its registered runner or was never handed over.
\<close>

definition accounted :: "'x daemon \<Rightarrow> tref \<Rightarrow> bool" where
  "accounted d r \<longleftrightarrow> r \<in># live_tasks d \<or> done_fired (w_heap (d_world d) r)
     \<or> d_cancelled d \<and> (registered_fired (w_heap (d_world d) r) \<or> r \<notin># tasks_in_flight d)"

definition store_ok :: "'x daemon \<Rightarrow> bool" where
  "store_ok d \<longleftrightarrow> world_ok (d_world d)
     \<and> (\<forall>i r. mget (ms_tasks (w_store (d_world d))) i = Some r \<longrightarrow> accounted d r)
     \<and> (\<forall>(r, hs)\<in>set (d_handlers d). h_pc hs = HWait2 \<longrightarrow> registered_fired (w_heap (d_world d) r))"

lemma in_flight_known:
  assumes "tasks_ok d" "r \<in># tasks_in_flight d"
  shows "r < w_next (d_world d)"
proof -
  obtain lost where "tasks_in_flight d + lost = mset [0..<w_next (d_world d)]"
    using assms(1) unfolding tasks_ok_def by blast
  then have "r \<in># mset [0..<w_next (d_world d)]" using assms(2) by (metis union_iff)
  then show ?thesis by simp
qed

lemma handler_in_flight: "(r, hs) \<in> set (d_handlers d) \<Longrightarrow> r \<in># tasks_in_flight d"
  by (force simp: tasks_in_flight_def)

text \<open>A task that is not taken out of what is alive stays accounted for.\<close>

lemma accounted_evolves:
  assumes "accounted d r" "keeps_ctx (w_heap (d_world d) r) (w_heap (d_world d') r)"
    and "r \<in># live_tasks d \<Longrightarrow> r \<in># live_tasks d'" "d_cancelled d \<Longrightarrow> d_cancelled d'"
    and "r \<in># tasks_in_flight d' \<Longrightarrow> r \<in># tasks_in_flight d"
  shows "accounted d' r"
  using assms by (auto simp: accounted_def keeps_ctx_def)

lemma handlers_evolve:
  assumes "store_ok d" "tasks_ok d" "evolves (d_world d) w'"
  shows "\<forall>(r, hs)\<in>set (d_handlers d). h_pc hs = HWait2 \<longrightarrow> registered_fired (w_heap w' r)"
proof (intro ballI, clarify)
  fix r hs assume h: "(r, hs) \<in> set (d_handlers d)" "h_pc hs = HWait2"
  have "world_ok (d_world d)" using assms(1) by (simp add: store_ok_def)
  from evolvesD(3) [OF assms(3) this in_flight_known [OF assms(2) handler_in_flight [OF h(1)]]]
  show "registered_fired (w_heap w' r)" using assms(1) h by (auto simp: store_ok_def keeps_ctx_def)
qed

text \<open>Steps that neither touch the slots nor the goroutines.\<close>

lemma store_ok_view:
  assumes "store_ok d" "tasks_ok d" "evolves (d_world d) w'" "slots_view w' = slots_view (d_world d)"
  shows "store_ok (d\<lparr>d_world := w'\<rparr>)"
proof -
  let ?d = "d\<lparr>d_world := w'\<rparr>"
  have ok: "world_ok (d_world d)" using assms(1) by (simp add: store_ok_def)
  note e = evolvesD [OF assms(3) ok]
  have s: "w_chan w' = w_chan (d_world d)" "w_next w' = w_next (d_world d)" using assms(4) by (simp_all add: slots_view_def)
  have f: "live_tasks ?d = live_tasks d" "tasks_in_flight ?d = tasks_in_flight d"
    by (simp_all add: live_tasks_def tasks_in_flight_def s)
  have "accounted ?d r" if "mget (ms_tasks (w_store w')) i = Some r" for i r
  proof -
    have r: "r < w_next (d_world d)" using world_okD(3) [OF e(1) that] s(2) by simp
    have "accounted d r" using assms(1) e(4) [OF r that] by (auto simp: store_ok_def)
    then show ?thesis by (rule accounted_evolves) (use e(3) [OF r] f in auto)
  qed
  then show ?thesis
    using e(1) handlers_evolve [OF assms(1-3)] by (simp add: store_ok_def)
qed

lemma store_ok_steady: "store_ok d \<Longrightarrow> tasks_ok d \<Longrightarrow> steady (d_world d) w' \<Longrightarrow> store_ok (d\<lparr>d_world := w'\<rparr>)"
  using store_ok_view steady_evolves steady_view by blast

lemma store_ok_orderly: "store_ok d \<Longrightarrow> tasks_ok d \<Longrightarrow> orderly (d_world d) w' \<Longrightarrow> store_ok (d\<lparr>d_world := w'\<rparr>)"
  using store_ok_view orderlyD(1,2) by blast

lemma store_ok_dispatch:
  assumes "store_ok d" "w_chan (d_world d) = r # rest"
  shows "store_ok (d\<lparr>d_world := (d_world d)\<lparr>w_chan := rest\<rparr>,
      d_handlers := d_handlers d @ [(r, \<lparr>h_pc = HStart, h_heartbeat = False\<rparr>)]\<rparr>)"
proof -
  let ?d = "d\<lparr>d_world := (d_world d)\<lparr>w_chan := rest\<rparr>,
      d_handlers := d_handlers d @ [(r, \<lparr>h_pc = HStart, h_heartbeat = False\<rparr>)]\<rparr>"
  have f: "live_tasks ?d = live_tasks d" "tasks_in_flight ?d = tasks_in_flight d"
    using assms(2) by (simp_all add: live_tasks_def live_of_def tasks_in_flight_def ac_simps)
  have "accounted ?d q = accounted d q" for q
    unfolding accounted_def f by simp
  moreover have "world_ok (d_world ?d)"
    using evolvesD(1) [OF evolves_frame [of "d_world ?d" "d_world d"]] assms(1) by (simp add: store_ok_def)
  ultimately show ?thesis using assms(1) by (auto simp: store_ok_def)
qed

lemma mem_of_sum: "A + x = B + y \<Longrightarrow> r \<in># (B :: 'a multiset) \<Longrightarrow> r \<notin># x \<Longrightarrow> r \<in># A"
  by (metis union_iff)

lemma store_ok_poll:
  assumes ok: "store_ok d" "tasks_ok d" "env_ok d"
    and k: "k < length (d_pollers d)" "p = d_pollers d ! k" "pc_ctx ch = d_cancelled d"
    and st: "poll_step (pl_inst p) (pl_fetch p) ch (pl_pc p) (d_world d) = (w', pc')"
    and ok': "tasks_ok (d\<lparr>d_world := w', d_pollers := (d_pollers d)[k := p\<lparr>pl_pc := pc'\<rparr>]\<rparr>)"
  shows "store_ok (d\<lparr>d_world := w', d_pollers := (d_pollers d)[k := p\<lparr>pl_pc := pc'\<rparr>]\<rparr>)"
proof -
  let ?d = "d\<lparr>d_world := w', d_pollers := (d_pollers d)[k := p\<lparr>pl_pc := pc'\<rparr>]\<rparr>"
  let ?new = "mset [w_next (d_world d)..<w_next w']"
  let ?H = "\<Sum>h\<leftarrow>d_handlers d. live_of h" and ?F = "mset (map fst (d_handlers d))"
  let ?S = "\<lambda>d. \<Sum>p\<leftarrow>d_pollers d. sending (pl_pc p)"
  have wok: "world_ok (d_world d)" using ok(1) by (simp add: store_ok_def)
  have q: "quiet_fetch (pl_fetch p)" using ok(3) k(1,2) by (auto simp: env_ok_def)
  have ev: "evolves (d_world d) w'" using poll_step_evolves [OF q st] by blast
  note e = evolvesD [OF ev wok]
  obtain lost where l: "mset (w_chan w') + sending pc' + lost
      = mset (w_chan (d_world d)) + sending (pl_pc p) + ?new" "lost \<noteq> {#} \<longrightarrow> d_cancelled d"
    using poll_step_tasks [OF q st] k(3) by auto
  have u: "?S ?d + sending (pl_pc p) = ?S d + sending pc'"
    using sum_list_update_add [OF k(1), of "\<lambda>p. sending (pl_pc p)" "p\<lparr>pl_pc := pc'\<rparr>"] k(2) by simp
  have sums: "mset (w_chan w') + X + ?S ?d + lost = mset (w_chan (d_world d)) + X + ?S d + ?new" for X
  proof -
    have "mset (w_chan w') + X + ?S ?d + lost + sending (pl_pc p) = mset (w_chan w') + X + lost + (?S d + sending pc')"
      unfolding u [symmetric] by (simp add: ac_simps)
    also have "\<dots> = (mset (w_chan w') + sending pc' + lost) + X + ?S d" by (simp add: ac_simps)
    also have "\<dots> = mset (w_chan (d_world d)) + X + ?S d + ?new + sending (pl_pc p)"
      unfolding l(1) by (simp add: ac_simps)
    finally show ?thesis by simp
  qed
  have live: "live_tasks ?d + lost = live_tasks d + ?new"
    using sums [of ?H] by (simp add: live_tasks_def)
  have flight: "tasks_in_flight ?d + lost = tasks_in_flight d + ?new"
    using sums [of ?F] by (simp add: tasks_in_flight_def)
  have gone: "d_cancelled d \<and> r \<notin># tasks_in_flight ?d" if "r \<in># lost" for r
  proof -
    obtain lost0 where "tasks_in_flight d + lost0 = mset [0..<w_next (d_world d)]"
      using ok(2) unfolding tasks_ok_def by blast
    moreover have "mset [0..<w_next w'] = mset [0..<w_next (d_world d)] + ?new"
      using e(2) by (metis le_add_diff_inverse mset_append upt_add_eq_append zero_le)
    ultimately have "tasks_in_flight ?d + lost + lost0 = mset [0..<w_next w']"
      unfolding flight by (simp add: ac_simps)
    then have "count (tasks_in_flight ?d) r + count lost r \<le> count (mset [0..<w_next w']) r"
      by (metis count_union le_add1)
    also have "\<dots> \<le> 1" using distinct_count_atmost_1 [of "[0..<w_next w']"] by simp
    finally have "count (tasks_in_flight ?d) r = 0" using that by (simp add: count_greater_zero_iff [symmetric] del: count_greater_zero_iff)
    then show ?thesis using l(2) that by (auto simp: count_eq_zero_iff)
  qed
  have "accounted ?d r" if m: "mget (ms_tasks (w_store w')) i = Some r" for i r
  proof (cases "r < w_next (d_world d)")
    case old: True
    have a: "accounted d r" using ok(1) e(4) [OF old m] by (auto simp: store_ok_def)
    show ?thesis
    proof (cases "r \<in># lost")
      case True
      then show ?thesis using gone [OF True] by (simp add: accounted_def)
    next
      case False
      show ?thesis
      proof (rule accounted_evolves [OF a])
        show "keeps_ctx (w_heap (d_world d) r) (w_heap (d_world ?d) r)" using e(3) [OF old] by simp
        show "r \<in># live_tasks ?d" if "r \<in># live_tasks d" using that live False by (metis union_iff)
        show "r \<in># tasks_in_flight d" if "r \<in># tasks_in_flight ?d"
        proof -
          have "r \<notin># ?new" using old by simp
          then show ?thesis using that flight by (metis union_iff)
        qed
      qed simp
    qed
  next
    case False
    then have "r \<in># ?new" using world_okD(3) [OF e(1) m] by simp
    then have "r \<in># live_tasks ?d \<or> r \<in># lost" using live by (metis union_iff)
    then show ?thesis using gone by (auto simp: accounted_def)
  qed
  then show ?thesis
    using e(1) handlers_evolve [OF ok(1,2) ev] by (simp add: store_ok_def)
qed

text \<open>A handler leaves its task in the store only when it is done, or left to its runner.\<close>

lemma handler_leaves_stored:
  assumes "handle_step R trigger timer ctx sel r hs w = Some (w', hs')"
    and "removes_task (h_pc hs)" "\<not> removes_task (h_pc hs')"
    and "world_ok w'" "mget (ms_tasks (w_store w')) i = Some r"
  shows "done_fired (w_heap w r) \<or> ctx \<and> (h_pc hs = HWait2 \<or> registered_fired (w_heap w r))"
proof -
  obtain ops where ops: "h_pc hs' = HClean ops" using assms(3) by (cases "h_pc hs'") simp_all
  have "t_ID (w_heap w' r) = i" using world_okD(4) [OF assms(4,5)] .
  then show ?thesis
    using handler_leaves_nothing_behind [OF assms(1) ops] assms(2,3,5) ops by (cases "h_pc hs") auto
qed

lemma handler_wait2_registered:
  assumes "handle_step R trigger timer ctx sel r hs w = Some (w', hs')" "h_pc hs' = HWait2"
  shows "registered_fired (w_heap w r)"
  using assms(1)
proof (cases rule: handle_step_cases)
  case start
  from start(2) show ?thesis by (cases rule: handle_start_pc) (use assms(2) in simp_all)
next
  case (wait1 client)
  from wait1(3,2) show ?thesis by (cases rule: handle_wait1_pc) (use assms(2) in simp_all)
qed (use assms(2) in simp_all)

lemma store_ok_handler:
  assumes ok: "store_ok d" "tasks_ok d" "env_ok d" and R: "quiet_resolver R" "quiet_trigger trigger"
    and k: "k < length (d_handlers d)" "d_handlers d ! k = (r0, hs)"
    and st: "handle_step R trigger timer (d_cancelled d) sel r0 hs (d_world d) = Some (w', hs')"
  shows "store_ok (d\<lparr>d_world := w', d_handlers := (d_handlers d)[k := (r0, hs')]\<rparr>)"
proof -
  let ?d = "d\<lparr>d_world := w', d_handlers := (d_handlers d)[k := (r0, hs')]\<rparr>"
  have wok: "world_ok (d_world d)" using ok(1) by (simp add: store_ok_def)
  have m: "(r0, hs) \<in> set (d_handlers d)" using k by (metis nth_mem)
  then have q: "handler_quiet (h_pc hs)" using ok(3) by (auto simp: env_ok_def)
  note g = handle_step_changes [OF R q st]
  note ev = g(1)
  note e = evolvesD [OF ev wok]
  have s: "w_chan w' = w_chan (d_world d)" "w_next w' = w_next (d_world d)"
    using g(4) by (auto simp: slots_view_def split: if_splits)
  have "map fst ((d_handlers d)[k := (r0, hs')]) = map fst (d_handlers d)"
    using k by (simp add: map_update list_update_same_conv)
  then have f: "tasks_in_flight ?d = tasks_in_flight d" by (simp add: tasks_in_flight_def s del: mset_map)
  have "(\<Sum>h\<leftarrow>d_handlers ?d. live_of h) + live_of (r0, hs) = (\<Sum>h\<leftarrow>d_handlers d. live_of h) + live_of (r0, hs')"
    using sum_list_update_add [OF k(1), of live_of "(r0, hs')"] k(2) by simp
  then have sum: "live_tasks ?d + live_of (r0, hs) = live_tasks d + live_of (r0, hs')"
    by (simp add: live_tasks_def s ac_simps)
  let ?gone = "removes_task (h_pc hs) \<and> \<not> removes_task (h_pc hs')"
  have live: "r \<in># live_tasks ?d" if "r \<in># live_tasks d" "\<not> (r = r0 \<and> ?gone)" for r
  proof (cases "removes_task (h_pc hs) \<longrightarrow> removes_task (h_pc hs')")
    case True
    then show ?thesis using sum that(1) by (auto simp: live_of_def split: if_splits)
  next
    case False
    then show ?thesis using mem_of_sum [OF sum that(1)] that(2) by (simp add: live_of_def)
  qed
  have r0: "r0 < w_next (d_world d)" by (rule in_flight_known [OF ok(2) handler_in_flight [OF m]])
  have "accounted ?d r" if t: "mget (ms_tasks (w_store w')) i = Some r" for i r
  proof -
    have r: "r < w_next (d_world d)" using world_okD(3) [OF e(1) t] s(2) by simp
    have a: "accounted d r" using ok(1) e(4) [OF r t] by (auto simp: store_ok_def)
    show ?thesis
    proof (cases "r = r0 \<and> ?gone")
      case True
      then have "done_fired (w_heap (d_world d) r0)
          \<or> d_cancelled d \<and> (h_pc hs = HWait2 \<or> registered_fired (w_heap (d_world d) r0))"
        using handler_leaves_stored [OF st _ _ e(1)] t by blast
      moreover have "h_pc hs = HWait2 \<Longrightarrow> registered_fired (w_heap (d_world d) r0)"
        using ok(1) m by (auto simp: store_ok_def)
      ultimately show ?thesis using True e(3) [OF r0] by (auto simp: accounted_def keeps_ctx_def)
    next
      case False
      then show ?thesis
        using live e(3) [OF r] f by (intro accounted_evolves [OF a]) auto
    qed
  qed
  moreover have "registered_fired (w_heap w' r)" if "(r, h) \<in> set (d_handlers ?d)" "h_pc h = HWait2" for r h
  proof (cases "(r, h) \<in> set (d_handlers d)")
    case True
    then show ?thesis using handlers_evolve [OF ok(1,2) ev] that(2) by auto
  next
    case False
    then have "r = r0" "h = hs'" using that(1) set_update_subset_insert [of "d_handlers d" k "(r0, hs')"] by auto
    then show ?thesis using handler_wait2_registered [OF st] that(2) e(3) [OF r0] by (simp add: keeps_ctx_def)
  qed
  ultimately show ?thesis using e(1) by (auto simp: store_ok_def)
qed

lemma daemon_step_store_ok:
  assumes "daemon_step parse encode R maxAge trigger d d'" "run_ok R trigger N d" "store_ok d"
  shows "store_ok d'"
  using assms(1)
proof cases
  case (step_poll k p ch w' pc')
  have "tasks_ok d'" using daemon_step_ok [OF assms(1)] assms(2) by blast
  then show ?thesis using store_ok_poll [OF assms(3) _ _ step_poll(2-5)] assms(2) step_poll(1) by simp
next
  case (step_dispatch r rest)
  then show ?thesis using store_ok_dispatch [OF assms(3)] by simp
next
  case (step_handler k r hs timer sel w' hs')
  then show ?thesis using store_ok_handler [OF assms(3) _ _ _ _ step_handler(2-4)] assms(2) by simp
next
  case (step_heartbeat k r hs inst client w')
  then show ?thesis using store_ok_steady [OF assms(3) _ quiet_call(4) [OF _ step_heartbeat(5)]] assms(2) by blast
next
  case (step_arrive c)
  then show ?thesis using store_ok_orderly [OF assms(3) _ orderly_arrive] assms(2) by blast
next
  case (step_request k c pc now rnd w' pc')
  then show ?thesis
    using store_ok_orderly [OF assms(3) _ request_step_orderly [OF _ step_request(2-4)]] assms(2) by blast
next
  case (step_proxy tok now)
  then show ?thesis using store_ok_steady [OF assms(3) _ steady_atoms(1)] assms(2) by blast
next
  case (step_gc stop now w' pc')
  have "evolves (d_world d) w'" using steady_evolves [OF gc_step_guar(1) [OF _ step_gc(2)]] assms(2) by blast
  from store_ok_view [OF assms(3) _ this gc_step_view [OF _ step_gc(2)]] assms(2)
  have "store_ok (d\<lparr>d_world := w'\<rparr>)" by blast
  then show ?thesis
    using step_gc(1) by (simp add: store_ok_def accounted_def live_tasks_def tasks_in_flight_def)
next
  case step_cancel
  have "live_tasks d' = live_tasks d" "tasks_in_flight d' = tasks_in_flight d"
    using step_cancel by (simp_all add: live_tasks_def tasks_in_flight_def)
  then show ?thesis using assms(3) step_cancel by (auto simp: store_ok_def accounted_def)
qed

interpretation owners: invariant_of "daemon_step parse encode R maxAge trigger"
  "\<lambda>d. run_ok R trigger N d \<and> store_ok d"
  for parse encode and R :: "('x world) Resolver" and maxAge trigger N
  by unfold_locales (use daemon_step_run daemon_step_store_ok in blast)

lemma reach_store_ok:
  assumes "daemon_init n insts ext = Some d0" "\<forall>(inst, fetch)\<in>set insts. quiet_fetch fetch"
    and "quiet_resolver R" "quiet_trigger trigger" "(daemon_step parse encode R maxAge trigger)\<^sup>*\<^sup>* d0 d"
  shows "run_ok R trigger (nat n) d \<and> store_ok d"
proof -
  have "w_store (d_world d0) = NewMemStore" "d_handlers d0 = []"
    using assms(1) by (auto simp: daemon_init_def split: option.splits)
  then have "store_ok d0"
    using daemon_init_world [OF assms(1)] by (simp add: store_ok_def NewMemStore_def)
  then show ?thesis
    using owners.reach_inv [OF assms(5)] daemon_init_run [OF assms(1-4)] by blast
qed

section \<open>Bounds and tokens\<close>

text \<open>
  A handler that reports a failure releases its slot before it removes its task, so for a moment
  its task is in the store and nobody holds a slot for it.
\<close>

definition late_removals :: "'x daemon \<Rightarrow> nat" where
  "late_removals d = length (filter (\<lambda>(r, hs). removes_task (h_pc hs) \<and> handler_slots (h_pc hs) = 0) (d_handlers d))"

lemma size_live:
  assumes "slots_ok N d"
  shows "size (live_tasks d) \<le> pool_sem (w_pool (d_world d)) + late_removals d"
proof -
  have "size (sending pc) \<le> poll_slots pc" for pc by (cases pc) simp_all
  then have "size (\<Sum>p\<leftarrow>ps. sending (pl_pc p)) \<le> (\<Sum>p\<leftarrow>ps. poll_slots (pl_pc p))" for ps :: "'a poller list"
    by (induction ps) (simp_all add: add_mono)
  moreover have "size (\<Sum>h\<leftarrow>hs. live_of h) \<le> (\<Sum>h\<leftarrow>hs. handler_slots (h_pc (snd h)))
      + length (filter (\<lambda>(r, hs). removes_task (h_pc hs) \<and> handler_slots (h_pc hs) = 0) hs)"
    for hs :: "(tref \<times> 'a handler) list"
    by (induction hs) (auto simp: live_of_def)
  ultimately have "size (\<Sum>p\<leftarrow>d_pollers d. sending (pl_pc p)) \<le> held_by_pollers d"
    "size (\<Sum>h\<leftarrow>d_handlers d. live_of h) \<le> live_handlers d + late_removals d"
    unfolding held_by_pollers_def live_handlers_def late_removals_def by blast+
  moreover have "pool_sem (w_pool (d_world d)) = held_by_pollers d + length (w_chan (d_world d)) + live_handlers d"
    using assms by (simp add: slots_ok_def)
  ultimately show ?thesis unfolding live_tasks_def size_union size_mset by linarith
qed

lemma stored_refs_distinct:
  assumes "world_ok w"
  shows "distinct (map snd (ms_tasks (w_store w)))"
proof -
  have ok: "gomap_ok (ms_tasks (w_store w))" using world_okD(1) [OF assms] by (rule ms_okD)
  have "inj_on snd (set (ms_tasks (w_store w)))"
  proof (rule inj_onI)
    fix x y assume "x \<in> set (ms_tasks (w_store w))" "y \<in> set (ms_tasks (w_store w))" "snd x = snd y"
    then have "t_ID (w_heap w (snd x)) = fst x" "t_ID (w_heap w (snd y)) = fst y"
      using world_okD(4) [OF assms] mget_Some_iff [OF ok] by (metis prod.collapse)+
    then show "x = y" using \<open>snd x = snd y\<close> by (simp add: prod_eq_iff)
  qed
  moreover have "distinct (ms_tasks (w_store w))" using ok by (simp add: gomap_ok_def mkeys_def distinct_map)
  ultimately show ?thesis by (simp add: distinct_map)
qed

lemma store_bound:
  assumes "store_ok d" "slots_ok N d" "\<not> d_cancelled d"
  shows "length (filter (\<lambda>(i, r). \<not> done_fired (w_heap (d_world d) r)) (ms_tasks (w_store (d_world d))))
    \<le> N + late_removals d"
proof -
  let ?w = "d_world d"
  let ?xs = "filter (\<lambda>(i, r). \<not> done_fired (w_heap ?w r)) (ms_tasks (w_store ?w))"
  have wok: "world_ok ?w" using assms(1) by (simp add: store_ok_def)
  have "distinct (map snd ?xs)" using stored_refs_distinct [OF wok] by (rule distinct_map_filter)
  then have "length ?xs = card (snd ` set ?xs)" by (metis distinct_card length_map list.set_map)
  also have "\<dots> \<le> card (set_mset (live_tasks d))"
  proof (intro card_mono finite_set_mset subsetI)
    fix r assume "r \<in> snd ` set ?xs"
    then obtain i where "(i, r) \<in> set (ms_tasks (w_store ?w))" "\<not> done_fired (w_heap ?w r)" by auto
    moreover from this have "accounted d r"
      using assms(1) mget_Some_iff [OF ms_okD(1) [OF world_okD(1) [OF wok]]] by (auto simp: store_ok_def)
    ultimately show "r \<in># live_tasks d" using assms(3) by (auto simp: accounted_def)
  qed
  also have "\<dots> \<le> size (live_tasks d)"
    by (metis size_mset_set size_mset_mono mset_set_set_mset_msubset)
  also have "\<dots> \<le> pool_sem (w_pool ?w) + late_removals d" by (rule size_live [OF assms(2)])
  finally show ?thesis using assms(2) by (simp add: slots_ok_def)
qed

lemma spent_stays:
  assumes "run_ok R trigger N d" "world_ok (d_world d)" "r < w_next (d_world d)"
    and "GetByRegToken tok (w_store (d_world d)) \<noteq> Some r" "(daemon_step parse encode R maxAge trigger)\<^sup>*\<^sup>* d d'"
  shows "GetByRegToken tok (w_store (d_world d')) \<noteq> Some r"
  using evolvesD(5) [OF records.reach_rel [OF assms(5,1)] assms(2,3)] assms(4) by blast

text \<open>
  What the steps before the body do does not depend on the other requests, so authentication as one
  function is one of the runs of the daemon.
\<close>

lemma request_step_frame:
  assumes "\<And>s. pc \<noteq> ReqAuth s"
  shows "request_step parse encode R now rnd c pc (w\<lparr>w_requests := qs\<rparr>)
    = apfst (\<lambda>v. v\<lparr>w_requests := qs\<rparr>) (request_step parse encode R now rnd c pc w)"
proof (cases pc)
  case ReqStart
  then show ?thesis
    by (simp add: request_step_def request_start_def request_lookup_def cong: option.case_cong south_call.case_cong)
next
  case (ReqMissed tok)
  then show ?thesis by (simp add: request_step_def request_lookup_def cong: option.case_cong)
next
  case (ReqClaimed tok r)
  then show ?thesis
    by (simp add: request_step_def request_publish_def Let_def split_beta split: south_call.split sum.split)
next
  case (ReqTouched r s)
  then show ?thesis
    by (simp add: request_step_def request_mark_def w_modify_def register_answer_def Let_def split: south_call.split)
qed (use assms in \<open>simp_all add: request_step_def request_link_def w_touch_def w_consume_def w_defs
    Let_def split_beta\<close>)

lemma request_run_rank: "request_run n parse encode R now rnd c pc w = (w', pc') \<Longrightarrow> request_rank pc' \<le> request_rank pc"
proof (induction n arbitrary: pc w)
  case (Suc n)
  obtain w1 pc1 where st: "request_step parse encode R now rnd c pc w = (w1, pc1)" by fastforce
  have "request_rank pc' \<le> request_rank pc1" using Suc st by simp
  moreover have "request_rank pc1 \<le> request_rank pc"
  proof (cases "request_rank pc = 0")
    case True
    then show ?thesis using st by (auto simp: request_rank_0 request_step_def)
  next
    case False
    then show ?thesis using request_step_rank [OF st] by simp
  qed
  ultimately show ?case by simp
qed simp

lemma daemon_serves:
  assumes "request_run n parse encode R now rnd c pc v = (v', ReqAuth s)"
    and "d_world d = v\<lparr>w_requests := qs\<rparr>" "k < length qs" "qs ! k = (c, pc)"
  shows "(daemon_step parse encode R maxAge trigger)\<^sup>*\<^sup>* d (d\<lparr>d_world := v'\<lparr>w_requests := qs[k := (c, ReqAuth s)]\<rparr>\<rparr>)"
  using assms
proof (induction n arbitrary: pc v d qs)
  case 0
  then have "qs[k := (c, ReqAuth s)] = qs" "v' = v" by (auto simp: list_update_same_conv)
  moreover have "d\<lparr>d_world := d_world d\<rparr> = d" by simp
  ultimately show ?case using 0 by (metis rtranclp.rtrancl_refl)
next
  case (Suc n)
  obtain v1 pc1 where st: "request_step parse encode R now rnd c pc v = (v1, pc1)" by fastforce
  have run: "request_run n parse encode R now rnd c pc1 v1 = (v', ReqAuth s)" using Suc.prems(1) st by simp
  have pc: "pc \<noteq> ReqAuth s'" for s'
  proof
    assume "pc = ReqAuth s'"
    then have "request_rank pc1 < 5" using request_step_rank [OF st] by simp
    then show False using request_run_rank [OF run] by simp
  qed
  let ?w = "v1\<lparr>w_requests := qs[k := (c, pc1)]\<rparr>"
  have "request_step parse encode R now rnd c pc (d_world d) = (v1\<lparr>w_requests := qs\<rparr>, pc1)"
    using request_step_frame [OF pc, where w = v and qs = qs and c = c and now = now and R = R and encode = encode and parse = parse and rnd = rnd] st by (simp add: Suc.prems(2))
  then have "daemon_step parse encode R maxAge trigger d (d\<lparr>d_world := put_request k (c, pc1) (v1\<lparr>w_requests := qs\<rparr>)\<rparr>)"
    by (rule step_request [rotated 2]) (simp_all add: Suc.prems)
  then have "daemon_step parse encode R maxAge trigger d (d\<lparr>d_world := ?w\<rparr>)" by (simp add: put_request_def)
  moreover have "(daemon_step parse encode R maxAge trigger)\<^sup>*\<^sup>* (d\<lparr>d_world := ?w\<rparr>)
      (d\<lparr>d_world := v'\<lparr>w_requests := qs[k := (c, ReqAuth s)]\<rparr>\<rparr>)"
    using Suc.IH [OF run, of "d\<lparr>d_world := ?w\<rparr>" "qs[k := (c, pc1)]"] Suc.prems(3) by simp
  ultimately show ?case by simp
qed

lemma daemon_authenticates:
  assumes "call_headers c = Some hdr" "authenticate (\<lambda>w. w) now hdr (d_world d) = (w1, Inr s)"
  shows "(daemon_step parse encode R maxAge trigger)\<^sup>*\<^sup>* d
    (d\<lparr>d_world := w1\<lparr>w_requests := w_requests (d_world d) @ [(c, ReqAuth s)]\<rparr>\<rparr>)"
proof -
  let ?qs = "w_requests (d_world d) @ [(c, ReqStart)]" and ?k = "length (w_requests (d_world d))"
  obtain n where run: "request_run n parse encode R now None c ReqStart (d_world d) = (w1, ReqAuth s)"
    using request_auth_alone [OF assms, of parse encode R None] by (auto simp: auth_pc_def)
  let ?d = "d\<lparr>d_world := (d_world d)\<lparr>w_requests := ?qs\<rparr>\<rparr>"
  have "daemon_step parse encode R maxAge trigger d ?d" by (rule step_arrive)
  moreover have "(daemon_step parse encode R maxAge trigger)\<^sup>*\<^sup>* ?d
      (?d\<lparr>d_world := w1\<lparr>w_requests := ?qs[?k := (c, ReqAuth s)]\<rparr>\<rparr>)"
    by (rule daemon_serves [OF run]) simp_all
  ultimately show ?thesis by simp
qed

text \<open>In the example a runner then presents the token of the task, and is admitted.\<close>

lemma example_admission:
  "\<exists>d tok d1. ex_daemon_step\<^sup>*\<^sup>* example_daemon d \<and> w_next (d_world d) = 1
     \<and> GetByRegToken tok (w_store (d_world d)) = Some 0 \<and> w_sessions (d_world d) = NewManager
     \<and> ex_daemon_step\<^sup>*\<^sup>* d d1 \<and> (CallFetchTask (example_hdr tok), ReqAuth 0) \<in> set (w_requests (d_world d1))
     \<and> w_next (d_world d1) = 1 \<and> s_TaskCtx (w_session (d_world d1) 0) = 0
     \<and> d_handlers d1 = [] \<and> w_chan (d_world d1) = [0] \<and> sm_next (w_sessions (d_world d1)) = 1
     \<and> registered_fired (w_heap (d_world d1) 0) \<and> \<not> done_fired (w_heap (d_world d1) 0)
     \<and> t_Instance (w_heap (d_world d1) 0) = ''forgejo-a''"
proof -
  obtain d tok where d: "ex_daemon_step\<^sup>*\<^sup>* example_daemon d" "tok \<noteq> []" "w_next (d_world d) = 1"
    "GetByRegToken tok (w_store (d_world d)) = Some 0" "\<not> isRegTokenExpired 0 (w_heap (d_world d) 0)"
    "w_sessions (d_world d) = NewManager" and d': "d_handlers d = []" "w_chan (d_world d) = [0]"
    "t_Instance (w_heap (d_world d) 0) = ''forgejo-a''" "\<not> done_fired (w_heap (d_world d) 0)"
    using example_run by blast
  have lk: "Lookup tok (w_sessions (d_world d)) = None" by (simp add: d(6) Lookup_def NewManager_def)
  obtain w1 ok where c: "w_consume tok (d_world d) = (w1, ok)" by fastforce
  have ok: "ok" using w_consume_cases(1) [OF c] d(4) GetByRegToken_Some by blast
  obtain w2 s where k: "w_create_with_token 0 0 tok [] [] w1 = (w2, s)" by fastforce
  have "s = 0" using w_create_cases(1) [OF k] w_consume_cases(3) [OF c] by (simp add: d(6) NewManager_def)
  then obtain w' where a: "authenticate (\<lambda>w. w) 0 (example_hdr tok) (d_world d) = (w', Inr 0)"
    using c ok k by (simp add: authenticate_def example_token d(2,4,5) lk Let_def split_beta)
  let ?c = "CallFetchTask (example_hdr tok)"
  let ?d = "d\<lparr>d_world := w'\<lparr>w_requests := w_requests (d_world d) @ [(?c, ReqAuth 0)]\<rparr>\<rparr>"
  have "ex_daemon_step\<^sup>*\<^sup>* d ?d" by (rule daemon_authenticates [OF _ a]) simp
  moreover have "w_next w' = 1 \<and> w_chan w' = [0] \<and> s_TaskCtx (w_session w' 0) = 0 \<and> sm_next (w_sessions w') = 1
      \<and> registered_fired (w_heap w' 0) \<and> \<not> done_fired (w_heap w' 0) \<and> t_Instance (w_heap w' 0) = ''forgejo-a''"
  proof (cases rule: authenticate_cases [OF a])
    case (1 tok')
    then show ?thesis using example_token [OF d(2)] lk by simp
  next
    case one_job: (2 tok' r v1 v2 v3)
    have "tok' = tok" using one_job(1) example_token [OF d(2)] by simp
    then have r: "r = 0" using one_job(3) d(4) by simp
    have "sm_next (w_sessions v2) = Suc (sm_next (w_sessions v1))" "w_next v2 = w_next v1" "w_chan v2 = w_chan v1"
      using one_job(6) CreateWithToken_simps(3) [of 0 r tok' "[]" "[]" "w_sessions v1" "w_heap v1"]
      by (auto simp: w_create_with_token_def Let_def split: prod.splits)
    moreover have "w_next v1 = w_next (d_world d)" "w_chan v1 = w_chan (d_world d)" "w_next v3 = w_next v2" "w_chan v3 = w_chan v2"
      using steady_slots [OF steady_consumed [OF one_job(5)]] steady_slots [OF steady_touched [OF one_job(7)]] by simp_all
    ultimately show ?thesis
      using one_job(8) w_consume_cases(3,4) [OF one_job(5)] w_create_cases(1,2,4) [OF one_job(6)] w_touch_cases(2,3) [OF one_job(7)]
        d(3,6) d' r by (auto simp: NewManager_def taskctx_defs Touch_def split: option.splits)
  qed
  ultimately show ?thesis using d(1,3,4,6) d'(1) by (intro exI [of _ d] exI [of _ tok] exI [of _ ?d]) simp
qed

section \<open>Properties\<close>

text \<open>C13: The shared records stay consistent. In every reachable state the store and the session
  registry satisfy their invariants, a token leads only to a task that exists and that is stored
  under its own id, and a registered session carries its own token and belongs to a task that exists.\<close>

theorem records_consistent:
  assumes "daemon_init n insts ext = Some d0" and "\<forall>(inst, fetch)\<in>set insts. quiet_fetch fetch"
    and "quiet_resolver R" and "quiet_trigger trigger"
    and "(daemon_step parse encode R maxAge trigger)\<^sup>*\<^sup>* d0 d"
  shows "ms_ok (w_store (d_world d)) \<and> sm_ok (w_sessions (d_world d))
    \<and> (\<forall>tok r. GetByRegToken tok (w_store (d_world d)) = Some r \<longrightarrow> r < w_next (d_world d)
         \<and> mget (ms_tasks (w_store (d_world d))) (t_ID (w_heap (d_world d) r)) = Some r)
    \<and> (\<forall>tok s. Lookup tok (w_sessions (d_world d)) = Some s \<longrightarrow>
         s_SessionToken (w_session (d_world d) s) = tok \<and> s_TaskCtx (w_session (d_world d) s) < w_next (d_world d))"
proof -
  have ok: "world_ok (d_world d)" using reach_store_ok [OF assms] by blast
  note D = world_okD [OF ok]
  have "r < w_next (d_world d) \<and> mget (ms_tasks (w_store (d_world d))) (t_ID (w_heap (d_world d) r)) = Some r"
    if g: "GetByRegToken tok (w_store (d_world d)) = Some r" for tok r
  proof -
    obtain i where i: "mget (ms_tasks (w_store (d_world d))) i = Some r" using g GetByRegToken_Some by blast
    show ?thesis using D(3,4) [OF i] i by simp
  qed
  moreover have "s_SessionToken (w_session (d_world d) s) = tok \<and> s_TaskCtx (w_session (d_world d) s) < w_next (d_world d)"
    if "Lookup tok (w_sessions (d_world d)) = Some s" for tok s
    using that sm_okD(2,3) [OF D(2)] D(5) by (auto simp: Lookup_def)
  ultimately show ?thesis using D(1,2) by blast
qed

theorem records_consistent_witness:
  "\<exists>d tok. ex_daemon_step\<^sup>*\<^sup>* example_daemon d \<and> GetByRegToken tok (w_store (d_world d)) = Some 0
     \<and> mget (ms_tasks (w_store (d_world d))) (t_ID (w_heap (d_world d) 0)) = Some 0"
proof -
  obtain d tok where d: "ex_daemon_step\<^sup>*\<^sup>* example_daemon d" "GetByRegToken tok (w_store (d_world d)) = Some 0"
    using example_run by blast
  show ?thesis
    using records_consistent [OF example_daemon_init example_quiet(3,1,2) d(1)] d by (intro exI [of _ d] exI [of _ tok]) auto
qed

text \<open>C9: No request acts without its credentials, in every interleaving of the daemon's goroutines.
  However far a request has come, the session it acts for exists and is the one whose token the request
  presented; whoever claimed a registration token presented it, and the token never again leads to
  its task, so nobody else can claim it; and the cleanup after a report removes a session only
  once its task is done.\<close>

theorem requests_authenticated:
  assumes "daemon_init n insts ext = Some d0" and "\<forall>(inst, fetch)\<in>set insts. quiet_fetch fetch"
    and "quiet_resolver R" and "quiet_trigger trigger"
    and "(daemon_step parse encode R maxAge trigger)\<^sup>*\<^sup>* d0 d"
    and "(c, pc) \<in> set (w_requests (d_world d))" and "(daemon_step parse encode R maxAge trigger)\<^sup>*\<^sup>* d d'"
  shows "(acting_session pc = Some s \<longrightarrow> s < sm_next (w_sessions (d_world d))
      \<and> (\<forall>hdr. call_headers c = Some hdr \<longrightarrow>
           sessionTokenFromRequest hdr = Some (s_SessionToken (w_session (d_world d) s))))
    \<and> (pc = ReqClaimed tok r \<longrightarrow> presented c = Some tok \<and> GetByRegToken tok (w_store (d_world d')) \<noteq> Some r)
    \<and> (pc = ReqEnded s resp \<longrightarrow> done_fired (w_task_of (d_world d) s))"
proof -
  have ok: "run_ok R trigger (nat n) d" "world_ok (d_world d)"
    using reach_store_ok [OF assms(1-5)] by (simp_all add: store_ok_def)
  have q: "request_ok (d_world d) (c, pc)" by (rule world_okD(8) [OF ok(2) assms(6)])
  have p: "presented c = sessionTokenFromRequest hdr" if "call_headers c = Some hdr" for hdr
    using that by (cases c) (simp_all add: presented_def)
  have "acting_session pc = Some s \<Longrightarrow> acts_for c s (d_world d)"
    using q by (cases pc) (simp_all add: request_ok_def)
  then have "acting_session pc = Some s \<longrightarrow> s < sm_next (w_sessions (d_world d)) \<and> (\<forall>hdr. call_headers c = Some hdr \<longrightarrow>
      sessionTokenFromRequest hdr = Some (s_SessionToken (w_session (d_world d) s)))"
    using p by (auto simp: acts_for_def)
  moreover have "presented c = Some tok \<and> GetByRegToken tok (w_store (d_world d')) \<noteq> Some r" if "pc = ReqClaimed tok r"
    using q spent_stays [OF ok _ _ assms(7), of r tok] that by (simp add: request_ok_def)
  moreover have "done_fired (w_task_of (d_world d) s)" if "pc = ReqEnded s resp"
    using q that by (simp add: request_ok_def)
  ultimately show ?thesis by blast
qed

theorem requests_authenticated_witness:
  "\<exists>d tok. ex_daemon_step\<^sup>*\<^sup>* example_daemon d
     \<and> (CallFetchTask (example_hdr tok), ReqAuth 0) \<in> set (w_requests (d_world d))
     \<and> sessionTokenFromRequest (example_hdr tok) = Some (s_SessionToken (w_session (d_world d) 0))"
proof -
  obtain d tok d1 where d: "ex_daemon_step\<^sup>*\<^sup>* example_daemon d" "ex_daemon_step\<^sup>*\<^sup>* d d1"
    and m: "(CallFetchTask (example_hdr tok), ReqAuth 0) \<in> set (w_requests (d_world d1))"
    using example_admission by blast
  have r: "ex_daemon_step\<^sup>*\<^sup>* example_daemon d1" using d by simp
  from requests_authenticated [OF example_daemon_init example_quiet(3,1,2) r m rtranclp.rtrancl_refl, of 0]
  show ?thesis using r m by (intro exI [of _ d1] exI [of _ tok]) simp
qed

text \<open>C11: The store cannot leak. In every reachable state each stored task is held by somebody who will
  remove it (a poller about to send it, the channel, or a handler that has still to remove it) or is
  done and being removed; only a shutdown leaves others, those whose runner is registered and those that
  were never handed over. So as long as the daemon is not shutting down the store never holds more
  than \<open>max_parallel_tasks\<close> unfinished tasks, beyond those of the handlers that are just between
  the release of their slot and the removal of their task after a failure.\<close>

theorem stored_tasks_owned:
  assumes "daemon_init n insts ext = Some d0" and "\<forall>(inst, fetch)\<in>set insts. quiet_fetch fetch"
    and "quiet_resolver R" and "quiet_trigger trigger"
    and "(daemon_step parse encode R maxAge trigger)\<^sup>*\<^sup>* d0 d"
  shows "(\<forall>i r. mget (ms_tasks (w_store (d_world d))) i = Some r \<longrightarrow>
      r \<in># live_tasks d \<or> done_fired (w_heap (d_world d) r)
      \<or> d_cancelled d \<and> (registered_fired (w_heap (d_world d) r) \<or> r \<notin># tasks_in_flight d))
    \<and> (\<not> d_cancelled d \<longrightarrow>
        length (filter (\<lambda>(i, r). \<not> done_fired (w_heap (d_world d) r)) (ms_tasks (w_store (d_world d))))
          \<le> nat n + late_removals d)"
proof -
  have ok: "slots_ok (nat n) d" "store_ok d" using reach_store_ok [OF assms] by blast+
  then show ?thesis using store_bound [OF ok(2,1)] by (auto simp: store_ok_def accounted_def)
qed

theorem stored_tasks_owned_witness:
  "\<exists>d i. ex_daemon_step\<^sup>*\<^sup>* example_daemon d \<and> mget (ms_tasks (w_store (d_world d))) i = Some 0
     \<and> (0 \<in># live_tasks d \<or> done_fired (w_heap (d_world d) 0))
     \<and> length (filter (\<lambda>(i, r). \<not> done_fired (w_heap (d_world d) r)) (ms_tasks (w_store (d_world d)))) \<le> 2"
proof -
  obtain d tok where d: "ex_daemon_step\<^sup>*\<^sup>* example_daemon d" "\<not> d_cancelled d"
    "GetByRegToken tok (w_store (d_world d)) = Some 0" "d_handlers d = []" using example_run by blast
  have late: "late_removals d = 0" by (simp add: late_removals_def d(4))
  obtain i where "mget (ms_tasks (w_store (d_world d))) i = Some 0" using d(3) GetByRegToken_Some by blast
  then show ?thesis
    using stored_tasks_owned [OF example_daemon_init example_quiet(3,1,2) d(1)] d late by (intro exI [of _ d] exI [of _ i]) auto
qed

text \<open>C12: What the drain of a shutdown waits for. Once every goroutine has stopped, the only tasks left in
  the store are those whose runner is registered (or has just finished) and those a cancelled hand-over
  stranded. If there are none of either, the drain ends at its first poll and Run returns nil.\<close>

theorem drain_waits_for_runners:
  assumes "daemon_init n insts ext = Some d0" and "\<forall>(inst, fetch)\<in>set insts. quiet_fetch fetch"
    and "quiet_resolver R" and "quiet_trigger trigger"
    and "(daemon_step parse encode R maxAge trigger)\<^sup>*\<^sup>* d0 d" and "all_stopped d"
  shows "(\<forall>i r. mget (ms_tasks (w_store (d_world d))) i = Some r \<longrightarrow>
      done_fired (w_heap (d_world d) r) \<or> registered_fired (w_heap (d_world d) r) \<or> r \<notin># tasks_in_flight d)
    \<and> ((\<forall>r < w_next (d_world d). r \<in># tasks_in_flight d \<and> \<not> done_fired (w_heap (d_world d) r)
          \<and> \<not> registered_fired (w_heap (d_world d) r)) \<longrightarrow>
        drainTasks (\<lambda>_. CountActive (w_heap (d_world d)) (w_store (d_world d))) prefer_ctx timeout drainPollInterval = None)"
proof -
  have ok: "store_ok d" using reach_store_ok [OF assms(1-5)] by blast
  have z: "(\<Sum>h\<leftarrow>hs. live_of h) = {#}" if "\<forall>h\<in>set hs. h_pc (snd h) = HExit" for hs :: "(tref \<times> 'a handler) list"
    using that by (induction hs) (simp_all add: live_of_def)
  have y: "(\<Sum>p\<leftarrow>ps. sending (pl_pc p)) = {#}" if "\<forall>p\<in>set ps. pl_pc p = PollStopped" for ps :: "'a poller list"
    using that by (induction ps) simp_all
  have "live_tasks d = {#}" using assms(6) y z by (simp add: all_stopped_def live_tasks_def)
  then have a: "done_fired (w_heap (d_world d) r) \<or> registered_fired (w_heap (d_world d) r) \<or> r \<notin># tasks_in_flight d"
    if "mget (ms_tasks (w_store (d_world d))) i = Some r" for i r
    using ok that by (auto simp: store_ok_def accounted_def)
  have "drainTasks (\<lambda>_. CountActive (w_heap (d_world d)) (w_store (d_world d))) prefer_ctx timeout drainPollInterval = None"
    if none: "\<forall>r < w_next (d_world d). r \<in># tasks_in_flight d \<and> \<not> done_fired (w_heap (d_world d) r)
      \<and> \<not> registered_fired (w_heap (d_world d) r)"
  proof -
    have wok: "world_ok (d_world d)" using ok by (simp add: store_ok_def)
    have "CountActive (w_heap (d_world d)) (w_store (d_world d)) = 0"
      using CountActive_0 [OF world_okD(1) [OF wok]] a none world_okD(3) [OF wok] by blast
    then show ?thesis by (simp add: drainTasks_def drain_step drainPollInterval_def)
  qed
  then show ?thesis using a by blast
qed

theorem drain_waits_for_runners_witness:
  "\<exists>d. ex_daemon_step\<^sup>*\<^sup>* example_daemon d \<and> d_cancelled d \<and> all_stopped d
     \<and> (\<forall>i r. mget (ms_tasks (w_store (d_world d))) i = Some r \<longrightarrow>
          done_fired (w_heap (d_world d) r) \<or> registered_fired (w_heap (d_world d) r) \<or> r \<notin># tasks_in_flight d)"
proof -
  obtain d where d: "ex_daemon_step\<^sup>*\<^sup>* example_daemon d" using example_run by blast
  let ?d = "d\<lparr>d_cancelled := True\<rparr>"
  have r: "ex_daemon_step\<^sup>*\<^sup>* example_daemon ?d" by (rule rtranclp.rtrancl_into_rtrancl [OF d step_cancel])
  have ok: "slots_ok 2 ?d \<and> tasks_ok ?d \<and> env_ok ?d"
    using reach_store_ok [OF example_daemon_init example_quiet(3,1,2) r] by simp
  obtain d' where d': "ex_daemon_step\<^sup>*\<^sup>* ?d d'" "all_stopped d'"
    using shutdown_run [OF example_quiet(1,2) _ ok] by (metis daemon.select_convs(2) daemon.surjective daemon.update_convs(2))
  have "ex_daemon_step\<^sup>*\<^sup>* example_daemon d'" using r d'(1) by simp
  moreover from drain_waits_for_runners [OF example_daemon_init example_quiet(3,1,2) this d'(2)]
  have "\<forall>i r. mget (ms_tasks (w_store (d_world d'))) i = Some r \<longrightarrow>
      done_fired (w_heap (d_world d') r) \<or> registered_fired (w_heap (d_world d') r) \<or> r \<notin># tasks_in_flight d'"
    by blast
  moreover have "d_cancelled d'"
    using d'(1) by (induction rule: rtranclp_induct) (auto elim: daemon_step_cases)
  ultimately show ?thesis using d'(2) by blast
qed

end
