(* ===== verification/Lifecycle.thy ===== *)
theory Lifecycle
  imports Daemon_Records
begin

text \<open>
  The life of a task, from the poller that receives it to its end. The detailed daemon refines a
  machine of five phases per task, whatever its goroutines do and in whatever order, and no task gets
  more than one runner. Both need that no two tasks share their id or their random token: a request
  looks its token up in one lock section and claims it in another, and if the id of its task was
  given to another task in between, it claims the token of that one.
\<close>

section \<open>The abstract machine\<close>

datatype phase = Unknown | Waiting | Running | Finished | Closed

inductive lifecycle :: "phase \<Rightarrow> phase \<Rightarrow> bool" where
  received: "lifecycle Unknown Waiting"
| admit: "lifecycle Waiting Running"
| finish: "lifecycle Running Finished"
| close: "lifecycle Waiting Closed"

code_pred lifecycle .

inductive_simps lifecycle_simps [simp]: "lifecycle Finished q" "lifecycle Closed q" "lifecycle Running q" "lifecycle Waiting q"

text \<open>What a task can still become.\<close>

fun may_become :: "phase \<Rightarrow> phase set" where
  "may_become Unknown = UNIV"
| "may_become Waiting = {Waiting, Running, Finished, Closed}"
| "may_become Running = {Running, Finished}"
| "may_become Finished = {Finished}"
| "may_become Closed = {Closed}"

lemma lifecycle_may: "lifecycle\<^sup>*\<^sup>* p q \<Longrightarrow> q \<in> may_become p"
proof (induction rule: converse_rtranclp_induct)
  case base
  show ?case by (cases q) simp_all
next
  case (step p p')
  then show ?case by (cases rule: lifecycle.cases) auto
qed

lemma may_lifecycle:
  assumes "q \<in> may_become p"
  shows "lifecycle\<^sup>*\<^sup>* p q"
proof -
  have "lifecycle\<^sup>*\<^sup>* Unknown Waiting" "lifecycle\<^sup>*\<^sup>* Waiting Running" "lifecycle\<^sup>*\<^sup>* Waiting Closed"
    "lifecycle\<^sup>*\<^sup>* Running Finished"
    by (blast intro: lifecycle.intros)+
  moreover from this have "lifecycle\<^sup>*\<^sup>* Unknown Running" "lifecycle\<^sup>*\<^sup>* Unknown Closed" "lifecycle\<^sup>*\<^sup>* Waiting Finished"
    by (blast intro: rtranclp_trans)+
  moreover from this have "lifecycle\<^sup>*\<^sup>* Unknown Finished"
    using calculation(1) by (blast intro: rtranclp_trans)
  ultimately show ?thesis using assms by (cases p; cases q) auto
qed

section \<open>The phase of a task\<close>

definition phase_of :: "'x world \<Rightarrow> tref \<Rightarrow> phase" where
  "phase_of w r =
     (if w_next w \<le> r then Unknown
      else if done_fired (w_heap w r) then Finished
      else if admitted w r \<noteq> [] then Running
      else if open_tokens (w_store w) r \<noteq> [] \<or> claims w r \<noteq> [] then Waiting
      else Closed)"

lemma evolves_phase:
  assumes "evolves w w'" "world_ok w" "no_collisions w'"
  shows "phase_of w' r \<in> may_become (phase_of w r)"
proof (cases "r < w_next w")
  case True
  note e = evolvesD [OF assms(1,2)]
  have "r < w_next w'" using True e(2) by simp
  moreover have "done_fired (w_heap w r) \<Longrightarrow> done_fired (w_heap w' r)"
    using e(3) [OF True] by (simp add: keeps_ctx_def)
  moreover have "admitted w r \<noteq> [] \<Longrightarrow> admitted w' r \<noteq> []" by (rule admitted_evolves [OF assms(1,2)])
  moreover have "done_fired (w_heap w' r) \<Longrightarrow> admitted w' r \<noteq> []"
    using world_okD(6) [OF e(1) \<open>r < w_next w'\<close>] by (simp add: signalled_def)
  moreover have "chances w r = 0 \<Longrightarrow> chances w' r = 0" using e(9) [OF assms(3) \<open>r < w_next w'\<close>] True by simp
  ultimately show ?thesis using True by (auto simp: phase_of_def chances_def)
qed (simp add: phase_of_def)

text \<open>The runs to a state without collisions had none before.\<close>

definition clean_step :: "('x daemon \<Rightarrow> 'x daemon \<Rightarrow> bool) \<Rightarrow> 'x daemon \<Rightarrow> 'x daemon \<Rightarrow> bool" where
  "clean_step st d d' \<longleftrightarrow> st d d' \<and> no_collisions (d_world d')"

lemma evolves_clean:
  assumes "evolves w w'" "world_ok w" "no_collisions w'"
  shows "no_collisions w"
  using evolvesD(2,3) [OF assms(1,2)] assms(3) by (rule no_collisions_before)

lemma clean_run:
  assumes "(daemon_step parse encode R maxAge trigger)\<^sup>*\<^sup>* d d'" "run_ok R trigger N d \<and> store_ok d"
    and "no_collisions (d_world d')"
  shows "(clean_step (daemon_step parse encode R maxAge trigger))\<^sup>*\<^sup>* d d'"
  using assms
proof (induction rule: rtranclp_induct)
  case (step d1 d2)
  have "run_ok R trigger N d1 \<and> store_ok d1" by (rule owners.reach_inv [OF step.hyps(1) step.prems(1)])
  then have "no_collisions (d_world d1)"
    using evolves_clean [OF daemon_step_evolves [OF step.hyps(2)] _ step.prems(2)] by blast
  then have "(clean_step (daemon_step parse encode R maxAge trigger))\<^sup>*\<^sup>* d d1" using step.IH step.prems(1) by blast
  moreover have "clean_step (daemon_step parse encode R maxAge trigger) d1 d2"
    using step.hyps(2) step.prems(2) by (simp add: clean_step_def)
  ultimately show ?case by simp
qed simp

interpretation life: simulation "clean_step (daemon_step parse encode R maxAge trigger)"
  "\<lambda>d. run_ok R trigger N d \<and> store_ok d" "\<lambda>d. phase_of (d_world d) r" lifecycle
  for parse encode and R :: "('x world) Resolver" and maxAge trigger N r
proof unfold_locales
  fix d d'
  assume s: "clean_step (daemon_step parse encode R maxAge trigger) d d'" and ok: "run_ok R trigger N d \<and> store_ok d"
  then have st: "daemon_step parse encode R maxAge trigger d d'" by (simp add: clean_step_def)
  show "run_ok R trigger N d' \<and> store_ok d'" by (rule owners.step_inv [OF st ok])
  have "evolves (d_world d) (d_world d')" using st ok by (blast intro: daemon_step_evolves)
  then show "lifecycle\<^sup>*\<^sup>* (phase_of (d_world d) r) (phase_of (d_world d') r)"
    using ok s by (intro may_lifecycle evolves_phase) (simp_all add: store_ok_def clean_step_def)
qed

lemma no_collisionsI:
  assumes "distinct (map (\<lambda>q. t_ID (w_heap w q)) [0..<w_next w])"
    "distinct (map (\<lambda>q. t_RegToken (w_heap w q)) [0..<w_next w])"
  shows "no_collisions w"
  using assms by (simp add: no_collisions_def)

lemma session_phase:
  assumes "world_ok w" "Lookup tok (w_sessions w) = Some s"
  shows "phase_of w (s_TaskCtx (w_session w s)) \<in> {Running, Finished}"
proof -
  have "s < sm_next (w_sessions w)" using assms sm_okD(2) [OF world_okD(2) [OF assms(1)]] by (simp add: Lookup_def)
  from session_admits [OF this] world_okD(5) [OF assms(1) this] show ?thesis by (simp add: phase_of_def)
qed

lemma token_phase:
  assumes "world_ok w" "GetByRegToken tok (w_store w) = Some r"
  shows "phase_of w r \<in> {Waiting, Running, Finished}"
proof -
  have "open_tokens (w_store w) r \<noteq> []" using set_open_tokens [of tok "w_store w" r] assms(2) by auto
  then show ?thesis using token_task_known [OF assms] by (simp add: phase_of_def)
qed

lemma distinct_one: "n = 1 \<Longrightarrow> distinct (map f [0..<n])"
  by simp

section \<open>Properties\<close>

text \<open>C8: The daemon refines the life cycle of a task. As long as no two tasks share their id or their
  token, from any reachable state on, whatever pollers, handlers, requests, the GC loop and a
  shutdown do and between which locks they meet, each task moves only forward: from waiting for its
  runner to running or closed, from running to finished. A finished or closed task never comes back;
  only the sessions of running or finished tasks are registered, and no token leads to a closed task.\<close>

theorem task_lifecycle_refined:
  assumes "daemon_init n insts ext = Some d0" and "\<forall>(inst, fetch)\<in>set insts. quiet_fetch fetch"
    and "quiet_resolver R" and "quiet_trigger trigger"
    and "(daemon_step parse encode R maxAge trigger)\<^sup>*\<^sup>* d0 d" and "(daemon_step parse encode R maxAge trigger)\<^sup>*\<^sup>* d d'"
    and "distinct (map (\<lambda>q. t_ID (w_heap (d_world d') q)) [0..<w_next (d_world d')])"
    and "distinct (map (\<lambda>q. t_RegToken (w_heap (d_world d') q)) [0..<w_next (d_world d')])"
  shows "lifecycle\<^sup>*\<^sup>* (phase_of (d_world d) r) (phase_of (d_world d') r)
    \<and> (phase_of (d_world d) r \<in> {Finished, Closed} \<longrightarrow> phase_of (d_world d') r = phase_of (d_world d) r)
    \<and> (Lookup tok (w_sessions (d_world d)) = Some s \<longrightarrow>
         phase_of (d_world d) (s_TaskCtx (w_session (d_world d) s)) \<in> {Running, Finished})
    \<and> (GetByRegToken tok (w_store (d_world d)) = Some r \<longrightarrow> phase_of (d_world d) r \<noteq> Closed)"
proof -
  have ok: "run_ok R trigger (nat n) d \<and> store_ok d" using reach_store_ok [OF assms(1-5)] .
  have l: "lifecycle\<^sup>*\<^sup>* (phase_of (d_world d) r) (phase_of (d_world d') r)"
    using life.sim.reach_rel [OF clean_run [OF assms(6) ok no_collisionsI [OF assms(7,8)]] ok] .
  moreover have "phase_of (d_world d') r = phase_of (d_world d) r" if "phase_of (d_world d) r \<in> {Finished, Closed}"
    using lifecycle_may [OF l] that by auto
  moreover have "world_ok (d_world d)" using ok by (simp add: store_ok_def)
  ultimately show ?thesis using session_phase [of "d_world d" tok s] token_phase [of "d_world d" tok r] by auto
qed

theorem task_lifecycle_refined_witness:
  "\<exists>d. ex_daemon_step\<^sup>*\<^sup>* example_daemon d \<and> phase_of (d_world d) 0 \<noteq> Closed
     \<and> lifecycle\<^sup>*\<^sup>* (phase_of (d_world example_daemon) 0) (phase_of (d_world d) 0)"
proof -
  obtain d tok where d: "ex_daemon_step\<^sup>*\<^sup>* example_daemon d" "GetByRegToken tok (w_store (d_world d)) = Some 0"
    "w_next (d_world d) = 1"
    using example_run by blast
  note u = distinct_one [OF d(3)]
  show ?thesis
    using task_lifecycle_refined [OF example_daemon_init example_quiet(3,1,2) rtranclp.rtrancl_refl d(1) u u, of 0]
      task_lifecycle_refined [OF example_daemon_init example_quiet(3,1,2) d(1) rtranclp.rtrancl_refl u u, of 0 tok]
      d by (intro exI [of _ d]) simp
qed

text \<open>C7: One runner per task, in every interleaving of the requests' lock sections. As long as no two
  tasks share their id or their token, the sessions a task has had, the tokens that still lead to it
  and the requests that have claimed one never grow in number together, so a session is only ever
  created at the cost of a token; and no task ever has more than one session or claim, in any
  run, and once it has one no token leads to it any more.\<close>

theorem one_runner_per_task:
  assumes "daemon_init n insts ext = Some d0" and "\<forall>(inst, fetch)\<in>set insts. quiet_fetch fetch"
    and "quiet_resolver R" and "quiet_trigger trigger"
    and "(daemon_step parse encode R maxAge trigger)\<^sup>*\<^sup>* d0 d" and "(daemon_step parse encode R maxAge trigger)\<^sup>*\<^sup>* d d'"
    and "r < w_next (d_world d)"
    and "distinct (map (\<lambda>q. t_ID (w_heap (d_world d') q)) [0..<w_next (d_world d')])"
    and "distinct (map (\<lambda>q. t_RegToken (w_heap (d_world d') q)) [0..<w_next (d_world d')])"
  shows "length (admitted (d_world d') r) + length (open_tokens (w_store (d_world d')) r) + length (claims (d_world d') r)
      \<le> length (admitted (d_world d) r) + length (open_tokens (w_store (d_world d)) r) + length (claims (d_world d) r)
    \<and> length (admitted (d_world d') r) + length (claims (d_world d') r) \<le> 1
    \<and> (admitted (d_world d') r \<noteq> [] \<or> claims (d_world d') r \<noteq> [] \<longrightarrow>
         (\<forall>tok. GetByRegToken tok (w_store (d_world d')) \<noteq> Some r))"
proof -
  have ok: "run_ok R trigger (nat n) d \<and> store_ok d" using reach_store_ok [OF assms(1-5)] .
  then have wok: "world_ok (d_world d)" by (simp add: store_ok_def)
  have nc: "no_collisions (d_world d')" by (rule no_collisionsI [OF assms(8,9)])
  note e = evolvesD [OF records.reach_rel [OF assms(6), of "nat n"] wok]
  have r: "r < w_next (d_world d')" using e(2) ok assms(7) by simp
  have "run_ok R trigger (nat n) d0" by (rule daemon_init_run [OF assms(1-4)])
  from records.reach_rel [OF rtranclp_trans [OF assms(5,6)] this]
  have e0: "evolves (d_world d0) (d_world d')" .
  have "w_next (d_world d0) = 0" using assms(1) by (auto simp: daemon_init_def split: option.splits)
  then have one: "chances (d_world d') r \<le> 1"
    using evolvesD(9) [OF e0 daemon_init_world [OF assms(1)] nc r] by simp
  have "chances (d_world d') r \<le> chances (d_world d) r" using e(9) [OF _ nc r] ok assms(7) by simp
  moreover have "\<forall>tok. GetByRegToken tok (w_store (d_world d')) \<noteq> Some r"
    if "admitted (d_world d') r \<noteq> [] \<or> claims (d_world d') r \<noteq> []"
  proof -
    have "1 \<le> length (admitted (d_world d') r) + length (claims (d_world d') r)"
      using that by (cases "admitted (d_world d') r"; cases "claims (d_world d') r") simp_all
    then have "length (open_tokens (w_store (d_world d')) r) = 0" using one unfolding chances_def by linarith
    then have "open_tokens (w_store (d_world d')) r = []" by simp
    then show ?thesis using set_open_tokens [of _ "w_store (d_world d')" r] by auto
  qed
  ultimately show ?thesis using one by (simp add: chances_def)
qed

theorem one_runner_per_task_witness:
  "\<exists>d d'. ex_daemon_step\<^sup>*\<^sup>* example_daemon d \<and> ex_daemon_step\<^sup>*\<^sup>* d d' \<and> w_next (d_world d) = 1
     \<and> length (admitted (d_world d') 0) = 1 \<and> (\<forall>tok. GetByRegToken tok (w_store (d_world d')) \<noteq> Some 0)"
proof -
  obtain d tok d1 where d: "ex_daemon_step\<^sup>*\<^sup>* example_daemon d" "w_next (d_world d) = 1" "ex_daemon_step\<^sup>*\<^sup>* d d1"
    and d1: "w_next (d_world d1) = 1" "s_TaskCtx (w_session (d_world d1) 0) = 0" "sm_next (w_sessions (d_world d1)) = 1"
    using example_admission by blast
  have "(0::nat) \<in> set (admitted (d_world d1) 0)" using d1 by (simp add: set_admitted)
  then have a: "admitted (d_world d1) 0 \<noteq> []" by auto
  from one_runner_per_task [OF example_daemon_init example_quiet(3,1,2) d(1,3) _ distinct_one [OF d1(1)] distinct_one [OF d1(1)], of 0]
  have "length (admitted (d_world d1) 0) \<le> 1 \<and> (\<forall>tok. GetByRegToken tok (w_store (d_world d1)) \<noteq> Some 0)"
    using a d(2) by simp
  then show ?thesis
    using a d by (intro exI [of _ d] exI [of _ d1]) (auto simp: le_Suc_eq)
qed

end
