(* ===== verification/Progress.thy ===== *)
theory Progress
  imports Daemon_Records
begin

text \<open>
  No task keeps its slot for ever. The second select of a handler has no timer: it waits for the
  runner's last report or for the GC loop to notice that the runner is silent, and both need a
  session in the registry. The invariant here is that there is one, as long as the handler waits and
  the GC loop is not about to end its task; so each handler that is still running can be brought to its end by the daemon alone, without a
  shutdown.
\<close>

section \<open>The invariant\<close>

definition closing_task :: "'x daemon \<Rightarrow> tref \<Rightarrow> bool" where
  "closing_task d r \<longleftrightarrow> (\<exists>hs ops. (r, hs) \<in> set (d_handlers d) \<and> h_pc hs = HClean ops)"

text \<open>A task whose handler is ending, or which the GC loop is about to mark done.\<close>

definition excused :: "'x daemon \<Rightarrow> tref \<Rightarrow> bool" where
  "excused d r \<longleftrightarrow> closing_task d r \<or> r \<in> gc_owes (d_world d) (d_gc d)"

text \<open>The tokens that a handler has read from its task and whose session it has still to remove.\<close>

definition pending_drops :: "'x handler_pc \<Rightarrow> string set" where
  "pending_drops pc = {tok. \<exists>ops. pc = HClean ops \<and> ExDrop tok \<in> set ops}"

lemma pending_drops_simps [simp]:
  "pending_drops HStart = {}" "pending_drops (HWait1 c) = {}" "pending_drops HWait2 = {}"
  "pending_drops (HClean ops) = {tok. ExDrop tok \<in> set ops}"
  by (simp_all add: pending_drops_def)

definition watch_ok :: "'x daemon \<Rightarrow> bool" where
  "watch_ok d \<longleftrightarrow> tokens_ok (d_world d) \<and> (unique_tokens (d_world d) \<longrightarrow>
     (\<forall>r < w_next (d_world d). tended (d_world d) r \<or> excused d r))
     \<and> (\<forall>(r, hs)\<in>set (d_handlers d). \<forall>tok\<in>pending_drops (h_pc hs). drops_own {r} (d_world d) tok)"

lemma handle_step_drops:
  assumes "handle_step R trigger timer ctx sel r hs w = Some (w', hs')" "tokens_ok w" "r < w_next w"
    and "\<forall>tok\<in>pending_drops (h_pc hs). drops_own {r} w tok"
  shows "\<forall>tok\<in>pending_drops (h_pc hs'). drops_own {r} w tok"
  using assms(1)
proof (cases rule: handle_step_cases)
  case start
  from start(2) show ?thesis by (cases rule: handle_start_pc) simp_all
next
  case (wait1 client)
  from wait1(3,2) show ?thesis by (cases rule: handle_wait1_pc) simp_all
next
  case (clean op ops)
  then show ?thesis using assms(4) drops_own_token [OF assms(2,3)] by (cases op) auto
qed simp

lemma watch_evolves:
  assumes "watch_ok d" "world_ok (d_world d)" "evolves (d_world d) (d_world d')"
    and "gc_owes (d_world d) (d_gc d) \<subseteq> gc_owes (d_world d') (d_gc d') \<union> {r. done_fired (w_heap (d_world d') r)}"
    and "tends X (d_world d) (d_world d')"
    and "\<And>r. r \<in> X \<Longrightarrow> excused d' r" "\<And>r. closing_task d r \<Longrightarrow> closing_task d' r"
    and "\<And>r hs. (r, hs) \<in> set (d_handlers d') \<Longrightarrow> (r, hs) \<in> set (d_handlers d)
      \<or> (\<forall>tok\<in>pending_drops (h_pc hs). drops_own {r} (d_world d) tok)"
  shows "watch_ok d'"
proof -
  have tok: "tokens_ok (d_world d)" using assms(1) by (simp add: watch_ok_def)
  note t = tendsD [OF assms(5,2) tok]
  have "tended (d_world d') r \<or> excused d' r" if u: "unique_tokens (d_world d')" and r: "r < w_next (d_world d')" for r
  proof (cases "excused d' r \<or> done_fired (w_heap (d_world d') r)")
    case False
    have "unique_tokens (d_world d)" by (rule unique_tokens_before [OF assms(3,2) u])
    moreover have "\<not> excused d r" using assms(4,7) False by (auto simp: excused_def)
    ultimately have "r < w_next (d_world d) \<Longrightarrow> tended (d_world d) r"
      using assms(1) by (auto simp: watch_ok_def)
    then show ?thesis using t(2) [OF u r] assms(6) False by blast
  qed (use tended_done in blast)
  moreover have "drops_own {r} (d_world d') tok"
    if "(r, hs) \<in> set (d_handlers d')" "tok \<in> pending_drops (h_pc hs)" for r hs tok
    using assms(1) assms(8) [OF that(1)] that(2) drops_own_evolves [OF assms(3,2)] by (auto simp: watch_ok_def)
  ultimately show ?thesis using t(1) by (auto simp: watch_ok_def)
qed

lemma closing_task_update:
  assumes "k < length (d_handlers d)" "d_handlers d ! k = (r0, hs)" "closing_task d r"
    and "\<And>ops. h_pc hs = HClean ops \<Longrightarrow> \<exists>ops'. h_pc hs' = HClean ops'"
  shows "closing_task (d\<lparr>d_world := w', d_handlers := (d_handlers d)[k := (r0, hs')]\<rparr>) r"
proof -
  obtain hs1 j ops where j: "j < length (d_handlers d)" "d_handlers d ! j = (r, hs1)" "h_pc hs1 = HClean ops"
    using assms(3) by (auto simp: closing_task_def in_set_conv_nth)
  have "\<exists>hs2 ops. (d_handlers d)[k := (r0, hs')] ! j = (r, hs2) \<and> h_pc hs2 = HClean ops"
    using assms(2,4) j by (cases "j = k") simp_all
  then show ?thesis
    using j(1) unfolding closing_task_def by (fastforce simp: in_set_conv_nth)
qed

lemma daemon_step_watch:
  assumes "daemon_step parse encode R maxAge trigger d d'" "run_ok R trigger N d" "store_ok d" "watch_ok d"
  shows "watch_ok d'"
proof -
  have wok: "world_ok (d_world d)" using assms(3) by (simp add: store_ok_def)
  have ev: "evolves (d_world d) (d_world d')" using daemon_step_evolves [OF assms(1)] assms(2) by blast
  have owes: "gc_owes (d_world d) (d_gc d) \<subseteq> gc_owes (d_world d') (d_gc d') \<union> {r. done_fired (w_heap (d_world d') r)}"
    using daemon_step_gc [OF assms(1) _ _ wok ev] assms(2) by blast
  show ?thesis
    using assms(1)
  proof cases
    case (step_poll k p ch w' pc')
    then have "quiet_fetch (pl_fetch p)" using assms(2) by (simp add: env_ok_def)
    from poll_step_evolves [OF this step_poll(5)] show ?thesis
      using step_poll(1) by (intro watch_evolves [OF assms(4) wok ev owes, of "{}"]) (simp_all add: closing_task_def)
  next
    case (step_dispatch r rest)
    then show ?thesis
      by (intro watch_evolves [OF assms(4) wok ev owes, of "{}"]) (auto simp: closing_task_def intro: tends_frame)
  next
    case (step_handler k r hs timer sel w' hs')
    have m: "(r, hs) \<in> set (d_handlers d)" using step_handler(2,3) by (metis nth_mem)
    then have q: "handler_quiet (h_pc hs)" using assms(2) by (auto simp: env_ok_def)
    have r: "r < w_next (d_world d)" using in_flight_known [OF _ handler_in_flight [OF m]] assms(2) by simp
    have drops: "\<forall>tok\<in>pending_drops (h_pc hs). drops_own {r} (d_world d) tok" and tok: "tokens_ok (d_world d)"
      using assms(4) m by (auto simp: watch_ok_def)
    have "drops_own {r} (d_world d) tok" if "h_pc hs = HClean (ExDrop tok # ops)" for tok ops
      using drops that by simp
    from handle_step_guar [OF _ _ q step_handler(4) this] assms(2)
    have g: "tends (if ends_session (h_pc hs) then {r} else {}) (d_world d) w'" by (auto simp: handler_guar_def)
    have on: "\<exists>ops'. h_pc hs' = HClean ops'" if "h_pc hs = HClean ops" for ops
      using step_handler(4) that by (cases rule: handle_step_cases) simp_all
    have keep: "closing_task d' q" if "closing_task d q" for q
      using closing_task_update [OF step_handler(2,3) that on] step_handler(1) by simp
    show ?thesis
    proof (rule watch_evolves [OF assms(4) wok ev owes])
      show "tends (if ends_session (h_pc hs) then {r} else {}) (d_world d) (d_world d')" using g step_handler(1) by simp
      show "excused d' q" if "q \<in> (if ends_session (h_pc hs) then {r} else {})" for q
      proof -
        have "ends_session (h_pc hs)" "q = r" using that by (simp_all split: if_splits)
        then have "closing_task d q"
          using m by (cases "h_pc hs") (auto simp: closing_task_def)
        then show ?thesis using keep by (simp add: excused_def)
      qed
      show "(q, hs1) \<in> set (d_handlers d) \<or> (\<forall>tok\<in>pending_drops (h_pc hs1). drops_own {q} (d_world d) tok)"
        if "(q, hs1) \<in> set (d_handlers d')" for q hs1
        using that handle_step_drops [OF step_handler(4) tok r drops] step_handler(1)
          set_update_subset_insert [of "d_handlers d" k "(r, hs')"] by auto
    qed (rule keep)
  next
    case (step_heartbeat k r hs inst client w')
    then show ?thesis
      using steady_tends [OF quiet_call(4) [OF _ step_heartbeat(5)]] assms(2)
      by (intro watch_evolves [OF assms(4) wok ev owes, of "{}"]) (auto simp: closing_task_def)
  next
    case (step_arrive c)
    then show ?thesis
      using orderlyD(3) [OF orderly_arrive [of "d_world d" c]]
      by (intro watch_evolves [OF assms(4) wok ev owes, of "{}"]) (auto simp: closing_task_def)
  next
    case (step_request k c pc now rnd w' pc')
    then show ?thesis
      using orderlyD(3) [OF request_step_orderly [OF _ step_request(2-4)]] assms(2)
      by (intro watch_evolves [OF assms(4) wok ev owes, of "{}"]) (auto simp: closing_task_def)
  next
    case (step_proxy tok now)
    then show ?thesis
      using steady_tends [OF steady_atoms(1)]
      by (intro watch_evolves [OF assms(4) wok ev owes, of "{}"]) (auto simp: closing_task_def)
  next
    case (step_gc stop now w' pc')
    then show ?thesis
      using steady_tends [OF gc_step_guar(1) [OF _ step_gc(2) _ wok]] assms(2)
      by (intro watch_evolves [OF assms(4) wok ev owes, of "gc_owes w' pc'"]) (auto simp: closing_task_def excused_def)
  next
    case step_cancel
    then show ?thesis using assms(4) by (simp add: watch_ok_def excused_def closing_task_def)
  qed
qed

interpretation watch: invariant_of "daemon_step parse encode R maxAge trigger"
  "\<lambda>d. run_ok R trigger N d \<and> store_ok d \<and> watch_ok d"
  for parse encode and R :: "('x world) Resolver" and maxAge trigger N
  by unfold_locales (use owners.step_inv daemon_step_watch in blast)

lemma daemon_init_watch: "daemon_init n insts ext = Some d \<Longrightarrow> watch_ok d"
  by (auto simp: daemon_init_def watch_ok_def tokens_ok_def NewMemStore_def NewManager_def split: option.splits)

lemma reach_watch_ok:
  assumes "daemon_init n insts ext = Some d0" "\<forall>(inst, fetch)\<in>set insts. quiet_fetch fetch"
    and "quiet_resolver R" "quiet_trigger trigger" "(daemon_step parse encode R maxAge trigger)\<^sup>*\<^sup>* d0 d"
  shows "run_ok R trigger (nat n) d \<and> store_ok d \<and> watch_ok d"
  using watch.reach_inv [OF assms(5), of "nat n"] reach_store_ok [OF assms(1-4) rtranclp.rtrancl_refl]
    daemon_init_watch [OF assms(1)] by blast

section \<open>The end of a handler\<close>

lemma one_handler_per_task:
  assumes "tasks_ok d" "(r, hs) \<in> set (d_handlers d)" "(r, hs') \<in> set (d_handlers d)"
  shows "hs = hs'"
proof -
  obtain lost where "tasks_in_flight d + lost = mset [0..<w_next (d_world d)]"
    using assms(1) unfolding tasks_ok_def by blast
  moreover obtain ys where "mset ys = mset (w_chan (d_world d)) + (\<Sum>p\<leftarrow>d_pollers d. sending (pl_pc p)) + lost"
    using ex_mset by blast
  ultimately have "mset (ys @ map fst (d_handlers d)) = mset [0..<w_next (d_world d)]"
    by (simp add: tasks_in_flight_def ac_simps)
  from mset_eq_imp_distinct_iff [OF this] have "distinct (map fst (d_handlers d))" by simp
  then show ?thesis using assms(2,3) by (rule eq_key_imp_eq_value)
qed

text \<open>
  A handler that waits for the end of its task: the task is done, or its runner has a session, or
  the GC loop is about to end it.
\<close>

lemma waiting_watched:
  assumes "run_ok R trigger N d \<and> store_ok d \<and> watch_ok d" "unique_tokens (d_world d)"
    and "(r, hs) \<in> set (d_handlers d)" "h_pc hs = HWait2"
  shows "done_fired (w_heap (d_world d) r) \<or> watched (d_world d) r \<or> r \<in> gc_owes (d_world d) (d_gc d)"
proof -
  have r: "r < w_next (d_world d)" using in_flight_known [OF _ handler_in_flight [OF assms(3)]] assms(1) by simp
  have "registered_fired (w_heap (d_world d) r)" "world_ok (d_world d)" using assms(1,3,4) by (auto simp: store_ok_def)
  then have "admitted (d_world d) r \<noteq> []" using world_okD(6) [OF _ r] by (simp add: signalled_def)
  moreover have "\<not> closing_task d r"
    using one_handler_per_task [OF _ assms(3)] assms(1,4) by (auto simp: closing_task_def)
  ultimately show ?thesis using assms(1,2) r by (auto simp: watch_ok_def excused_def tended_def)
qed

text \<open>A pass of the GC loop at a late enough time ends the task of a silent session.\<close>

lemma late_gc:
  assumes "quiet_resolver R" "world_ok w" "watched w r" "maxAge < int64_max"
  shows "\<exists>w'. (gc_moves R maxAge)\<^sup>*\<^sup>* (w, GcWaiting) (w', GcWaiting) \<and> done_fired (w_heap w' r)"
proof -
  note sm = world_okD(2) [OF assms(2)]
  obtain s where s: "s_TaskCtx (w_session w s) = r" "Lookup (s_SessionToken (w_session w s)) (w_sessions w) = Some s"
    using watched_session [OF sm assms(3)] by blast
  let ?now = "s_LastActivity (w_session w s) + int64_max"
  have "expire_due ?now maxAge (w_session w s)"
    using assms(4) by (simp add: expire_due_def time_sub_def sat64_def int64_min_def int64_max_def)
  then have e: "s \<in> set (snd (Expire ?now maxAge (w_sessions w)))" using s(2) Expire_returned [OF sm] by blast
  let ?ss = "snd (Expire ?now maxAge (w_sessions w))"
  let ?w1 = "w\<lparr>w_store := gc_remove (gc_candidates (w_heap w) ?now (w_store w)) (w_store w)\<rparr>"
  let ?w2 = "?w1\<lparr>w_sessions := fst (Expire ?now maxAge (w_sessions w))\<rparr>"
  have "(gc_moves R maxAge)\<^sup>*\<^sup>* (?w1, GcExpiring ?now) (?w2, GcOrphans ?ss)"
    by (rule gc_move) (auto simp: split_beta Let_def)
  then have "(gc_moves R maxAge)\<^sup>*\<^sup>* (w, GcReaping ?now (gc_candidates (w_heap w) ?now (w_store w))) (?w2, GcOrphans ?ss)"
    by (rule gc_move [rotated]) simp
  then have head: "(gc_moves R maxAge)\<^sup>*\<^sup>* (w, GcWaiting) (?w2, GcOrphans ?ss)"
    by (rule gc_move [rotated]) simp
  obtain w' where tail: "(gc_moves R maxAge)\<^sup>*\<^sup>* (?w2, GcOrphans ?ss) (w', GcWaiting)"
    using gc_moves_orphans by blast
  have g: "evolves w ?w2" "gc_ok ?w2 (GcOrphans ?ss)"
    using gc_moves_guar [OF head assms(1)] assms(2) by (simp_all add: gc_ok_def)
  have "r \<in> gc_owes ?w2 (GcOrphans ?ss)" using e s(1) by (auto simp: gc_owes_def)
  then have "done_fired (w_heap w' r)"
    using gc_moves_guar [OF tail assms(1)] evolvesD(1) [OF g(1) assms(2)] g(2) by (auto simp: gc_owes_def)
  then show ?thesis using rtranclp_trans [OF head tail] by blast
qed

text \<open>No random token drawn while the GC loop reports a failure collides with another.\<close>

definition fresh_reports :: "('x world) Resolver \<Rightarrow> bool" where
  "fresh_reports R \<longleftrightarrow> (\<forall>s w. unique_tokens w \<longrightarrow> unique_tokens (gc_report R s w))"

lemma gc_moves_unique:
  assumes "(gc_moves R maxAge)\<^sup>*\<^sup>* c c'" "fresh_reports R" "unique_tokens (fst c)"
  shows "unique_tokens (fst c')"
  using assms(1)
proof (induction rule: rtranclp_induct)
  case (step c1 c2)
  then obtain now where "gc_step False now R maxAge (snd c1) (fst c1) = c2" by (auto simp: gc_moves_def)
  then show ?case
    using step.IH assms(2)
    by (cases "(False, now, R, maxAge, snd c1, fst c1)" rule: gc_step.cases)
      (auto simp: fresh_reports_def unique_tokens_def Let_def split_beta)
qed (use assms(3) in simp)

text \<open>So the GC loop, wherever it is in its pass, can end the task of a handler that waits.\<close>

lemma gc_ends_task:
  assumes inv: "run_ok R trigger N d \<and> store_ok d \<and> watch_ok d" and u: "unique_tokens (d_world d)" "fresh_reports R"
    and h: "(r, hs) \<in> set (d_handlers d)" "h_pc hs = HWait2" and gc: "d_gc d \<noteq> GcStopped" "maxAge < int64_max"
  shows "\<exists>w'. (gc_moves R maxAge)\<^sup>*\<^sup>* (d_world d, d_gc d) (w', GcWaiting) \<and> done_fired (w_heap w' r)"
proof -
  obtain w1 where w1: "(gc_moves R maxAge)\<^sup>*\<^sup>* (d_world d, d_gc d) (w1, GcWaiting)"
    using gc_moves_waiting [OF gc(1)] by blast
  let ?d = "d\<lparr>d_world := w1, d_gc := GcWaiting\<rparr>"
  have "(daemon_step parse encode R maxAge trigger)\<^sup>*\<^sup>* d ?d" for parse encode
    using gc_moves_daemon [OF w1, of parse encode trigger] by simp
  from watch.reach_inv [OF this inv] have ok: "run_ok R trigger N ?d \<and> store_ok ?d \<and> watch_ok ?d" .
  have "unique_tokens (d_world ?d)" using gc_moves_unique [OF w1 u(2)] u(1) by simp
  from waiting_watched [OF ok this, of r hs] h
  have "done_fired (w_heap w1 r) \<or> watched w1 r" by (simp add: gc_owes_def)
  then show ?thesis
  proof
    assume "watched w1 r"
    moreover have "world_ok w1" "quiet_resolver R" using ok by simp_all
    ultimately obtain w' where "(gc_moves R maxAge)\<^sup>*\<^sup>* (w1, GcWaiting) (w', GcWaiting)" "done_fired (w_heap w' r)"
      using late_gc [of R w1 r maxAge] gc(2) by blast
    then show ?thesis using rtranclp_trans [OF w1] by blast
  qed (use w1 in blast)
qed

text \<open>What a run of a handler to its end leaves, having released \<open>n\<close> slots.\<close>

definition ended :: "nat \<Rightarrow> tref \<Rightarrow> nat \<Rightarrow> 'x daemon \<Rightarrow> 'x daemon \<Rightarrow> bool" where
  "ended k r n d d' \<longleftrightarrow> d_handlers d' = (d_handlers d)[k := (r, exited)] \<and> d_pollers d' = d_pollers d
     \<and> d_cancelled d' = d_cancelled d \<and> w_pool (d_world d') = (Release ^^ n) (w_pool (d_world d))"

lemma ended_later:
  assumes "(daemon_step parse encode R maxAge trigger)\<^sup>*\<^sup>* d d1" "d_handlers d1 = (d_handlers d)[k := h]"
    "d_pollers d1 = d_pollers d" "d_cancelled d1 = d_cancelled d" "w_pool (d_world d1) = (Release ^^ m) (w_pool (d_world d))"
    and "\<exists>d'. (daemon_step parse encode R maxAge trigger)\<^sup>*\<^sup>* d1 d' \<and> ended k r n d1 d'"
  shows "\<exists>d'. (daemon_step parse encode R maxAge trigger)\<^sup>*\<^sup>* d d' \<and> ended k r (n + m) d d'"
proof -
  obtain d' where d': "(daemon_step parse encode R maxAge trigger)\<^sup>*\<^sup>* d1 d'" "ended k r n d1 d'" using assms(6) by blast
  have "(daemon_step parse encode R maxAge trigger)\<^sup>*\<^sup>* d d'"
    using assms(1) d'(1) by (rule rtranclp_trans)
  moreover have "ended k r (n + m) d d'" using d'(2) assms(2-5) by (simp add: ended_def funpow_add)
  ultimately show ?thesis by blast
qed

lemma exit_step_pool: "op_quiet op \<Longrightarrow>
    w_pool (exit_step op r w) = (Release ^^ count_list [op] ExRelease) (w_pool w)"
  using exit_step_guar [of op UNIV w "[]" r]
  by (cases op) (simp_all add: handler_guar_def drops_own_def slots_view_def)

lemma closing_run:
  assumes "k < length (d_handlers d)" "d_handlers d ! k = (r, closing ops)" "list_all op_quiet ops"
  shows "\<exists>d'. (daemon_step parse encode R maxAge trigger)\<^sup>*\<^sup>* d d' \<and> ended k r (count_list ops ExRelease) d d'"
  using assms
proof (induction "\<Sum>op\<leftarrow>ops. op_rank op" arbitrary: ops d rule: less_induct)
  case less
  show ?case
  proof (cases ops)
    case Nil
    then have "ended k r 0 d d" using list_update_id [of "d_handlers d" k] less.prems by (simp add: ended_def)
    then show ?thesis using Nil by auto
  next
    case (Cons op rest)
    let ?left = "exit_rest op r (d_world d) @ rest"
    let ?d = "d\<lparr>d_world := exit_step op r (d_world d), d_handlers := (d_handlers d)[k := (r, closing ?left)]\<rparr>"
    have "handle_step R trigger False (d_cancelled d) ReadyCtx r (closing ops) (d_world d)
        = Some (exit_step op r (d_world d), closing ?left)"
      by (simp add: Cons handle_step_def)
    from step_handler [OF less.prems(1,2) this] have st: "daemon_step parse encode R maxAge trigger d ?d" .
    have left: "count_list ?left ExRelease = count_list rest ExRelease" "list_all op_quiet ?left"
      using less.prems(3) by (cases op; simp add: Cons)+
    have "(\<Sum>op\<leftarrow>?left. op_rank op) < (\<Sum>op\<leftarrow>ops. op_rank op)"
      using exit_rest_rank [of op r "d_world d"] by (simp add: Cons)
    from less.hyps [OF this, of ?d] less.prems(1) left
    have "\<exists>d'. (daemon_step parse encode R maxAge trigger)\<^sup>*\<^sup>* ?d d' \<and> ended k r (count_list rest ExRelease) ?d d'"
      by simp
    from ended_later [OF r_into_rtranclp [where r = "daemon_step parse encode R maxAge trigger", OF st] _ _ _ _ this,
        of "(r, closing ?left)" "count_list [op] ExRelease"]
    show ?thesis
      using exit_step_pool [of op r "d_world d"] less.prems(3) by (cases "op = ExRelease") (simp_all add: Cons)
  qed
qed

lemma handler_step_ends:
  assumes "quiet_resolver R" "quiet_trigger trigger" "k < length (d_handlers d)" "d_handlers d ! k = (r, hs)"
    and "handler_quiet (h_pc hs)" "handle_step R trigger timer (d_cancelled d) sel r hs (d_world d) = Some (w', closing ops)"
  shows "\<exists>d'. (daemon_step parse encode R maxAge trigger)\<^sup>*\<^sup>* d d' \<and> ended k r (handler_slots (h_pc hs)) d d'"
proof -
  let ?d = "d\<lparr>d_world := w', d_handlers := (d_handlers d)[k := (r, closing ops)]\<rparr>"
  let ?m = "if releasing (h_pc hs) then 1 else 0 :: nat"
  note g = handle_step_changes [OF assms(1,2,5,6)]
  have "w_pool w' = (Release ^^ ?m) (w_pool (d_world d))" using g(4) by (simp add: slots_view_def split: if_splits)
  moreover have "\<exists>d'. (daemon_step parse encode R maxAge trigger)\<^sup>*\<^sup>* ?d d' \<and> ended k r (count_list ops ExRelease) ?d d'"
    by (rule closing_run) (use assms(3) g(2) in simp_all)
  ultimately have "\<exists>d'. (daemon_step parse encode R maxAge trigger)\<^sup>*\<^sup>* d d' \<and> ended k r (count_list ops ExRelease + ?m) d d'"
    by (intro ended_later [OF r_into_rtranclp [where r = "daemon_step parse encode R maxAge trigger", OF step_handler [OF assms(3,4,6)]]]) simp_all
  moreover have "count_list ops ExRelease + ?m = handler_slots (h_pc hs)"
    using slot_released_once [OF assms(6)] by simp
  ultimately show ?thesis by simp
qed

lemma handler_can_end:
  assumes R: "quiet_resolver R" "quiet_trigger trigger" and k: "k < length (d_handlers d)" "d_handlers d ! k = (r, hs)"
    and hs: "handler_quiet (h_pc hs)" "h_pc hs \<noteq> HExit"
    and w: "h_pc hs = HWait2 \<Longrightarrow> d_cancelled d
      \<or> (\<exists>w' pc'. (gc_moves R maxAge)\<^sup>*\<^sup>* (d_world d, d_gc d) (w', pc') \<and> done_fired (w_heap w' r))"
  shows "\<exists>d'. (daemon_step parse encode R maxAge trigger)\<^sup>*\<^sup>* d d' \<and> ended k r (handler_slots (h_pc hs)) d d'"
proof -
  note once = handler_step_ends [OF R, where parse = parse and encode = encode and maxAge = maxAge]
  note now = once [OF k hs(1)]
  have timeout: "\<exists>w' ops. handle_step R trigger True b ReadyTimeout r hs1 v = Some (w', closing ops)"
    if "h_pc hs1 = HWait1 c" for hs1 c b and v :: "'a world"
    using that by (auto simp: handle_step_def can_fire_def handle_wait1_def)
  have finish: "\<exists>w' ops. handle_step R trigger True b ReadyDone r hs v = Some (w', closing ops)"
    if "h_pc hs = HWait2" "done_fired (w_heap v r)" for b and v :: "'a world"
    using that by (auto simp: handle_step_def can_fire_def handle_wait2_def)
  show ?thesis
  proof (cases "h_pc hs")
    case HStart
    obtain w1 hs1 where h: "handle_start R trigger r (d_world d) = (w1, hs1)" by fastforce
    then have st: "handle_step R trigger True (d_cancelled d) ReadyCtx r hs (d_world d) = Some (w1, hs1)"
      using HStart by (simp add: handle_step_def)
    have "(\<exists>ops. hs1 = closing ops) \<or> (\<exists>c. h_pc hs1 = HWait1 c)"
      using h by (cases rule: handle_start_pc) auto
    then show ?thesis
    proof
      assume "\<exists>ops. hs1 = closing ops"
      then show ?thesis using now st by blast
    next
      assume "\<exists>c. h_pc hs1 = HWait1 c"
      then obtain c where c: "h_pc hs1 = HWait1 c" by blast
      let ?d = "d\<lparr>d_world := w1, d_handlers := (d_handlers d)[k := (r, hs1)]\<rparr>"
      note g = handle_step_changes [OF R hs(1) st]
      obtain w' ops where "handle_step R trigger True (d_cancelled ?d) ReadyTimeout r hs1 (d_world ?d) = Some (w', closing ops)"
        using timeout [OF c] by blast
      from once [of k ?d, OF _ _ g(2) this] k(1) c
      have "\<exists>d'. (daemon_step parse encode R maxAge trigger)\<^sup>*\<^sup>* ?d d' \<and> ended k r 1 ?d d'" by simp
      from ended_later [OF r_into_rtranclp [where r = "daemon_step parse encode R maxAge trigger", OF step_handler [OF k st]] _ _ _ _ this, of "(r, hs1)" 0]
      show ?thesis using g(4) HStart by (simp add: slots_view_def)
    qed
  next
    case (HWait1 c)
    then show ?thesis using timeout [of hs c] now by blast
  next
    case HWait2
    show ?thesis
    proof (cases "d_cancelled d")
      case True
      then have "\<exists>w' ops. handle_step R trigger True (d_cancelled d) ReadyCtx r hs (d_world d) = Some (w', closing ops)"
        using HWait2 by (auto simp: handle_step_def can_fire_def handle_wait2_def)
      then show ?thesis using now by blast
    next
      case False
      then obtain w1 pc1 where g: "(gc_moves R maxAge)\<^sup>*\<^sup>* (d_world d, d_gc d) (w1, pc1)" "done_fired (w_heap w1 r)"
        using w [OF HWait2] by blast
      let ?d = "d\<lparr>d_world := w1, d_gc := pc1\<rparr>"
      obtain w' ops where "handle_step R trigger True (d_cancelled ?d) ReadyDone r hs (d_world ?d) = Some (w', closing ops)"
        using finish [OF HWait2, of "d_world ?d" "d_cancelled ?d"] g(2) by auto
      from once [of k ?d, OF _ _ hs(1) this] k HWait2
      have e: "\<exists>d'. (daemon_step parse encode R maxAge trigger)\<^sup>*\<^sup>* ?d d' \<and> ended k r 1 ?d d'" by simp
      have "(daemon_step parse encode R maxAge trigger)\<^sup>*\<^sup>* d ?d" using gc_moves_daemon [OF g(1)] by simp
      from ended_later [OF this _ _ _ _ e, of "(r, hs)" 0]
      show ?thesis
        using gc_moves_view [OF g(1) R(1)] list_update_id [of "d_handlers d" k] k(2) HWait2 by (simp add: slots_view_def)
    qed
  next
    case (HClean ops)
    then obtain op rest where "ops = op # rest" using hs(2) by (cases ops) simp_all
    then have "handle_step R trigger False (d_cancelled d) ReadyCtx r hs (d_world d)
        = Some (exit_step op r (d_world d), closing (exit_rest op r (d_world d) @ rest))"
      using HClean by (simp add: handle_step_def)
    then show ?thesis by (rule now)
  qed
qed

lemma released_all: "n \<le> pool_sem p \<Longrightarrow> pool_sem ((Release ^^ n) p) + n = pool_sem p"
  by (induction n) (auto simp: Release_def)

text \<open>In the example the runner is admitted, then the task is dispatched and its handler waits.\<close>

lemma example_waiting:
  "\<exists>d hs. ex_daemon_step\<^sup>*\<^sup>* example_daemon d \<and> d_handlers d = [(0, hs)] \<and> h_pc hs = HWait2
     \<and> \<not> done_fired (w_heap (d_world d) 0) \<and> sm_next (w_sessions (d_world d)) = 1"
proof -
  obtain d d0 where d: "ex_daemon_step\<^sup>*\<^sup>* example_daemon d" "ex_daemon_step\<^sup>*\<^sup>* d d0" and d0: "d_handlers d0 = []"
    and w0: "w_chan (d_world d0) = [0]" "sm_next (w_sessions (d_world d0)) = 1" "registered_fired (w_heap (d_world d0) 0)"
    "\<not> done_fired (w_heap (d_world d0) 0)" "t_Instance (w_heap (d_world d0) 0) = ''forgejo-a''"
    using example_admission by blast
  define w1 where "w1 = d_world d0"
  note w1 = w0 [folded w1_def]
  let ?start = "\<lparr>h_pc = HStart, h_heartbeat = False\<rparr> :: UpdateTaskRequest list handler"
  let ?wait = "\<lparr>h_pc = HWait1 log_client, h_heartbeat = True\<rparr>"
  let ?late = "\<lparr>h_pc = HWait2, h_heartbeat = True\<rparr> :: UpdateTaskRequest list handler"
  let ?d1 = "d0\<lparr>d_world := w1\<lparr>w_chan := []\<rparr>, d_handlers := [(0, ?start)]\<rparr>"
  let ?w2 = "enter_select 0 (w_modify 0 MarkDispatched (w1\<lparr>w_chan := []\<rparr>))"
  let ?d2 = "?d1\<lparr>d_world := ?w2, d_handlers := [(0, ?wait)]\<rparr>"
  let ?w3 = "w_modify 0 (\<lambda>t. fst (Done t)) ?w2"
  let ?d3 = "?d2\<lparr>d_world := ?w3, d_handlers := [(0, ?late)]\<rparr>"
  have "ex_daemon_step d0 ?d1" using step_dispatch [of d0 0 "[]"] w1(1) d0 by (simp add: w1_def)
  moreover have "ex_daemon_step ?d1 ?d2"
    using step_handler [where d = ?d1 and k = 0 and R = log_resolver and trigger = example_trigger and timer = False
        and sel = ReadyCtx and w' = ?w2 and hs' = ?wait] w1(5)
    by (simp add: handle_step_def handle_start_def example_trigger_def)
  moreover have "registered_fired (w_heap ?w2 0)" using w1(3) by (simp add: enter_select_def taskctx_defs)
  then have "ex_daemon_step ?d2 ?d3"
    using step_handler [where d = ?d2 and k = 0 and R = log_resolver and trigger = example_trigger and timer = False
        and sel = ReadyRegistered and w' = ?w3 and hs' = ?late]
    by (simp add: handle_step_def handle_wait1_def can_fire_def)
  ultimately have "ex_daemon_step\<^sup>*\<^sup>* example_daemon ?d3"
    using d by (meson rtranclp.rtrancl_into_rtrancl rtranclp_trans)
  moreover have "\<not> done_fired (w_heap ?w3 0)" using w1(4) by (simp add: enter_select_def taskctx_defs)
  ultimately show ?thesis using w1(2) by (intro exI [of _ ?d3] exI [of _ ?late]) (simp add: enter_select_def)
qed

section \<open>Properties\<close>

text \<open>C6: No task keeps its slot for ever. In every reachable state, as long as no two random tokens
  collide, those drawn during a report of the GC loop included, and the age limit of sessions is below
  the largest duration, a handler that waits for the end of its task has a task that is done, or whose session is
  in the registry, where the runner can report and the GC loop sees it fall silent, or which the GC
  loop is about to end; so whatever the GC loop is in the middle of, every handler
  that is running can come to its end by steps of the daemon itself, with no cancellation and with
  all other goroutines where they are, and gives the slot it holds back.\<close>

theorem slot_comes_back:
  assumes "daemon_init n insts ext = Some d0" and "\<forall>(inst, fetch)\<in>set insts. quiet_fetch fetch"
    and "quiet_resolver R" and "quiet_trigger trigger"
    and "(daemon_step parse encode R maxAge trigger)\<^sup>*\<^sup>* d0 d" and "maxAge < int64_max"
    and "k < length (d_handlers d)" and "d_handlers d ! k = (r, hs)" and "h_pc hs \<noteq> HExit"
    and "distinct (map (\<lambda>s. s_SessionToken (w_session (d_world d) s)) [0..<sm_next (w_sessions (d_world d))])"
    and "fresh_reports R"
  shows "(h_pc hs = HWait2 \<longrightarrow> done_fired (w_heap (d_world d) r)
      \<or> (\<exists>tok s. Lookup tok (w_sessions (d_world d)) = Some s \<and> s_TaskCtx (w_session (d_world d) s) = r)
      \<or> r \<in> gc_owes (d_world d) (d_gc d))
    \<and> (\<exists>d'. (daemon_step parse encode R maxAge trigger)\<^sup>*\<^sup>* d d'
         \<and> d_handlers d' = (d_handlers d)[k := (r, exited)] \<and> d_pollers d' = d_pollers d
         \<and> d_cancelled d' = d_cancelled d
         \<and> pool_sem (w_pool (d_world d')) + handler_slots (h_pc hs) = pool_sem (w_pool (d_world d)))"
proof -
  have ok: "run_ok R trigger (nat n) d \<and> store_ok d \<and> watch_ok d" using reach_watch_ok [OF assms(1-5)] .
  have u: "unique_tokens (d_world d)" using assms(10) by (simp add: unique_tokens_def)
  have m: "(r, hs) \<in> set (d_handlers d)" using assms(7,8) by (metis nth_mem)
  note w = waiting_watched [OF ok u m]
  have g: "d_cancelled d \<or> (\<exists>w' pc'. (gc_moves R maxAge)\<^sup>*\<^sup>* (d_world d, d_gc d) (w', pc') \<and> done_fired (w_heap w' r))"
    if "h_pc hs = HWait2"
    using gc_ends_task [OF ok u assms(11) m that _ assms(6)] ok by (auto simp: env_ok_def)
  have "handler_quiet (h_pc hs)" using ok m by (auto simp: env_ok_def)
  from handler_can_end [OF assms(3,4,7,8) this assms(9) g] obtain d' where
    d': "(daemon_step parse encode R maxAge trigger)\<^sup>*\<^sup>* d d'" "ended k r (handler_slots (h_pc hs)) d d'" by blast
  have "handler_slots (h_pc hs) \<le> pool_sem (w_pool (d_world d))" using handler_holds [OF _ m, of "nat n"] ok by simp
  then have "pool_sem (w_pool (d_world d')) + handler_slots (h_pc hs) = pool_sem (w_pool (d_world d))"
    using d'(2) released_all by (simp add: ended_def)
  then show ?thesis using w d' by (auto simp: ended_def watched_def)
qed

theorem slot_comes_back_witness:
  "\<exists>d d' hs. ex_daemon_step\<^sup>*\<^sup>* example_daemon d \<and> d_handlers d = [(0, hs)] \<and> h_pc hs = HWait2
     \<and> \<not> done_fired (w_heap (d_world d) 0) \<and> ex_daemon_step\<^sup>*\<^sup>* d d' \<and> d_handlers d' = [(0, exited)]"
proof -
  obtain d hs where d: "ex_daemon_step\<^sup>*\<^sup>* example_daemon d" "d_handlers d = [(0, hs)]" "h_pc hs = HWait2"
    "\<not> done_fired (w_heap (d_world d) 0)" "sm_next (w_sessions (d_world d)) = 1"
    using example_waiting by blast
  have "10 * minute < int64_max" by (simp add: int64_max_def)
  moreover have "fresh_reports log_resolver"
    by (auto simp: fresh_reports_def unique_tokens_def gc_report_def Let_def log_resolver_def app_resolver_def
        app_Resolve_def mget_Cons log_client_def)
  ultimately have fresh: "10 * minute < int64_max" "fresh_reports log_resolver" .
  from slot_comes_back [OF example_daemon_init example_quiet(3,1,2) d(1) fresh(1) _ _ _ _ fresh(2), of 0 0 hs]
  obtain d' where "ex_daemon_step\<^sup>*\<^sup>* d d'" "d_handlers d' = [(0, exited)]" using d by auto
  then show ?thesis using d by (intro exI [of _ d] exI [of _ d'] exI [of _ hs]) simp
qed

end
