(* ===== verification/Command_Line.thy ===== *)
theory Command_Line
  imports Go_Strings
begin

text \<open>
  The command line of \<^verbatim>\<open>cmd/forgery/main.go\<close>: \<^verbatim>\<open>flag.Parse\<close> over the one string flag
  \<^verbatim>\<open>-config\<close> that the program declares, by the rules of Go's \<^verbatim>\<open>flag\<close> package. The flag set of
  the command line exits on an error: with status 0 after a request for help, with 2 otherwise.
  Arguments behind the flags are ignored by the program.
\<close>

datatype flag_err =
    HelpRequested
  | BadFlagSyntax string
  | NotDefined string
  | NeedsArgument string

text \<open>One round of the loop looks at one argument. A flag starts with one or two dashes; its name ends
  at the first \<open>=\<close> behind its first letter, and the rest is its value; without one the next argument
  is the value, whatever it looks like. A later value replaces an earlier one.\<close>

fun flag_Parse :: "string \<Rightarrow> string list \<Rightarrow> flag_err + string" where
  "flag_Parse config [] = Inr config"
| "flag_Parse config (s # args) =
     (if length s < 2 \<or> s ! 0 \<noteq> CHR ''-'' then Inr config
      else if s = ''--'' then Inr config
      else (let name = (if s ! 1 = CHR ''-'' then drop 2 s else drop 1 s) in
        if name = [] \<or> name ! 0 = CHR ''-'' \<or> name ! 0 = CHR ''='' then Inl (BadFlagSyntax s)
        else (let (key, val, has_value) = cut (CHR ''='') name in
          if key \<noteq> ''config''
          then Inl (if key = ''help'' \<or> key = ''h'' then HelpRequested else NotDefined key)
          else if has_value then flag_Parse val args
          else (case args of
                  [] \<Rightarrow> Inl (NeedsArgument key)
                | val # rest \<Rightarrow> flag_Parse val rest))))"

definition default_config :: string where
  "default_config = ''forgery.toml''"

text \<open>\<open>flag.ExitOnError\<close>.\<close>

definition flag_exit_status :: "flag_err \<Rightarrow> nat" where
  "flag_exit_status e = (if e = HelpRequested then 0 else 2)"

text \<open>All four ways to write the flag mean the same, the last one counts, and the flags end at the first
  argument that is none.\<close>

lemma flag_Parse_forms:
  "flag_Parse c (''-config'' # p # args) = flag_Parse p args"
  "flag_Parse c (''--config'' # p # args) = flag_Parse p args"
  "flag_Parse c ((''-config='' @ p) # args) = flag_Parse p args"
  "flag_Parse c ((''--config='' @ p) # args) = flag_Parse p args"
proof -
  have c: "cut (CHR ''='') (''config='' @ p) = (''config'', p, True)"
    using cut_append [of "CHR ''=''" "''config''" p] by simp
  have k: "cut (CHR ''='') ''config'' = (''config'', [], False)" by (rule cut_absent) simp
  show "flag_Parse c (''-config'' # p # args) = flag_Parse p args"
    "flag_Parse c (''--config'' # p # args) = flag_Parse p args"
    using k by simp_all
  show "flag_Parse c ((''-config='' @ p) # args) = flag_Parse p args"
    "flag_Parse c ((''--config='' @ p) # args) = flag_Parse p args"
    using c by simp_all
qed

lemma flag_Parse_no_flag: "length s < 2 \<or> s ! 0 \<noteq> CHR ''-'' \<Longrightarrow> flag_Parse c (s # args) = Inr c"
  by simp

lemma flag_Parse_help: "flag_Parse c (''-h'' # args) = Inl HelpRequested"
proof -
  have "cut (CHR ''='') ''h'' = (''h'', [], False)" by (rule cut_absent) simp
  then show ?thesis by simp
qed

end
