(* ===== verification/Assembly.thy ===== *)
theory Assembly
  imports Daemon_Records Command_Line
begin

text \<open>
  The whole program: the entry point (\<^verbatim>\<open>cmd/forgery/main.go\<close>) and the daemon put
  together from the component models. The step relation of theory \<open>Daemon\<close> takes its clients,
  its fetches and its dispatcher as arguments; here they are the northbound client, the poller's
  RPC and the GitHub dispatcher of the component theories, over one state that holds every
  instance's client, the identity file and the outside world. \<open>other\<close> is what the other
  goroutines of the daemon do to the shared world during a call, \<open>interf\<close> what concurrent RPCs
  of the same client do to it.
\<close>

section \<open>Entry point\<close>

text \<open>How the process ends: with a status, by a Go panic of \<open>Run\<close> (which the runtime turns into
  status 2 and a stack trace), or by a signal that no handler takes.\<close>

datatype exit = ExitStatus nat | Crash run_err | Killed

text \<open>\<open>MustLoad\<close> exits with status 1 on a configuration error.\<close>

definition MustLoad :: "load_err + Config \<Rightarrow> exit + Config" where
  "MustLoad loaded = (case loaded of Inl err \<Rightarrow> Inl (ExitStatus 1) | Inr cfg \<Rightarrow> Inr cfg)"

definition run_panics :: "run_err \<Rightarrow> bool" where
  "run_panics e \<longleftrightarrow> e = TickerPanic \<or> e = MakeChanPanic"

text \<open>Until \<^verbatim>\<open>Run\<close> installs its handler a termination signal kills the process: while \<open>main\<close> still
  looks at its flags and the configuration file, which changes nothing, or during the startup of
  \<^verbatim>\<open>Run\<close>, which leaves some state behind.\<close>

datatype 's early_signal = NoEarlySignal | BeforeRun | DuringStartup 's

definition startup_signal :: "'s early_signal \<Rightarrow> 's option" where
  "startup_signal early = (case early of DuringStartup s \<Rightarrow> Some s | _ \<Rightarrow> None)"

definition forgery_main :: "(string \<Rightarrow> string + string) \<Rightarrow>
    ((string \<Rightarrow> string list) \<Rightarrow> string \<Rightarrow> string + Config \<times> string list) \<Rightarrow> env \<Rightarrow>
    'n north_env \<Rightarrow> int \<Rightarrow> (string \<Rightarrow> string option) \<Rightarrow> (nat \<Rightarrow> nat) \<Rightarrow> (nat \<Rightarrow> bool) \<Rightarrow>
    (fs \<times> 'n) early_signal \<Rightarrow> bool \<Rightarrow> string list \<Rightarrow> fs \<times> 'n \<Rightarrow> (fs \<times> 'n) \<times> exit" where
  "forgery_main read_file decode e E max_chan listen active prefer_ctx early forced args st =
     (if early = BeforeRun then (st, Killed)
      else (case flag_Parse default_config args of
        Inl err \<Rightarrow> (st, ExitStatus (flag_exit_status err))
      | Inr configPath \<Rightarrow>
          (case MustLoad (Load read_file decode e configPath) of
             Inl x \<Rightarrow> (st, x)
           | Inr cfg \<Rightarrow>
               (case Run E max_chan listen active prefer_ctx (startup_signal early) forced cfg st of
                  (st', KilledBySignal) \<Rightarrow> (st', Killed)
                | (st', Exited status) \<Rightarrow> (st', ExitStatus status)
                | (st', Returned (Some err)) \<Rightarrow> (st', if run_panics err then Crash err else ExitStatus 1)
                | (st', Returned None) \<Rightarrow> (st', ExitStatus 0)))))"

section \<open>The daemon over its own components\<close>

record 'n net =
  nt_clients :: "string \<Rightarrow> client"
  nt_fs :: fs
  nt_ext :: 'n

definition on_client :: "('n net world \<Rightarrow> 'n net world) \<Rightarrow> string \<Rightarrow> ('n north \<Rightarrow> 'n north \<times> 'a) \<Rightarrow>
    'n net world \<Rightarrow> 'n net world \<times> 'a" where
  "on_client other name f w =
     (let x = w_ext w;
          (n, r) = f \<lparr>nw_client = nt_clients x name, nw_fs = nt_fs x, nw_ext = nt_ext x\<rparr>
      in (other (w\<lparr>w_ext := \<lparr>nt_clients = (nt_clients x)(name := nw_client n), nt_fs = nw_fs n,
            nt_ext = nw_ext n\<rparr>\<rparr>), r))"

definition net_client :: "'n north_env \<Rightarrow> ('n north \<Rightarrow> 'n north) \<Rightarrow> ('n net world \<Rightarrow> 'n net world) \<Rightarrow>
    string \<Rightarrow> ('n net world) Client" where
  "net_client E interf other name =
     \<lparr>ForwardUpdateTask = (\<lambda>req. on_client other name (client_ForwardUpdateTask E interf req)),
      ForwardUpdateLog = (\<lambda>req. on_client other name (client_ForwardUpdateLog E interf req)),
      HeartbeatTick = (\<lambda>i w. fst (on_client other name (\<lambda>n. (heartbeat_tick E interf i n, ())) w))\<rparr>"

definition net_resolver :: "'n north_env \<Rightarrow> ('n north \<Rightarrow> 'n north) \<Rightarrow> ('n net world \<Rightarrow> 'n net world) \<Rightarrow>
    clients \<Rightarrow> ('n net world) Resolver" where
  "net_resolver E interf other cl =
     app_resolver (map (\<lambda>(name, inst, c). (name, inst, net_client E interf other name)) cl)"

definition net_fetch :: "'n north_env \<Rightarrow> ('n north \<Rightarrow> 'n north) \<Rightarrow> ('n net world \<Rightarrow> 'n net world) \<Rightarrow>
    string \<Rightarrow> ('n net) fetch" where
  "net_fetch E interf other name = on_client other name (client_FetchTask E interf)"

definition net_trigger :: "Dispatcher \<Rightarrow> ('n net world \<Rightarrow> nat \<Rightarrow> bool) \<Rightarrow>
    ('n net world \<Rightarrow> nat \<Rightarrow> duration \<Rightarrow> duration) \<Rightarrow> (string \<Rightarrow> string option) \<Rightarrow>
    (http_request \<Rightarrow> 'n \<Rightarrow> 'n \<times> (string + nat \<times> string)) \<Rightarrow> ('n net world \<Rightarrow> 'n net world) \<Rightarrow> ('n net) trigger" where
  "net_trigger d cancelled jitter bad_url http other t inst w =
     (let (n, r, delays) = Trigger d (cancelled w) (jitter w) bad_url http t inst (nt_ext (w_ext w))
      in (other (w\<lparr>w_ext := (w_ext w)\<lparr>nt_ext := n\<rparr>\<rparr>), r))"

text \<open>The state in which \<^verbatim>\<open>Run\<close> starts its goroutines, after a successful assembly; there is none
  when the task channel cannot be made.\<close>

definition boot :: "'n north_env \<Rightarrow> int \<Rightarrow> ('n north \<Rightarrow> 'n north) \<Rightarrow> ('n net world \<Rightarrow> 'n net world) \<Rightarrow>
    Config \<Rightarrow> assembly \<Rightarrow> fs \<times> 'n \<Rightarrow> ('n net) daemon option" where
  "boot E max_chan interf other cfg a st =
     (if max_chan < g_MaxParallelTasks (c_Global cfg) then None
      else daemon_init (g_MaxParallelTasks (c_Global cfg))
        (map (\<lambda>(name, inst, c). (inst, net_fetch E interf other name)) (as_clients a))
        \<lparr>nt_clients = (\<lambda>name. snd (the (mget (as_clients a) name))), nt_fs = fst st, nt_ext = snd st\<rparr>)"

section \<open>Its calls are quiet\<close>

lemma on_client_quiet: "quiet other \<Longrightarrow> quiet (\<lambda>w. fst (on_client other name f w))"
  unfolding quiet_def
proof
  fix w assume q: "\<forall>w. steady w (other w)"
  have "\<exists>x. fst (on_client other name f w) = other (w\<lparr>w_ext := x\<rparr>)"
    by (auto simp: on_client_def Let_def split: prod.splits)
  then obtain x where "fst (on_client other name f w) = other (w\<lparr>w_ext := x\<rparr>)" by blast
  then show "steady w (fst (on_client other name f w))"
    using steady_trans [OF steady_atoms(2) q [rule_format]] by simp
qed

lemma net_client_quiet: "quiet other \<Longrightarrow> quiet_client (net_client E interf other name)"
  by (simp add: quiet_client_def net_client_def on_client_quiet)

lemma net_Resolve:
  "Resolve (net_resolver E interf other cl) name =
     map_option (\<lambda>(inst, c). (inst, net_client E interf other name)) (mget cl name)"
proof -
  have "mget (map (\<lambda>(name, inst, c). (name, inst, net_client E interf other name)) cl) name =
      map_option (\<lambda>(inst, c). (inst, net_client E interf other name)) (mget cl name)"
    by (induction cl) (auto simp: mget_Cons)
  then show ?thesis by (simp add: net_resolver_def app_resolver_def app_Resolve_def split: option.split)
qed

lemma net_resolver_quiet: "quiet other \<Longrightarrow> quiet_resolver (net_resolver E interf other cl)"
  using net_client_quiet by (auto simp: quiet_resolver_def net_Resolve)

lemma net_fetch_quiet: "quiet other \<Longrightarrow> quiet_fetch (net_fetch E interf other name)"
  using on_client_quiet by (simp add: quiet_fetch_def net_fetch_def)

lemma net_trigger_quiet: "quiet other \<Longrightarrow> quiet_trigger (net_trigger d cancelled jitter bad_url http other)"
  unfolding quiet_trigger_def quiet_def
proof (intro allI)
  fix t inst w assume q: "\<forall>w. steady w (other w)"
  have "\<exists>x. fst (net_trigger d cancelled jitter bad_url http other t inst w) = other (w\<lparr>w_ext := x\<rparr>)"
    by (auto simp: net_trigger_def Let_def split: prod.splits)
  then obtain x where "fst (net_trigger d cancelled jitter bad_url http other t inst w) = other (w\<lparr>w_ext := x\<rparr>)"
    by blast
  then show "steady w (fst (net_trigger d cancelled jitter bad_url http other t inst w))"
    using steady_trans [OF steady_atoms(2) q [rule_format]] by simp
qed

section \<open>Tasks belong to configured instances\<close>

definition routed :: "Instance set \<Rightarrow> 'x daemon \<Rightarrow> bool" where
  "routed I d \<longleftrightarrow> (\<forall>r < w_next (d_world d). \<exists>inst\<in>I. t_Instance (w_heap (d_world d) r) = i_Name inst)
     \<and> (\<forall>p\<in>set (d_pollers d). pl_inst p \<in> I)"

lemma routed_evolves:
  assumes "routed I d" "world_ok (d_world d)" "evolves (d_world d) w'" "r < w_next (d_world d)"
  shows "\<exists>inst\<in>I. t_Instance (w_heap w' r) = i_Name inst"
  using evolvesD(3) [OF assms(3,2,4)] assms(1,4) by (auto simp: routed_def keeps_ctx_def same_task_def)

lemma poll_step_new:
  assumes "quiet_fetch fetch" "poll_step inst fetch ch pc w = (w', pc')" "w_next w \<le> r" "r < w_next w'"
  shows "t_Instance (w_heap w' r) = i_Name inst"
proof (cases pc)
  case AtFetch
  obtain w1 res where f: "fetch w = (w1, res)" by fastforce
  note n = steady_slots(4) [OF quiet_fetched [OF assms(1) f]]
  have e: "poll_fetch inst fetch ch w = (w', pc')" using assms(2) AtFetch by (simp add: poll_step_def)
  show ?thesis
  proof (cases rule: poll_fetch_cases [where fetch = fetch and w = w and ?w1.0 = w1 and res = res and inst = inst and ch = ch, OF f])
    case 1
    then show ?thesis using e assms(3,4) n by (simp add: poll_retry_def)
  next
    case (2 task tok)
    then show ?thesis using e assms(3,4) n by (auto simp: Let_def new_TaskCtx_def SetStatus_def)
  qed
qed (use assms(2-4) in \<open>auto simp: poll_step_def poll_send_def split: prod.splits acquire_result.splits if_splits\<close>)

lemma daemon_step_routed:
  assumes "daemon_step parse encode R maxAge trigger d d'" "run_ok R trigger N d" "store_ok d" "routed I d"
  shows "routed I d'"
proof -
  have ev: "evolves (d_world d) (d_world d')" using daemon_step_evolves [OF assms(1)] assms(2) by blast
  have wok: "world_ok (d_world d)" using assms(3) by (simp add: store_ok_def)
  note old = routed_evolves [OF assms(4) wok ev]
  show ?thesis
    using assms(1)
  proof cases
    case (step_poll k p ch w' pc')
    have p: "pl_inst p \<in> I" "quiet_fetch (pl_fetch p)"
      using assms(2,4) step_poll(2,3) by (auto simp: routed_def env_ok_def)
    have "\<exists>inst\<in>I. t_Instance (w_heap w' r) = i_Name inst" if "r < w_next w'" for r
      using old [of r] poll_step_new [OF p(2) step_poll(5), of r] p(1) that step_poll(1)
      by (cases "r < w_next (d_world d)") auto
    moreover have "pl_inst q \<in> I" if "q \<in> set (d_pollers d')" for q
      using that step_poll(1) p(1) assms(4) set_update_subset_insert [of "d_pollers d" k "p\<lparr>pl_pc := pc'\<rparr>"]
      by (auto simp: routed_def)
    ultimately show ?thesis using step_poll(1) by (simp add: routed_def)
  next
    case (step_handler k r hs timer sel w' hs')
    then have "handler_quiet (h_pc hs)" using assms(2) nth_mem [OF step_handler(2)] by (auto simp: env_ok_def)
    with handle_step_changes(4) [OF _ _ this step_handler(4)] assms(2) have "w_next w' = w_next (d_world d)"
      by (auto simp: slots_view_def split: if_splits)
    then show ?thesis using old step_handler(1) assms(4) by (simp add: routed_def)
  next
    case (step_heartbeat k r hs inst client w')
    then have "w_next w' = w_next (d_world d)" using steady_slots(4) [OF quiet_call(4) [OF _ step_heartbeat(5)]] assms(2) by blast
    then show ?thesis using old step_heartbeat(1) assms(4) by (simp add: routed_def)
  next
    case (step_arrive c)
    then show ?thesis using old assms(4) by (simp add: routed_def)
  next
    case (step_request k c pc now rnd w' pc')
    then have "slots_view (put_request k (c, pc') w') = slots_view (d_world d)"
      using orderlyD(1) [OF request_step_orderly [OF _ step_request(2-4)]] assms(2) by blast
    then have "w_next w' = w_next (d_world d)" by (simp add: slots_view_def)
    then show ?thesis using old step_request(1) assms(4) by (simp add: routed_def)
  next
    case (step_proxy tok now)
    then show ?thesis using old assms(4) by (simp add: routed_def)
  next
    case (step_gc stop now w' pc')
    then have "w_next w' = w_next (d_world d)"
      using gc_step_view [OF _ step_gc(2)] assms(2) by (simp add: slots_view_def)
    then show ?thesis using old step_gc(1) assms(4) by (simp add: routed_def)
  qed (use assms(4) in \<open>simp_all add: routed_def\<close>)
qed

interpretation routes: invariant_of "daemon_step parse encode R maxAge trigger"
  "\<lambda>d. run_ok R trigger N d \<and> store_ok d \<and> routed I d"
  for parse encode and R :: "('x world) Resolver" and maxAge trigger N I
  by unfold_locales (use owners.step_inv daemon_step_routed in blast)

section \<open>Properties\<close>

lemma assemble_Inr:
  assumes "assemble E max_chan listen cfg st = (st1, Inr a)" "distinct (map i_Name (c_Instances cfg))"
  shows "gomap_ok (as_clients a)" "set (mkeys (as_clients a)) = set (map i_Name (c_Instances cfg))"
    "inst \<in> set (c_Instances cfg) \<Longrightarrow> \<exists>c. mget (as_clients a) (i_Name inst) = Some (inst, c) \<and> nc_inst c = inst"
    "g_MaxParallelTasks (c_Global cfg) \<le> max_chan"
proof -
  obtain r where r: "start_instances E (c_Instances cfg) [] st = (st1, Inr r)" "as_clients a = r"
    and m: "g_MaxParallelTasks (c_Global cfg) \<le> max_chan"
    using assms(1) by (auto simp: assemble_def Let_def split: option.splits prod.splits sum.splits if_splits)
  show "g_MaxParallelTasks (c_Global cfg) \<le> max_chan" by (rule m)
  from start_instances_Inr [OF r(1) _ assms(2)]
  have "gomap_ok r \<and> set (mkeys r) = set (map i_Name (c_Instances cfg))
    \<and> (\<forall>inst\<in>set (c_Instances cfg). \<exists>c. mget r (i_Name inst) = Some (inst, c) \<and> nc_inst c = inst)"
    by (simp add: mkeys_def)
  then show "gomap_ok (as_clients a)" "set (mkeys (as_clients a)) = set (map i_Name (c_Instances cfg))"
    "inst \<in> set (c_Instances cfg) \<Longrightarrow> \<exists>c. mget (as_clients a) (i_Name inst) = Some (inst, c) \<and> nc_inst c = inst"
    unfolding r(2) by blast+
qed

lemma assembled_entry:
  assumes "assemble E max_chan listen cfg st = (st1, Inr a)" "distinct (map i_Name (c_Instances cfg))"
    "(name, inst, c) \<in> set (as_clients a)"
  shows "inst \<in> set (c_Instances cfg) \<and> i_Name inst = name"
proof -
  note A = assemble_Inr [OF assms(1,2)]
  have m: "mget (as_clients a) name = Some (inst, c)" using assms(3) mget_Some_iff [OF A(1)] by simp
  have "name \<in> set (mkeys (as_clients a))" by (rule mget_Some_key [OF m])
  then obtain i where i: "i \<in> set (c_Instances cfg)" "i_Name i = name" using A(2) by auto
  then show ?thesis using A(3) [OF i(1)] m by auto
qed

text \<open>C1: The assembled program keeps its promises. With a configuration that loads and a startup that
  succeeds, the daemon over the real northbound clients, pollers and dispatcher starts, and in every
  reachable state, whatever the servers answer: at most \<open>max_parallel_tasks\<close> slots are in
  use; every task belongs to a configured instance and its name resolves to that instance, so the
  defensive branches for unknown instances in the runner and the south handlers are dead code;
  and before a shutdown the store holds at most \<open>max_parallel_tasks\<close> unfinished tasks, beyond those
  of the handlers that are just between the release of their slot and the removal of their task.\<close>

theorem assembled_daemon_sound:
  assumes "Load read_file decode e path = Inr cfg" and "assemble E max_chan listen cfg st = (st1, Inr a)" and "quiet other"
  shows "\<exists>d0. boot E max_chan interf other cfg a st1 = Some d0 \<and> (\<forall>d.
      (daemon_step parse encode (net_resolver E interf other (as_clients a)) (as_maxAge a)
         (net_trigger (as_dispatcher a) cancelled jitter bad_url http other))\<^sup>*\<^sup>* d0 d \<longrightarrow>
      pool_sem (w_pool (d_world d)) \<le> nat (g_MaxParallelTasks (c_Global cfg))
      \<and> (\<forall>r < w_next (d_world d). \<exists>inst\<in>set (c_Instances cfg). t_Instance (w_heap (d_world d) r) = i_Name inst
           \<and> (\<exists>c. Resolve (net_resolver E interf other (as_clients a)) (i_Name inst) = Some (inst, c)))
      \<and> (\<not> d_cancelled d \<longrightarrow>
           length (filter (\<lambda>(i, r). \<not> done_fired (w_heap (d_world d) r)) (ms_tasks (w_store (d_world d))))
             \<le> nat (g_MaxParallelTasks (c_Global cfg)) + late_removals d))"
proof -
  let ?N = "nat (g_MaxParallelTasks (c_Global cfg))" and ?I = "set (c_Instances cfg)"
  let ?R = "net_resolver E interf other (as_clients a)"
  let ?T = "net_trigger (as_dispatcher a) cancelled jitter bad_url http other"
  let ?insts = "map (\<lambda>(name, inst, c). (inst, net_fetch E interf other name)) (as_clients a)"
  note cfg = Load_budget [OF assms(1)]
  note A = assemble_Inr [OF assms(2) cfg(2)]
  obtain d0 where d0: "boot E max_chan interf other cfg a st1 = Some d0"
    using cfg(1) A(4) by (simp add: boot_def daemon_init_def New_pool_def)
  have init: "daemon_init (g_MaxParallelTasks (c_Global cfg)) ?insts
      \<lparr>nt_clients = (\<lambda>name. snd (the (mget (as_clients a) name))), nt_fs = fst st1, nt_ext = snd st1\<rparr> = Some d0"
    using d0 by (simp add: boot_def split: if_splits)
  have q: "\<forall>(inst, fetch)\<in>set ?insts. quiet_fetch fetch" using net_fetch_quiet [OF assms(3)] by auto
  note R = net_resolver_quiet [OF assms(3)] net_trigger_quiet [OF assms(3)]
  have n0: "w_next (d_world d0) = 0" "map pl_inst (d_pollers d0) = map fst ?insts"
    using init by (auto simp: daemon_init_def split: option.splits prod.splits)
  have "set (map fst ?insts) \<subseteq> ?I" using assembled_entry [OF assms(2) cfg(2)] by fastforce
  then have "set (map pl_inst (d_pollers d0)) \<subseteq> ?I" unfolding n0(2) .
  then have r0: "routed ?I d0" unfolding routed_def using n0(1) by auto
  have "pool_sem (w_pool (d_world d)) \<le> ?N
      \<and> (\<forall>r < w_next (d_world d). \<exists>inst\<in>?I. t_Instance (w_heap (d_world d) r) = i_Name inst
           \<and> (\<exists>c. Resolve ?R (i_Name inst) = Some (inst, c)))
      \<and> (\<not> d_cancelled d \<longrightarrow>
           length (filter (\<lambda>(i, r). \<not> done_fired (w_heap (d_world d) r)) (ms_tasks (w_store (d_world d))))
             \<le> ?N + late_removals d)"
    if run: "(daemon_step parse encode ?R (as_maxAge a) ?T)\<^sup>*\<^sup>* d0 d" for d
  proof -
    have "run_ok ?R ?T ?N d0 \<and> store_ok d0" by (rule reach_store_ok [OF init q R rtranclp.rtrancl_refl])
    then have ok: "run_ok ?R ?T ?N d \<and> store_ok d \<and> routed ?I d" using routes.reach_inv [OF run] r0 by blast
    have "\<exists>c. Resolve ?R (i_Name inst) = Some (inst, c)" if "inst \<in> ?I" for inst
      using A(3) [OF that] by (auto simp: net_Resolve)
    moreover have "\<exists>inst\<in>?I. t_Instance (w_heap (d_world d) r) = i_Name inst" if "r < w_next (d_world d)" for r
      using ok that by (simp add: routed_def)
    ultimately show ?thesis using ok store_bound [of d ?N] unfolding slots_ok_def by blast
  qed
  then show ?thesis using d0 by blast
qed

lemma example_start:
  "\<exists>st r. start_instances example_north [inst] [] (no_file, (0, 0)) = (st, Inr r)"
proof -
  let ?c = "\<lparr>nc_inst = inst, nc_UUID = [], nc_Token = [], nc_gen = 0, nc_backoffNext = None, nc_backoffWait = 0\<rparr>"
  let ?w = "\<lparr>nw_client = ?c, nw_fs = no_file, nw_ext = (0, 0)\<rparr> :: (nat \<times> time) north"
  have c: "north_New inst no_file = Inr ?c" "\<not> HasIdentity ?c"
    by (simp_all add: north_New_def no_file_def Load_identity_def state_read_def HasIdentity_def currentIdentity_def)
  have call: "register_call example_north ?w = ((1, 0), Inr (Some example_runner))"
    by (simp add: register_call_def example_north_def Let_def)
  obtain s where sv: "Save_identity (\<lambda>_. None) (i_ForgejoURL inst)
      \<lparr>id_UUID = ''u2'', id_Token = ''t2''\<rparr> no_file = (s, None)"
    using Save_no_file by blast
  have f: "ne_save_fails example_north k = (\<lambda>_. None)" for k by (simp add: example_north_def)
  obtain w3 where "client_Register example_north ?w = (w3, None)"
    using sv by (auto simp: client_Register_def call f example_runner_def setIdentity_def resetBackoff_def)
  moreover have "client_Declare example_north (\<lambda>w. w) w3 = (w3, Inr ())"
    by (simp add: client_Declare_def retryOnAuth_def call_rpc_def example_north_def)
  ultimately have "registerInstance example_north ?w = (w3, None)" using c(2) by (simp add: registerInstance_def)
  then show ?thesis using c(1) by simp
qed

theorem assembled_daemon_sound_witness:
  "\<exists>cfg st1 a d0. Load (\<lambda>_. Inr []) (\<lambda>_ _. Inr (example_config, [])) example_env ''forgery.toml'' = Inr cfg
     \<and> assemble example_north 1000 (\<lambda>_. None) cfg (no_file, (0, 0)) = (st1, Inr a)
     \<and> boot example_north 1000 (\<lambda>w. w) (\<lambda>w. w) cfg a st1 = Some d0
     \<and> pool_sem (w_pool (d_world d0)) \<le> nat (g_MaxParallelTasks (c_Global cfg))"
proof -
  let ?cfg = "applyDefaults example_env ''forgery.toml'' example_config"
  have l: "Load (\<lambda>_. Inr []) (\<lambda>_ _. Inr (example_config, [])) example_env ''forgery.toml'' = Inr ?cfg"
    using example_config_valid by (simp add: Load_Inr)
  have i: "c_Instances ?cfg = [defaults_Instance example_env example_instance]"
    by (simp add: applyDefaults_def example_config_def)
  obtain st r where st: "start_instances example_north (c_Instances ?cfg) [] (no_file, (0, 0)) = (st, Inr r)"
    unfolding i using example_start by blast
  have budget: "g_MaxParallelTasks (c_Global ?cfg) \<le> 1000"
    by (simp add: applyDefaults_def example_config_def defaults_Global_def default_int_def Let_def)
  obtain p where "New_pool (g_MaxParallelTasks (c_Global ?cfg)) = Some p"
    using Load_budget(1) [OF l] by (simp add: New_pool_def)
  moreover obtain h where "StartHealthServer (\<lambda>_. None) (g_HealthAddr (c_Global ?cfg)) = Inr h"
    by (cases "g_HealthAddr (c_Global ?cfg) = []") (auto simp: StartHealthServer_def)
  ultimately obtain a where a: "assemble example_north 1000 (\<lambda>_. None) ?cfg (no_file, (0, 0)) = (st, Inr a)"
    using budget by (simp add: assemble_def st Let_def)
  have q: "quiet (\<lambda>w :: (nat \<times> time) net world. w)" by (simp add: quiet_def)
  obtain d0 where d0: "boot example_north 1000 (\<lambda>w. w) (\<lambda>w. w) ?cfg a st = Some d0"
    "pool_sem (w_pool (d_world d0)) \<le> nat (g_MaxParallelTasks (c_Global ?cfg))"
    using assembled_daemon_sound [where interf = "\<lambda>w. w" and parse = "\<lambda>_. Inl []" and encode = "\<lambda>_. Inl []"
        and cancelled = "\<lambda>_ _. False" and jitter = "\<lambda>_ _ b. b" and bad_url = "\<lambda>_. None"
        and http = "\<lambda>_ n. (n, Inr (204, []))", OF l a q] by blast
  show ?thesis using l a d0 by blast
qed

text \<open>How a run of \<^verbatim>\<open>Run\<close> that no early signal cuts short ends, after a valid configuration.\<close>

lemma assemble_outcome:
  assumes "0 < g_MaxParallelTasks (c_Global cfg)" "assemble E max_chan listen cfg st = (st1, Inl x)"
  shows "x \<noteq> TickerPanic"
    "x = MakeChanPanic \<longleftrightarrow> (\<exists>st' r. start_instances E (c_Instances cfg) [] st = (st', Inr r))
      \<and> listen (g_ListenAddr (c_Global cfg)) = None \<and> max_chan < g_MaxParallelTasks (c_Global cfg)"
proof -
  have p: "New_pool (g_MaxParallelTasks (c_Global cfg)) \<noteq> None" using assms(1) by (simp add: New_pool_def)
  obtain st' res where s: "start_instances E (c_Instances cfg) [] st = (st', res)" by fastforce
  have n: "y \<noteq> TickerPanic \<and> y \<noteq> MakeChanPanic" if "res = Inl y" for y
    using start_instances_errors [of E "c_Instances cfg" "[]" st st' y] s that by auto
  show "x \<noteq> TickerPanic"
    using assms(2) n p s by (auto simp: assemble_def Let_def split: option.splits prod.splits sum.splits if_splits)
  show "x = MakeChanPanic \<longleftrightarrow> (\<exists>st' r. start_instances E (c_Instances cfg) [] st = (st', Inr r))
      \<and> listen (g_ListenAddr (c_Global cfg)) = None \<and> max_chan < g_MaxParallelTasks (c_Global cfg)"
    using assms(2) n p s by (auto simp: assemble_def Let_def split: option.splits prod.splits sum.splits if_splits)
qed

text \<open>C31: How the process ends, for every command line, configuration file and behaviour of the outside.
  It dies of a signal exactly if one arrives before the daemon handles signals: before \<^verbatim>\<open>Run\<close>, or
  during a startup that the flags and the configuration allow. Otherwise it exits with 2 exactly on a bad
  command line; with 0 exactly on a request for help, or if the flags are right, the configuration
  loads, the startup succeeds, no second signal cuts the shutdown short and its drain saw a poll without
  active tasks; it panics exactly if the instances came up and the south address is bound, but
  \<open>max_parallel_tasks\<close> is larger than any channel the runtime can make, which the configuration does
  not rule out, and nothing else makes it panic; and in every other case it exits with 1.\<close>

theorem exit_status_exact:
  "let out = snd (forgery_main read_file decode e E max_chan listen active prefer_ctx early forced args st) in
   out \<in> {ExitStatus 0, ExitStatus 1, ExitStatus 2, Crash MakeChanPanic, Killed}
   \<and> (out = Killed \<longleftrightarrow> early = BeforeRun
       \<or> (\<exists>path cfg s. flag_Parse ''forgery.toml'' args = Inr path \<and> Load read_file decode e path = Inr cfg
            \<and> early = DuringStartup s))
   \<and> (out = ExitStatus 2 \<longleftrightarrow> early \<noteq> BeforeRun
       \<and> (\<exists>err. flag_Parse ''forgery.toml'' args = Inl err \<and> err \<noteq> HelpRequested))
   \<and> (out = ExitStatus 0 \<longleftrightarrow> early \<noteq> BeforeRun \<and> flag_Parse ''forgery.toml'' args = Inl HelpRequested
       \<or> (\<exists>path cfg st' a. flag_Parse ''forgery.toml'' args = Inr path \<and> Load read_file decode e path = Inr cfg
            \<and> early = NoEarlySignal \<and> assemble E max_chan listen cfg st = (st', Inr a)
            \<and> \<not> forced \<and> drainTasks active prefer_ctx (maxGAStartupTimeout cfg) drainPollInterval = None))
   \<and> (out = Crash MakeChanPanic \<longleftrightarrow>
       (\<exists>path cfg st' r. flag_Parse ''forgery.toml'' args = Inr path \<and> Load read_file decode e path = Inr cfg
            \<and> early = NoEarlySignal \<and> start_instances E (c_Instances cfg) [] st = (st', Inr r)
            \<and> listen (g_ListenAddr (c_Global cfg)) = None \<and> max_chan < g_MaxParallelTasks (c_Global cfg)))"
proof (cases "flag_Parse ''forgery.toml'' args")
  case (Inl err)
  then show ?thesis
    by (simp add: forgery_main_def default_config_def flag_exit_status_def Let_def)
next
  case flags: (Inr path)
  note main = Let_def forgery_main_def default_config_def flags MustLoad_def
  show ?thesis
  proof (cases "Load read_file decode e path")
    case (Inl err)
    then show ?thesis by (simp add: main)
  next
    case load: (Inr cfg)
    obtain st1 res where r: "assemble E max_chan listen cfg st = (st1, res)" by fastforce
    note budget = Load_budget(1) [OF load]
    show ?thesis
    proof (cases "early = NoEarlySignal")
      case False
      then show ?thesis by (cases early) (auto simp: main load Run_def startup_signal_def)
    next
      case True
      show ?thesis
      proof (cases res)
        case err: (Inl x)
        note x = assemble_outcome [OF budget r [unfolded err]]
        show ?thesis
          by (cases "x = MakeChanPanic")
            (use x True r err in \<open>auto simp: main load Run_def startup_signal_def run_panics_def\<close>)
      next
        case ok: (Inr a)
        let ?d = "drainTasks active prefer_ctx (maxGAStartupTimeout cfg) drainPollInterval"
        have d: "?d = Some y \<Longrightarrow> \<not> run_panics y" for y
          using drainTasks_range [of drainPollInterval active prefer_ctx "maxGAStartupTimeout cfg"]
          by (auto simp: run_panics_def drainPollInterval_def)
        have "g_MaxParallelTasks (c_Global cfg) \<le> max_chan"
          using assemble_Inr(4) [OF r [unfolded ok]] Load_budget(2) [OF load] by simp
        then show ?thesis
          using True r ok d by (cases ?d) (auto simp: main load Run_def startup_signal_def)
      qed
    qed
  qed
qed

text \<open>A budget of \<open>2 ^ 62\<close> passes validation and crashes the process in its startup, after the runner
  has registered at Forgejo (no 64-bit Go runtime makes a channel of that capacity).\<close>

definition example_huge_config :: Config where
  "example_huge_config = example_config\<lparr>c_Global := (c_Global example_config)\<lparr>g_MaxParallelTasks := 2 ^ 62\<rparr>\<rparr>"

theorem exit_status_exact_witness:
  "snd (forgery_main (\<lambda>_. Inr []) (\<lambda>_ _. Inr (example_huge_config, [])) example_env example_north (2 ^ 45)
     (\<lambda>_. None) (\<lambda>_. 0) (\<lambda>_. False) NoEarlySignal False [''-config'', ''/etc/forgery.toml''] (no_file, (0, 0)))
   = Crash MakeChanPanic"
proof -
  let ?read = "\<lambda>_ :: string. Inr [] :: string + string"
  let ?decode = "\<lambda>_ _ :: string. Inr (example_huge_config, []) :: string + Config \<times> string list"
  let ?cfg = "applyDefaults example_env ''/etc/forgery.toml'' example_huge_config"
  have v: "config_valid ?cfg"
    by (simp add: config_valid_def applyDefaults_def record_defaults example_huge_config_def
        example_config_def example_instance_def instance_valid_def zero_Instance_def Let_def)
  have l: "Load ?read ?decode example_env ''/etc/forgery.toml'' = Inr ?cfg"
    using v by (simp add: Load_Inr)
  have f: "flag_Parse ''forgery.toml'' [''-config'', ''/etc/forgery.toml''] = Inr ''/etc/forgery.toml''"
    unfolding flag_Parse_forms by simp
  have i: "c_Instances ?cfg = [defaults_Instance example_env example_instance]"
    by (simp add: applyDefaults_def example_huge_config_def example_config_def)
  obtain st' r where st: "start_instances example_north (c_Instances ?cfg) [] (no_file, (0, 0)) = (st', Inr r)"
    unfolding i using example_start by blast
  have m: "(2 :: int) ^ 45 < g_MaxParallelTasks (c_Global ?cfg)"
    by (simp add: applyDefaults_def example_huge_config_def defaults_Global_def default_int_def Let_def)
  show ?thesis
    using exit_status_exact [of ?read ?decode example_env example_north "2 ^ 45" "\<lambda>_. None" "\<lambda>_. 0" "\<lambda>_. False"
        NoEarlySignal False "[''-config'', ''/etc/forgery.toml'']" "(no_file, (0, 0))"] f l st m
    unfolding Let_def by blast
qed

end
