(* ===== verification/Spec2Isabelle.thy ===== *)
theory Spec2Isabelle
  imports Token_Gen Slot_Pool Config Task_Store Session_Manager Identity_State North_Client North_Dedup
    Dispatch_GitHub Run_Task North_Poller South_Handler South_Proxy App_Daemon Observability Lifecycle Progress Assembly
begin

text \<open>
  Forgery is a daemon that registers with one or more Forgejo instances as an Actions runner, polls
  them for tasks, dispatches each task to a GitHub Actions workflow, and serves the runner that
  the workflow starts: it hands that runner its task, relays its reports to the Forgejo the task
  came from and proxies its git and API requests there. This development models the Go program
  under \<^verbatim>\<open>src/\<close> and proves what makes it correct.

  \<^bold>\<open>The program.\<close> \<^verbatim>\<open>app.Run\<close> creates the shared state and starts the goroutines. A
  poller per instance (\<^verbatim>\<open>north.PollLoop\<close>) takes a slot of the shared pool
  (\<^verbatim>\<open>slots.Pool\<close>), fetches a task, stores it with a fresh registration token
  (\<^verbatim>\<open>store.MemStore\<close>) and sends it down a channel. The dispatcher goroutine starts a handler
  for each task (\<^verbatim>\<open>run.HandleTask\<close>), which triggers the workflow
  (\<^verbatim>\<open>dispatch.Trigger\<close>), waits for the runner and then for the end of the task, and gives the
  slot back. The runner talks to the south server (\<^verbatim>\<open>south.Handler\<close>,
  \<^verbatim>\<open>south.proxyHandler\<close>): it spends the token for a session (\<^verbatim>\<open>session.Manager\<close>), fetches the
  rewritten task and reports; the reports go to the owning instance through a \<^verbatim>\<open>north.Client\<close> found
  by a \<^verbatim>\<open>north.Resolver\<close>. A GC loop reaps expired tasks and silent sessions. Runner identities
  survive restarts in a state file (\<^verbatim>\<open>state.FileStore\<close>).

  \<^bold>\<open>The theories\<close>, in the order of their imports; each opens with what it holds.

  \<^item> \<open>Go_Base\<close>, \<open>Go_Strings\<close>, \<open>Go_Encoding\<close>, \<open>Go_Paths\<close>: the prelude. Go maps, 64-bit
    durations, the string, path and encoding functions the program calls, and the locales for
    step relations: \<open>invariant_of\<close> (an invariant that every step keeps) and its extensions
    \<open>evolution\<close> (a two-state relation that every step respects) and \<open>simulation\<close> (every step is a
    run of an abstract machine).
  \<^item> \<open>Runner_V1\<close>: the messages of the generated runner API that the program reads or builds.
  \<^item> \<open>Token_Gen\<close> (\<^verbatim>\<open>token\<close>), \<open>Slot_Pool\<close> (\<^verbatim>\<open>slots\<close>, locale \<open>semaphore\<close>), \<open>Config\<close>
    (\<^verbatim>\<open>config\<close>), \<open>Observability\<close> (\<^verbatim>\<open>observability\<close>), \<open>Version\<close>
    (\<^verbatim>\<open>version\<close>).
  \<^item> \<open>Task_Store\<close> (\<^verbatim>\<open>store\<close>): task contexts with their status and signals, and the store; locale
    \<open>task_store\<close> is what its clients rely on.
  \<^item> \<open>Session_Manager\<close> (\<^verbatim>\<open>session\<close>, locale \<open>session_registry\<close>), \<open>Identity_State\<close>
    (\<^verbatim>\<open>state\<close>, locale \<open>identity_store\<close>).
  \<^item> \<open>North_API\<close>: the interfaces \<^verbatim>\<open>Client\<close> and \<^verbatim>\<open>Resolver\<close> (locale \<open>resolver\<close>).
    \<open>North_Client\<close>: identity, registration, recovery from a rejected identity, backoff, the RPCs
    and the heartbeat. \<open>North_Dedup\<close>: concurrent callers of \<^verbatim>\<open>retryOnAuth\<close> as a step relation.
  \<^item> \<open>Dispatch_GitHub\<close> (\<^verbatim>\<open>dispatch\<close>).
  \<^item> \<open>South_Registry\<close>: the registry of task tokens. \<open>South_Messages\<close>: the requests of the runner and
    how far one has come. \<open>World\<close>: the state the goroutines share.
    \<open>Run_Task\<close> (\<^verbatim>\<open>run\<close>): the handler of one task, cut at its selects and at the actions of its end. \<open>North_Poller\<close>
    (\<^verbatim>\<open>north/poller.go\<close>): the poll loop, cut where it blocks.
  \<^item> \<open>South_Payload\<close>, \<open>South_Handler\<close>, \<open>South_Proxy\<close> (\<^verbatim>\<open>south\<close>): the rewriting of the
    workflow, the RPCs of the runner, the reverse proxy. \<open>South_Requests\<close>: the same RPCs cut at every
    lock, as a machine that computes what the functions of \<open>South_Handler\<close> compute when it runs alone.
  \<^item> \<open>App_Daemon\<close> (\<^verbatim>\<open>app\<close>): startup, the GC pass, the drain, the result of \<^verbatim>\<open>Run\<close>. \<open>GC_Steps\<close>: the
    GC loop cut at every lock and call, which computes the pass of \<open>App_Daemon\<close> when it runs alone
    (\<open>gc_pass_alone\<close>).
  \<^item> \<open>Evolution\<close>: the rely condition on the shared state and its elementary changes.
    \<open>Request_Steps\<close> and \<open>Guarantees\<close>: every step of a request, and every other operation, keeps to it.
    \<open>Daemon\<close>: the goroutines as one step relation, the slots and the hand-over of tasks.
    \<open>Daemon_Records\<close>: the store, the tokens, the sessions and the requests over whole runs. \<open>Lifecycle\<close>: the life of one task as a
    small state machine that every run of the daemon refines. \<open>Progress\<close>: every handler can come to
    its end without a shutdown, because a registered runner stays known. \<open>Command_Line\<close>: the flags.
    \<open>Assembly\<close>: the entry point, and the daemon over its own northbound clients, pollers and dispatcher.

  \<^bold>\<open>How the model corresponds to the code.\<close> A struct is a record with a prefix per struct
  (\<open>t_ID\<close> is \<^verbatim>\<open>TaskCtx.ID\<close>), a function or method a definition of the same name; where two
  packages use a name, the second carries a prefix or suffix (\<open>south_Register\<close>,
  \<open>client_Register\<close>, \<open>Remove_session\<close>).

  \<^item> A Go map is an association list with distinct keys (\<open>gomap\<close>); theorems hold for every order of
    the list, as \<^verbatim>\<open>range\<close> has none.
  \<^item> A pointer shared between components is an address (\<open>tref\<close>, \<open>sref\<close>) into a heap in the state, so
    that a change through one holder is seen by the others. A channel used as a signal is a nil, open
    or closed value in the task context; the task channel is a list with a capacity.
  \<^item> Errors are values: \<open>Inl\<close> of an error type, or an option. A Go panic is a value of its own;
    the only one that a configuration which loads leaves possible is that of a task channel too large
    to be made (\<open>exit_status_exact\<close>). Message texts are shortened where only
    their code matters; log lines are left out.
  \<^item> Times and durations are integers. Arithmetic on durations wraps around at 64 bits
    (\<open>wrap64\<close>) and \<^verbatim>\<open>Time.Sub\<close> saturates (\<open>sat64\<close>) where the code can reach the bounds;
    the identity generation is a 64-bit word.
  \<^item> A section under a mutex is one step. A request of the runner is cut at every lock
    (\<open>request_step\<close>), a poller and a handler where they block, the end of a handler at each of its
    actions (\<open>exit_step\<close>), and a pass of the GC loop at every lock and call (\<open>gc_step\<close>; its
    inspection of the stored tasks is one step). In the functions of a component that run outside the step relations,
    what others do in between is an argument (\<open>interf\<close>).
    The choice of a select with several ready cases, the clock, the random source and the outcome of
    every system call are arguments as well, so each theorem holds for all of them.
  \<^item> Loops are structural recursion where they walk a list. \<open>drain_loop\<close> ends because the time to the
    deadline shrinks, \<open>trigger_loop\<close> because attempts are bounded by the retry limit,
    \<open>replace_exprs\<close> because a match consumes input. \<open>request_run\<close> counts the steps of a request;
    twelve are always enough (\<open>request_alone_exact\<close>). \<open>gc_run\<close> counts those of a GC pass: four, and
    three for each session that has expired (\<open>gc_pass_alone\<close>). No other definition uses fuel.

  \<^bold>\<open>Parameters.\<close> Code that is not part of the repository is an argument of the definitions that use
  it: the YAML parser and encoder, the TOML decoder, \<^verbatim>\<open>url.Parse\<close>, \<^verbatim>\<open>net.Listen\<close>,
  \<^verbatim>\<open>os.Hostname\<close>, \<^verbatim>\<open>crypto/rand\<close>, the clock, the Forgejo RPCs and the GitHub API, and the largest capacity of a channel that the Go
  runtime can make. Theorems about the
  daemon assume of a call that leaves the process that it is \<open>quiet\<close>: while it lasts the other
  goroutines do what \<open>Evolution\<close> proves each of them does (they never take back a signal, change
  the identity of a task, put a task back into the store or take away the session of a task that
  is not done) and the call itself changes only the
  outside; \<open>Progress\<close> assumes besides that no token drawn during a failure report of the GC loop
  collides with another (\<open>fresh_reports\<close>). \<open>Assembly\<close> discharges quietness for the northbound clients, the pollers' fetches and the
  dispatcher.

  \<^bold>\<open>What is proved.\<close>

  \<^item> The daemon as a whole: no task is lost or handled twice, slots are accounted for exactly, the
    channel never blocks a poller, shutdown cannot deadlock (\<open>Daemon\<close>), no task keeps its slot for
    ever (\<open>Progress\<close>); no request acts
    for a session other than that of the token it presented, a claimed token never leads to its task
    again, stored tasks have an owner so the store is bounded by the pool and the handlers that have
    released their slot but not yet removed their task, the drain waits only for
    registered runners and stranded tasks (\<open>Daemon_Records\<close>); every task runs through the phases of
    \<open>Lifecycle\<close> and gets one runner at most, as long as no two tasks share their id or their random
    token, in every interleaving of the lock sections of all requests; tasks always belong to a
    configured instance, and how the process ends is determined exactly, from the command line to the
    drain (\<open>Assembly\<close>).
  \<^item> Credentials: tokens are single use, over whole runs the store refines an abstract map, authentication is sound, losing a
    race creates nothing, a terminal report cleans up exactly its own task.
  \<^item> Lifecycle: what each path of a handler reports and releases, what one GC pass removes, which
    sessions survive, when the drain and the process end and how.
  \<^item> Northbound: one retry under the identity that Register returned, the backoff schedule and its gate, at most one runner
    row per lost identity under any concurrency, identities survive restarts and crashes during a save.
  \<^item> Southbound: reports reach their owner only, the payload differs from the stored one only where the
    rewrites say, which replace every placeholder of a server URL and keep all other text, proxied requests reach the instance of their token only.
  \<^item> Configuration: the origin of every field of a loaded configuration, and what its values satisfy.

  \<^bold>\<open>What the proofs showed about the code.\<close> Task ids of different instances share one map
  (\<open>cross_instance_collision\<close>); a request that looked its token up before such a collision claims it
  through the other task and is admitted to the displaced one (\<open>displaced_task_admitted\<close>). A runner
  that registers while the startup timeout of its task fires gets a session for a task that is gone
  (\<open>registration_outlives_timeout\<close>). A handler that reports a failure releases its slot before it
  removes its task, so the store can exceed the pool for a moment (\<open>late_removals\<close>). A budget that
  no channel can have passes the validation and crashes the startup (\<open>exit_status_exact\<close>). Declare writes to a session without a lock. A cancellation at the hand-over strands a fetched task in the store
  (\<open>cancelled_send_strands_task\<close>), which makes the drain run into its deadline. FetchTask hands
  out the task on every call although a comment says once. The heartbeat runs on after the runner has
  registered. Every answer of GitHub other than 204 and 4xx is retried. A failure to persist an
  identity leaves the process with another identity than its state file. Registry entries of
  finished tasks are never evicted. Full tokens reach the debug log.

  \<^bold>\<open>Not modelled.\<close> Logging; the delivery of signals (that one comes before \<open>Run\<close> handles them, and
  that a second one forces the exit, are arguments of its outcome); the graceful shutdown of the HTTP servers after the
  drain; hop-by-hop headers and bodies in \<^verbatim>\<open>httputil.ReverseProxy\<close> (its choice of target, request
  line, host, authorization and forwarding headers are modelled); HTTP, TLS and gRPC transports; the
  generated code under \<^verbatim>\<open>runner.v1\<close> beyond its message fields.
\<close>

end
